(* ===== verification/Prelude.thy ===== *)
theory Prelude
  imports Main "HOL-Library.Word" "HOL-Library.Monad_Syntax"
begin

text \<open>
  Shared vocabulary of the development: the C++ integer types and the conversions between them,
  checked vector access, the reading discipline of \<^verbatim>\<open>std::unordered_map\<close> and
  \<^verbatim>\<open>std::map\<close>, \<^verbatim>\<open>std::to_string\<close>, and the generic lemmas on lists and
  integer ranges the component theories share.

  Conventions.
  \<^item> \<^verbatim>\<open>int64_t\<close> and \<^verbatim>\<open>uint64_t\<close> values are \<open>int\<close>. Signed overflow is
    undefined in C++, so signed arithmetic is written without a wrap; where the code converts
    between signed and unsigned (also implicitly, by comparing an \<^verbatim>\<open>int64_t\<close> with a
    \<^verbatim>\<open>size_t\<close>) the conversion \<open>u64\<close> or \<open>i64\<close> is written out. Unsigned counters whose
    wrap-around is reachable by design are \<open>64 word\<close>.
  \<^item> \<open>'a defined\<close> is the result of code whose behaviour may be undefined: \<open>None\<close> is an
    out-of-range \<^verbatim>\<open>operator[]\<close> on a vector.
\<close>

named_theorems cpp_int_simps \<open>conversions between C++ integer types on in-range values\<close>
named_theorems vec_simps \<open>checked vector access\<close>

section \<open>C++ integers\<close>

type_synonym i64_t = int
type_synonym u64_t = int

definition u64 :: "int \<Rightarrow> int" where
  "u64 x = x mod 2 ^ 64"

definition i64 :: "int \<Rightarrow> int" where
  "i64 x = (x + 2 ^ 63) mod 2 ^ 64 - 2 ^ 63"

definition in_i64 :: "int \<Rightarrow> bool" where
  "in_i64 x \<longleftrightarrow> - (2 ^ 63) \<le> x \<and> x < 2 ^ 63"

text \<open>Evaluation uses the literals.\<close>

lemma conversions_code [code]:
  "u64 x = x mod 18446744073709551616"
  "i64 x = (x + 9223372036854775808) mod 18446744073709551616 - 9223372036854775808"
  by (simp_all add: u64_def i64_def)

lemma u64_id [cpp_int_simps]: "0 \<le> x \<Longrightarrow> x < 2 ^ 64 \<Longrightarrow> u64 x = x"
  by (simp add: u64_def)

lemma u64_nonneg [simp]: "0 \<le> u64 x"
  by (simp add: u64_def)

lemma u64_bound: "u64 x < 2 ^ 64"
  by (simp add: u64_def)

lemma i64_id [cpp_int_simps]: "in_i64 x \<Longrightarrow> i64 x = x"
  by (simp add: i64_def in_i64_def)

lemma i64_range: "in_i64 (i64 x)"
  by (simp add: i64_def in_i64_def)

lemma i64_u64: "i64 (u64 x) = i64 x"
  by (simp add: i64_def u64_def mod_simps)

lemma i64_u64_id: "in_i64 x \<Longrightarrow> i64 (u64 x) = x"
  by (simp add: i64_u64 i64_id)

text \<open>A negative \<^verbatim>\<open>int64_t\<close> compared with a \<^verbatim>\<open>size_t\<close> becomes huge.\<close>

lemma u64_negative:
  assumes "in_i64 x" "x < 0"
  shows "2 ^ 63 \<le> u64 x"
proof -
  have "x mod 2 ^ 64 = (x + 2 ^ 64) mod 2 ^ 64" by simp
  also have "\<dots> = x + 2 ^ 64" using assms by (intro mod_pos_pos_trivial) (auto simp: in_i64_def)
  finally show ?thesis using assms by (simp add: u64_def in_i64_def)
qed

section \<open>Undefined behaviour and checked vector access\<close>

type_synonym 'a defined = "'a option"

definition vec_at :: "'a list \<Rightarrow> int \<Rightarrow> 'a defined" where
  "vec_at xs i = (if 0 \<le> i \<and> i < int (length xs) then Some (xs ! nat i) else None)"

lemma vec_at_Some_iff [vec_simps]:
  "vec_at xs i = Some x \<longleftrightarrow> 0 \<le> i \<and> i < int (length xs) \<and> x = xs ! nat i"
  by (auto simp: vec_at_def)

lemma vec_at_None_iff [vec_simps]:
  "vec_at xs i = None \<longleftrightarrow> i < 0 \<or> int (length xs) \<le> i"
  by (auto simp: vec_at_def)

lemma vec_at_inside: "0 \<le> i \<Longrightarrow> i < int (length xs) \<Longrightarrow> vec_at xs i = Some (xs ! nat i)"
  by (simp add: vec_at_def)

text \<open>\<^verbatim>\<open>v.erase(v.begin() + i, v.end())\<close> keeps the first \<open>i\<close> elements.\<close>

definition vec_erase_from :: "'a list \<Rightarrow> int \<Rightarrow> 'a list" where
  "vec_erase_from xs i = take (nat i) xs"

section \<open>Maps read through \<open>operator[]\<close>\<close>

text \<open>
  \<^verbatim>\<open>m[k]\<close> on an \<^verbatim>\<open>unordered_map<int64_t, int64_t>\<close> yields the stored value, or 0 after
  inserting it. The inserted default cannot be observed by code that only reads the map through
  \<^verbatim>\<open>operator[]\<close>, so the read is pure here.
\<close>

definition map_get :: "(int \<rightharpoonup> int) \<Rightarrow> int \<Rightarrow> int" where
  "map_get m k = (case m k of None \<Rightarrow> 0 | Some v \<Rightarrow> v)"

lemma map_get_upd [simp]: "map_get (m(k \<mapsto> v)) j = (if j = k then v else map_get m j)"
  by (simp add: map_get_def)

lemma map_get_empty [simp]: "map_get Map.empty k = 0"
  by (simp add: map_get_def)

text \<open>
  A \<^verbatim>\<open>std::map\<close> with unsigned keys is an association list kept in ascending key order,
  the order a range-for visits it.
\<close>

fun omap_put :: "'k::linorder \<Rightarrow> 'v \<Rightarrow> ('k \<times> 'v) list \<Rightarrow> ('k \<times> 'v) list" where
  "omap_put k v [] = [(k, v)]"
| "omap_put k v ((k', v') # m) =
     (if k < k' then (k, v) # (k', v') # m
      else if k = k' then (k, v) # m
      else (k', v') # omap_put k v m)"

lemma map_of_omap_put: "map_of (omap_put k v m) = (map_of m)(k \<mapsto> v)"
  by (induction m) (auto simp: fun_eq_iff)

lemma set_keys_omap_put: "fst ` set (omap_put k v m) = insert k (fst ` set m)"
  by (induction k v m rule: omap_put.induct) (auto simp: insert_commute)

lemma sorted_omap_put:
  "sorted_wrt (<) (map fst m) \<Longrightarrow> sorted_wrt (<) (map fst (omap_put k v m))"
proof (induction m)
  case (Cons p m)
  then show ?case
    by (cases p) (auto simp: set_keys_omap_put)
qed simp

section \<open>Decimal printing\<close>

text \<open>\<^verbatim>\<open>std::to_string\<close> on unsigned integers.\<close>

definition digit_char :: "int \<Rightarrow> char" where
  "digit_char d = char_of (48 + d)"

function to_string :: "u64_t \<Rightarrow> string" where
  "to_string n =
     (if n < 10 then [digit_char n] else to_string (n div 10) @ [digit_char (n mod 10)])"
  by pat_completeness auto
termination
  by (relation "measure nat") auto

declare to_string.simps [simp del]

definition digit_val :: "char \<Rightarrow> int" where
  "digit_val c = of_char c - 48"

definition is_digit :: "char \<Rightarrow> bool" where
  "is_digit c \<longleftrightarrow> 48 \<le> (of_char c :: int) \<and> (of_char c :: int) \<le> 57"

lemma of_char_digit_char: "0 \<le> d \<Longrightarrow> d < 10 \<Longrightarrow> (of_char (digit_char d) :: int) = 48 + d"
  by (simp add: digit_char_def)

lemma digit_val_digit_char [simp]: "0 \<le> d \<Longrightarrow> d < 10 \<Longrightarrow> digit_val (digit_char d) = d"
  by (simp add: digit_val_def of_char_digit_char)

lemma is_digit_digit_char [simp]: "0 \<le> d \<Longrightarrow> d < 10 \<Longrightarrow> is_digit (digit_char d)"
  by (simp add: is_digit_def of_char_digit_char)

definition string_value :: "string \<Rightarrow> int" where
  "string_value cs = foldl (\<lambda>n c. 10 * n + digit_val c) 0 cs"

lemma string_value_snoc: "string_value (cs @ [c]) = 10 * string_value cs + digit_val c"
  by (simp add: string_value_def)

lemma string_value_to_string [simp]: "0 \<le> n \<Longrightarrow> string_value (to_string n) = n"
proof (induction n rule: to_string.induct)
  case (1 n)
  show ?case
  proof (cases "n < 10")
    case True
    with 1 show ?thesis by (simp add: to_string.simps [of n] string_value_def)
  next
    case False
    with 1 show ?thesis by (simp add: to_string.simps [of n] string_value_snoc)
  qed
qed

lemma to_string_nonempty [simp]: "to_string n \<noteq> []"
  by (subst to_string.simps) simp

lemma to_string_digits: "0 \<le> n \<Longrightarrow> c \<in> set (to_string n) \<Longrightarrow> is_digit c"
proof (induction n rule: to_string.induct)
  case (1 n)
  then show ?case
    by (cases "n < 10") (auto simp: to_string.simps [of n])
qed

lemma to_string_inj: "0 \<le> x \<Longrightarrow> 0 \<le> y \<Longrightarrow> to_string x = to_string y \<longleftrightarrow> x = y"
  by (metis string_value_to_string)

section \<open>Lists\<close>

lemma fold_invariant_list:
  assumes "P s" and "\<And>x s. x \<in> set xs \<Longrightarrow> P s \<Longrightarrow> P (f x s)"
  shows "P (fold f xs s)"
  using assms by (induction xs arbitrary: s) auto

lemma nth_take_eq: "take n xs = take n ys \<Longrightarrow> i < n \<Longrightarrow> xs ! i = ys ! i"
  by (metis nth_take)

definition remove_nth :: "nat \<Rightarrow> 'a list \<Rightarrow> 'a list" where
  "remove_nth k xs = take k xs @ drop (Suc k) xs"

lemma set_remove_nth: "set (remove_nth k xs) \<subseteq> set xs"
  unfolding remove_nth_def using set_take_subset [of k xs] set_drop_subset [of "Suc k" xs] by auto

lemma in_set_remove_nthD: "x \<in> set (remove_nth k xs) \<Longrightarrow> x \<in> set xs"
  using set_remove_nth by fast

lemma mem_remove_nth_or: "k < length xs \<Longrightarrow> x \<in> set xs \<Longrightarrow> x = xs ! k \<or> x \<in> set (remove_nth k xs)"
  by (metis Un_iff append_take_drop_id Cons_nth_drop_Suc remove_nth_def set_ConsD set_append)

section \<open>Transition systems and inductive invariants\<close>

inductive reach :: "('s \<Rightarrow> bool) \<Rightarrow> ('s \<Rightarrow> 's \<Rightarrow> bool) \<Rightarrow> 's \<Rightarrow> bool" for init step where
  start: "init s \<Longrightarrow> reach init step s"
| step: "reach init step s \<Longrightarrow> step s t \<Longrightarrow> reach init step t"

text \<open>
  The interface of an invariant proof: the provider shows that the property holds initially and
  that every step keeps it; the client gets it in every reachable state, and may use it while
  proving further invariants.
\<close>

locale inductive_invariant =
  fixes init :: "'s \<Rightarrow> bool" and step :: "'s \<Rightarrow> 's \<Rightarrow> bool" and inv :: "'s \<Rightarrow> bool"
  assumes init_inv: "init s \<Longrightarrow> inv s"
    and step_inv: "inv s \<Longrightarrow> step s t \<Longrightarrow> inv t"
begin

lemma always: "reach init step s \<Longrightarrow> inv s"
  by (induction rule: reach.induct) (blast intro: init_inv step_inv)+

lemma always_later: "inv s \<Longrightarrow> step\<^sup>*\<^sup>* s t \<Longrightarrow> inv t"
  by (rotate_tac, induction rule: rtranclp_induct) (blast intro: step_inv)+

end

text \<open>
  The interface of a refinement proof: every step of the implementation is matched by steps of the
  specification (none, one or several); the client gets that reachable states are mapped to
  reachable states, hence every invariant of the specification.
\<close>

locale simulation =
  fixes init :: "'s \<Rightarrow> bool" and step :: "'s \<Rightarrow> 's \<Rightarrow> bool" and absf :: "'s \<Rightarrow> 'a"
    and spec_init :: "'a \<Rightarrow> bool" and spec_step :: "'a \<Rightarrow> 'a \<Rightarrow> bool"
  assumes sim_init: "init s \<Longrightarrow> spec_init (absf s)"
    and sim_step: "reach init step s \<Longrightarrow> step s t \<Longrightarrow> spec_step\<^sup>*\<^sup>* (absf s) (absf t)"
begin

lemma implements: "reach init step s \<Longrightarrow> reach spec_init spec_step (absf s)"
proof (induction rule: reach.induct)
  case (step s t)
  have "spec_step\<^sup>*\<^sup>* (absf s) (absf t)" using step.hyps by (rule sim_step)
  then show ?case using step.IH by (induction rule: rtranclp_induct) (auto intro: reach.step)
qed (blast intro: reach.start sim_init)

end

section \<open>Quorums\<close>

text \<open>
  What a vote or a commit decision relies on: two quorums share a member. A relation that gives
  every member at most one choice then cannot have two winners.
\<close>

locale quorum_system =
  fixes quorum :: "'a set \<Rightarrow> bool"
  assumes intersect: "quorum P \<Longrightarrow> quorum Q \<Longrightarrow> P \<inter> Q \<noteq> {}"
begin

lemma common_member:
  assumes "quorum P" "quorum Q"
  obtains v where "v \<in> P" "v \<in> Q"
  using intersect [OF assms] by blast

lemma unique_winner:
  assumes "quorum P" "quorum Q"
    and "\<And>v. v \<in> P \<Longrightarrow> chose v x" "\<And>v. v \<in> Q \<Longrightarrow> chose v y"
    and "\<And>v a b. chose v a \<Longrightarrow> chose v b \<Longrightarrow> a = b"
  shows "x = y"
  using assms by (metis common_member)

end

definition majority :: "'a set \<Rightarrow> 'a set \<Rightarrow> bool" where
  "majority M Q \<longleftrightarrow> finite M \<and> Q \<subseteq> M \<and> 2 * card Q > card M"

lemma majorities_share:
  assumes "finite M" "P \<subseteq> M" "Q \<subseteq> M" "card M < card P + card Q"
  shows "P \<inter> Q \<noteq> {}"
proof
  assume "P \<inter> Q = {}"
  then have "card P + card Q = card (P \<union> Q)"
    using assms by (simp add: card_Un_disjoint finite_subset)
  also have "\<dots> \<le> card M" using assms by (simp add: card_mono)
  finally show False using assms(4) by simp
qed

interpretation maj: quorum_system "majority M" for M
  by unfold_locales (rule majorities_share, auto simp: majority_def)

end
