(* ===== verification/RaftTypes.thy ===== *)
theory RaftTypes
  imports Prelude
begin

text \<open>
  The data of the Raft core: \<^verbatim>\<open>inc/common/common.hpp\<close>, \<^verbatim>\<open>inc/common/config.hpp\<close>,
  the messages of \<^verbatim>\<open>proto/raft.proto\<close> as the generated classes expose them, the log entry,
  the role and the member variables of class \<^verbatim>\<open>Raft\<close> (\<^verbatim>\<open>inc/rafty/raft.hpp\<close>).

  Detached threads are data: a value of type \<open>thread\<close> is a thread that has been created and
  has its next critical section still to run. Every mutex-protected section of the source is one
  atomic operation on the record \<open>raft\<close>, and creating a thread appends to its field
  \<open>threads\<close>. \<open>ready_queue\<close> is the sequence of results handed to
  \<^verbatim>\<open>MessageQueue::enqueue\<close>, in order.
\<close>

section \<open>Common results\<close>

text \<open>
  \<^verbatim>\<open>propose\<close> and \<^verbatim>\<open>propose_sync\<close> leave \<^verbatim>\<open>index\<close> and \<^verbatim>\<open>term\<close> of the default
  initialised result unassigned on a node that is not the leader: \<open>None\<close> is an indeterminate
  value.
\<close>

record proposal_result =
  pr_index :: "u64_t option"
  pr_term :: "u64_t option"
  pr_is_leader :: bool

record apply_result =
  ar_valid :: bool
  ar_data :: string
  ar_index :: u64_t

record node_state =
  st_term :: u64_t
  st_is_leader :: bool

record config =
  cfg_id :: u64_t
  cfg_addr :: string
  cfg_peer_addrs :: "(u64_t \<times> string) list"

section \<open>Log entries, roles and messages\<close>

record entry =
  e_term :: i64_t
  e_command :: string

lemma entry_copy [simp]: "\<lparr>e_term = e_term e, e_command = e_command e\<rparr> = (e :: entry)"
  by (cases e) simp

datatype role = Leader | Follower | Candidate

definition roleToString :: "role \<Rightarrow> string" where
  "roleToString r =
     (case r of Leader \<Rightarrow> ''Leader'' | Follower \<Rightarrow> ''Follower'' | Candidate \<Rightarrow> ''Candidate'')"

record request_vote_request =
  rv_term :: i64_t
  rv_candidate_id :: i64_t
  rv_last_log_index :: i64_t
  rv_last_log_term :: i64_t

record request_vote_reply =
  rvr_term :: i64_t
  rvr_vote_granted :: bool

record append_entries_request =
  ae_term :: i64_t
  ae_leader_id :: i64_t
  ae_prev_log_index :: i64_t
  ae_prev_log_term :: i64_t
  ae_entries :: "entry list"
  ae_leader_commit :: i64_t

record conflict_info =
  conflict_term :: i64_t
  conflict_index :: i64_t

text \<open>\<open>aer_conflict_info\<close> is \<open>None\<close> when \<^verbatim>\<open>has_conflict_info()\<close> is false.\<close>

record append_entries_reply =
  aer_term :: i64_t
  aer_success :: bool
  aer_conflict_info :: "conflict_info option"

text \<open>Fresh protobuf messages hold default values.\<close>

definition empty_vote_reply :: request_vote_reply where
  "empty_vote_reply = \<lparr>rvr_term = 0, rvr_vote_granted = False\<rparr>"

definition empty_append_reply :: append_entries_reply where
  "empty_append_reply = \<lparr>aer_term = 0, aer_success = False, aer_conflict_info = None\<rparr>"

section \<open>Threads\<close>

text \<open>What the sender of an \<^verbatim>\<open>AppendEntries\<close> call keeps in locals across the call.\<close>

record send_ctx =
  sc_log_size :: i64_t
  sc_reply_counter :: i64_t
  sc_next_index :: i64_t
  sc_match_index :: i64_t

text \<open>
  \<open>TTimer c d m\<close> is \<^verbatim>\<open>start_timer(c, d, m)\<close> inside \<^verbatim>\<open>cv.wait_for\<close>;
  \<open>TRequestVotes\<close> is \<^verbatim>\<open>become_candidate\<close> after its critical section, about to call
  \<^verbatim>\<open>request_votes(currentTerm)\<close>; \<open>TSyncWait cv i res awake\<close> is \<^verbatim>\<open>propose_sync\<close>
  inside \<^verbatim>\<open>proposal_cv->wait\<close> for index \<open>i\<close>.
\<close>

datatype thread =
    TStartElectionTimer
  | TStartHeartbeatTimer
  | TTimer "64 word" int int
  | TBecomeCandidate
  | TRequestVotes
  | TVoteSend u64_t i64_t
  | TSendEntries
  | TAppendSend u64_t
  | TSyncWait nat i64_t proposal_result bool

section \<open>Class \<open>Raft\<close>\<close>

record raft =
  rid :: u64_t
  listening_addr :: string
  peer_addrs :: "(u64_t \<times> string) list"
  dead :: bool
  ready_queue :: "apply_result list"
  peers :: "u64_t list"
  server_running :: bool
  currentTerm :: i64_t
  votedFor :: i64_t
  rlog :: "entry list"
  lastApplied :: i64_t
  commitIndex :: i64_t
  nextIndex :: "i64_t \<rightharpoonup> i64_t"
  matchIndex :: "i64_t \<rightharpoonup> i64_t"
  replyCounter :: "i64_t \<rightharpoonup> i64_t"
  currentRole :: role
  votes :: "i64_t set"
  active :: bool
  timerCounter :: "64 word"
  proposal_cvs :: "(i64_t \<times> nat) list"
  next_cv :: nat
  threads :: "thread list"

definition broadcastTimeout :: int where
  "broadcastTimeout = 25"

definition log_size :: "raft \<Rightarrow> int" where
  "log_size s = int (length (rlog s))"

text \<open>Starting a detached thread.\<close>

definition spawn :: "thread \<Rightarrow> raft \<Rightarrow> raft" where
  "spawn t s = s\<lparr>threads := threads s @ [t]\<rparr>"

lemma spawn_simps [simp]:
  "rid (spawn t s) = rid s" "listening_addr (spawn t s) = listening_addr s"
  "peer_addrs (spawn t s) = peer_addrs s" "dead (spawn t s) = dead s"
  "ready_queue (spawn t s) = ready_queue s" "peers (spawn t s) = peers s"
  "server_running (spawn t s) = server_running s" "currentTerm (spawn t s) = currentTerm s"
  "votedFor (spawn t s) = votedFor s" "rlog (spawn t s) = rlog s"
  "lastApplied (spawn t s) = lastApplied s" "commitIndex (spawn t s) = commitIndex s"
  "nextIndex (spawn t s) = nextIndex s" "matchIndex (spawn t s) = matchIndex s"
  "replyCounter (spawn t s) = replyCounter s" "currentRole (spawn t s) = currentRole s"
  "votes (spawn t s) = votes s" "active (spawn t s) = active s"
  "timerCounter (spawn t s) = timerCounter s" "proposal_cvs (spawn t s) = proposal_cvs s"
  "next_cv (spawn t s) = next_cv s" "threads (spawn t s) = threads s @ [t]"
  by (simp_all add: spawn_def)

text \<open>Starting one thread per element of a list.\<close>

definition spawn_all :: "thread list \<Rightarrow> raft \<Rightarrow> raft" where
  "spawn_all ts s = fold spawn ts s"

lemma spawn_all_eq: "spawn_all ts s = s\<lparr>threads := threads s @ ts\<rparr>"
  by (induction ts arbitrary: s) (simp_all add: spawn_all_def spawn_def)

text \<open>
  The fields the election reads and writes, apart from the thread pool: many operations leave
  them alone.
\<close>

definition same_election :: "raft \<Rightarrow> raft \<Rightarrow> bool" where
  "same_election s t \<longleftrightarrow>
     rid t = rid s \<and> peers t = peers s \<and> peer_addrs t = peer_addrs s \<and>
     currentTerm t = currentTerm s \<and> votedFor t = votedFor s \<and>
     currentRole t = currentRole s \<and> votes t = votes s \<and> active t = active s"

lemma same_election_refl [simp]: "same_election s s"
  by (simp add: same_election_def)

lemma same_election_trans: "same_election s t \<Longrightarrow> same_election t u \<Longrightarrow> same_election s u"
  by (simp add: same_election_def)

lemma same_election_spawn [simp]: "same_election s (spawn t s)"
  by (simp add: same_election_def)

end
