(* ===== verification/RaftLog.thy ===== *)
theory RaftLog
  imports RaftTypes
begin

text \<open>
  The loops of \<^verbatim>\<open>src/raft.cpp\<close> that read and rewrite the log, each as one function on the
  values the loop works on, with its functional specification:
  \<^item> the up-to-date comparison of \<^verbatim>\<open>reply_vote\<close>;
  \<^item> \<^verbatim>\<open>append_entries\<close>: the scan for the first index of the conflicting term, the scan that
    erases a conflicting suffix, the loop that appends the remaining entries;
  \<^item> \<^verbatim>\<open>send_entries\<close>: the copy of the entries to send, the binary search for the conflicting
    term, the search for the highest index a majority holds.
  Every loop that indexes the log returns \<open>None\<close> on an out-of-range index, and has a lemma that
  it does not.
\<close>

section \<open>Last entry and the up-to-date comparison\<close>

definition last_log_term :: "entry list \<Rightarrow> i64_t" where
  "last_log_term log = (if log \<noteq> [] then e_term (last log) else 0)"

definition last_log_index :: "entry list \<Rightarrow> i64_t" where
  "last_log_index log = (if log \<noteq> [] then int (length log) else 0)"

lemma last_log_index_length [simp]: "last_log_index log = int (length log)"
  by (simp add: last_log_index_def)

definition candidate_up_to_date :: "i64_t \<Rightarrow> i64_t \<Rightarrow> entry list \<Rightarrow> bool" where
  "candidate_up_to_date candidateLastLogTerm candidateLastLogIndex log =
     (let lastLogTerm = last_log_term log; lastLogIndex = last_log_index log
      in if candidateLastLogTerm > lastLogTerm then True
         else if candidateLastLogTerm = lastLogTerm \<and> candidateLastLogIndex \<ge> lastLogIndex then True
         else False)"

text \<open>It is the lexicographic order on (last term, last index), hence total and transitive.\<close>

lemma candidate_up_to_date_iff:
  "candidate_up_to_date t i log \<longleftrightarrow>
     last_log_term log < t \<or> last_log_term log = t \<and> int (length log) \<le> i"
  by (auto simp: candidate_up_to_date_def Let_def)

definition at_least_as_up_to_date :: "entry list \<Rightarrow> entry list \<Rightarrow> bool" where
  "at_least_as_up_to_date l m = candidate_up_to_date (last_log_term l) (last_log_index l) m"

lemma up_to_date_total: "at_least_as_up_to_date l m \<or> at_least_as_up_to_date m l"
  by (auto simp: at_least_as_up_to_date_def candidate_up_to_date_iff)

lemma up_to_date_trans:
  "at_least_as_up_to_date k l \<Longrightarrow> at_least_as_up_to_date l m \<Longrightarrow> at_least_as_up_to_date k m"
  by (auto simp: at_least_as_up_to_date_def candidate_up_to_date_iff)

section \<open>First index of the conflicting term\<close>

text \<open>
  \<^verbatim>\<open>for (int64_t i = prev_log_index - 1; i >= 0; --i)\<close>, started with
  \<open>conflict_index = prev_log_index\<close>.
\<close>

function conflict_scan :: "entry list \<Rightarrow> i64_t \<Rightarrow> i64_t \<Rightarrow> i64_t \<Rightarrow> i64_t defined" where
  "conflict_scan log ct ci i =
     (if i \<ge> 0 then do {
        e \<leftarrow> vec_at log i;
        if e_term e \<noteq> ct then Some (i + 2)
        else if i = 0 then Some 1
        else conflict_scan log ct ci (i - 1)
      } else Some ci)"
  by pat_completeness auto
termination
  by (relation "measure (\<lambda>(log, ct, ci, i). nat (i + 1))") auto

declare conflict_scan.simps [simp del]

lemma conflict_scan_first:
  assumes "0 \<le> i" "i < int (length log)" "e_term (log ! nat i) = ct"
  shows "\<exists>r. conflict_scan log ct ci i = Some r \<and> 1 \<le> r \<and> r \<le> i + 1 \<and>
    (\<forall>j. r - 1 \<le> j \<and> j \<le> i \<longrightarrow> e_term (log ! nat j) = ct) \<and>
    (1 < r \<longrightarrow> e_term (log ! nat (r - 2)) \<noteq> ct)"
  using assms
proof (induction log ct ci i rule: conflict_scan.induct)
  case (1 log ct ci i)
  show ?case
  proof (cases "i = 0")
    case True
    then have "conflict_scan log ct ci i = Some 1"
      using 1(2-4) by (subst conflict_scan.simps) (simp add: vec_at_inside)
    with 1(4) True show ?thesis by auto
  next
    case False
    show ?thesis
    proof (cases "e_term (log ! nat (i - 1)) = ct")
      case eq: True
      have "\<exists>r. conflict_scan log ct ci (i - 1) = Some r \<and> 1 \<le> r \<and> r \<le> i - 1 + 1 \<and>
          (\<forall>j. r - 1 \<le> j \<and> j \<le> i - 1 \<longrightarrow> e_term (log ! nat j) = ct) \<and>
          (1 < r \<longrightarrow> e_term (log ! nat (r - 2)) \<noteq> ct)"
        using 1(1) [OF 1(2) vec_at_inside [OF 1(2,3)]] 1(2-4) False eq by simp
      then obtain r where r: "conflict_scan log ct ci (i - 1) = Some r" "1 \<le> r" "r \<le> i"
        and run: "\<And>j. r - 1 \<le> j \<Longrightarrow> j \<le> i - 1 \<Longrightarrow> e_term (log ! nat j) = ct"
        and before: "1 < r \<longrightarrow> e_term (log ! nat (r - 2)) \<noteq> ct" by auto
      have "e_term (log ! nat j) = ct" if "r - 1 \<le> j" "j \<le> i" for j
        using run [of j] 1(4) that by (cases "j = i") auto
      with r before 1(2-4) False show ?thesis
        by (auto simp: conflict_scan.simps [of log ct ci i] vec_at_inside)
    next
      case neq: False
      have "conflict_scan log ct ci (i - 1) = Some (i + 1)"
        using 1(2,3) False neq by (simp add: conflict_scan.simps [of log ct ci "i - 1"] vec_at_inside)
      moreover have "conflict_scan log ct ci i = conflict_scan log ct ci (i - 1)"
        using 1(2-4) False by (simp add: conflict_scan.simps [of log ct ci i] vec_at_inside)
      moreover have "e_term (log ! nat j) = ct" if "i \<le> j" "j \<le> i" for j
        using that 1(4) by simp
      ultimately show ?thesis using 1(2) neq by auto
    qed
  qed
qed

section \<open>Overwriting a conflicting suffix\<close>

text \<open>
  \<^verbatim>\<open>while (startIndex + i < log.size() && i < entries_size())\<close>: the result is the log after
  the loop and the final value of \<^verbatim>\<open>i\<close>. \<^verbatim>\<open>startIndex + i < log.size()\<close> compares a signed
  with an unsigned value.
\<close>

function overwrite_scan ::
  "entry list \<Rightarrow> i64_t \<Rightarrow> entry list \<Rightarrow> i64_t \<Rightarrow> (entry list \<times> i64_t) defined" where
  "overwrite_scan log startIndex es i =
     (if u64 (startIndex + i) < int (length log) \<and> i < int (length es) then do {
        e \<leftarrow> vec_at log (u64 (startIndex + i));
        e' \<leftarrow> vec_at es i;
        if e_term e \<noteq> e_term e' then Some (vec_erase_from log (startIndex + i), i)
        else overwrite_scan log startIndex es (i + 1)
      } else Some (log, i))"
  by pat_completeness auto
termination
  by (relation "measure (\<lambda>(log, startIndex, es, i). nat (int (length es) - i))") auto

declare overwrite_scan.simps [simp del]

text \<open>\<^verbatim>\<open>for (; i < entries_size(); ++i) log.push_back(...)\<close>\<close>

function append_remaining :: "entry list \<Rightarrow> entry list \<Rightarrow> i64_t \<Rightarrow> entry list defined" where
  "append_remaining log es i =
     (if i < int (length es) then do {
        e \<leftarrow> vec_at es i;
        append_remaining (log @ [\<lparr>e_term = e_term e, e_command = e_command e\<rparr>]) es (i + 1)
      } else Some log)"
  by pat_completeness auto
termination
  by (relation "measure (\<lambda>(log, es, i). nat (int (length es) - i))") auto

declare append_remaining.simps [simp del]

lemma append_remaining_eq: "0 \<le> i \<Longrightarrow> append_remaining log es i = Some (log @ drop (nat i) es)"
proof (induction log es i rule: append_remaining.induct)
  case (1 log es i)
  show ?case
  proof (cases "i < int (length es)")
    case True
    have "nat i < length es" using True 1(2) by simp
    then have "drop (nat i) es = es ! nat i # drop (nat (i + 1)) es"
      using 1(2) by (simp add: nat_add_distrib Cons_nth_drop_Suc)
    moreover have "append_remaining (log @ [es ! nat i]) es (i + 1) =
        Some ((log @ [es ! nat i]) @ drop (nat (i + 1)) es)"
      using 1(1) [OF True vec_at_inside [OF 1(2) True]] 1(2) by simp
    ultimately show ?thesis
      using True 1(2) by (simp add: append_remaining.simps [of log es i] vec_at_inside)
  next
    case False
    then show ?thesis by (simp add: append_remaining.simps [of log es i])
  qed
qed

definition overwrite_log :: "entry list \<Rightarrow> i64_t \<Rightarrow> entry list \<Rightarrow> entry list defined" where
  "overwrite_log log startIndex es = do {
     (log', i) \<leftarrow> overwrite_scan log startIndex es 0;
     append_remaining log' es i
   }"

text \<open>
  The reference: walk the old suffix and the new entries together, keep the old entry while the
  terms agree, and take the new entries from the first disagreement on. An old suffix longer than
  the new entries survives when nothing disagrees.
\<close>

fun merge_suffix :: "entry list \<Rightarrow> entry list \<Rightarrow> entry list" where
  "merge_suffix xs [] = xs"
| "merge_suffix [] (e # es) = e # es"
| "merge_suffix (x # xs) (e # es) =
     (if e_term x \<noteq> e_term e then e # es else x # merge_suffix xs es)"

definition merge_log :: "entry list \<Rightarrow> nat \<Rightarrow> entry list \<Rightarrow> entry list" where
  "merge_log log n es = take n log @ merge_suffix (drop n log) es"

lemma overwrite_scan_merge:
  assumes "0 \<le> st" "0 \<le> i" "i \<le> int (length es)" "st + i \<le> int (length log)"
    and "int (length log) < 2 ^ 63"
  shows "\<exists>log' j. overwrite_scan log st es i = Some (log', j) \<and> 0 \<le> j \<and>
    log' @ drop (nat j) es =
      take (nat (st + i)) log @ merge_suffix (drop (nat (st + i)) log) (drop (nat i) es)"
  using assms
proof (induction log st es i rule: overwrite_scan.induct)
  case (1 log st es i)
  note small = \<open>int (length log) < 2 ^ 63\<close>
  have u: "u64 (st + i) = st + i" using 1(2-6) by (simp add: cpp_int_simps)
  show ?case
  proof (cases "st + i < int (length log) \<and> i < int (length es)")
    case False
    then have "overwrite_scan log st es i = Some (log, i)"
      using u by (subst overwrite_scan.simps) auto
    moreover have "drop (nat i) es = [] \<or> drop (nat (st + i)) log = []" using False by auto
    moreover have "merge_suffix [] ys = ys" for ys by (cases ys) auto
    moreover have "take (nat (st + i)) log = log" if "drop (nat (st + i)) log = []"
      using that by simp
    ultimately show ?thesis using 1(3) by (auto simp del: drop_eq_Nil)
  next
    case True
    have li: "nat (st + i) < length log" "nat i < length es" using True 1(2,3) by auto
    let ?e = "log ! nat (st + i)" and ?e' = "es ! nat i"
    have at: "vec_at log (u64 (st + i)) = Some ?e" "vec_at es i = Some ?e'"
      using True 1(2,3) u by (auto simp: vec_at_inside)
    have split: "drop (nat (st + i)) log = ?e # drop (nat (st + (i + 1))) log"
      "drop (nat i) es = ?e' # drop (nat (i + 1)) es"
      using li 1(2,3) by (simp_all add: nat_add_distrib Cons_nth_drop_Suc)
    show ?thesis
    proof (cases "e_term ?e = e_term ?e'")
      case False
      then have "overwrite_scan log st es i = Some (take (nat (st + i)) log, i)"
        using True u at by (simp add: overwrite_scan.simps [of log st es i] vec_erase_from_def)
      with False split 1(3) show ?thesis by simp
    next
      case eq: True
      have rec: "overwrite_scan log st es i = overwrite_scan log st es (i + 1)"
        using eq True u at by (simp add: overwrite_scan.simps [of log st es i])
      have "take (nat (st + (i + 1))) log = take (nat (st + i)) log @ [?e]"
        using li 1(2,3) by (simp add: nat_add_distrib take_Suc_conv_app_nth)
      moreover have "\<exists>log' j. overwrite_scan log st es (i + 1) = Some (log', j) \<and> 0 \<le> j \<and>
        log' @ drop (nat j) es =
        take (nat (st + (i + 1))) log @
        merge_suffix (drop (nat (st + (i + 1))) log) (drop (nat (i + 1)) es)"
        using 1(1) [OF _ at] True u eq 1(2-6) by (simp add: add.assoc)
      ultimately show ?thesis using eq rec split by auto
    qed
  qed
qed

theorem overwrite_log_merge:
  assumes "0 \<le> st" "st \<le> int (length log)" "int (length log) < 2 ^ 63"
  shows "overwrite_log log st es = Some (merge_log log (nat st) es)"
proof -
  obtain log' j where "overwrite_scan log st es 0 = Some (log', j)" "0 \<le> j"
    and "log' @ drop (nat j) es = take (nat st) log @ merge_suffix (drop (nat st) log) es"
    using overwrite_scan_merge [of st 0 es log] assms by auto
  then show ?thesis by (simp add: overwrite_log_def append_remaining_eq merge_log_def)
qed


text \<open>What the merge guarantees, independently of how it is computed.\<close>

lemma length_merge_suffix:
  "length (merge_suffix xs es) \<ge> length es"
  by (induction xs es rule: merge_suffix.induct) auto

lemma merge_suffix_terms:
  "k < length es \<Longrightarrow> e_term (merge_suffix xs es ! k) = e_term (es ! k)"
proof (induction xs es arbitrary: k rule: merge_suffix.induct)
  case (3 x xs e es)
  then show ?case by (cases k) auto
qed auto

lemma merge_suffix_same:
  assumes "\<And>k. k < length xs \<Longrightarrow> k < length es \<Longrightarrow> e_term (xs ! k) = e_term (es ! k) \<Longrightarrow> xs ! k = es ! k"
  shows "take (length es) (merge_suffix xs es) = es"
  using assms
proof (induction xs es rule: merge_suffix.induct)
  case (3 x xs e es)
  show ?case
  proof (cases "e_term x = e_term e")
    case True
    have "x = e" using 3(2) [of 0] True by simp
    moreover have "take (length es) (merge_suffix xs es) = es"
      using 3(1) [OF _] 3(2) [of "Suc _"] True by simp
    ultimately show ?thesis by simp
  qed simp
qed auto

lemma merge_suffix_keep:
  assumes "length es \<le> length xs"
    and "\<And>k. k < length es \<Longrightarrow> e_term (xs ! k) = e_term (es ! k)"
  shows "merge_suffix xs es = xs"
  using assms
proof (induction xs es rule: merge_suffix.induct)
  case (3 x xs e es)
  have "e_term x = e_term e" using 3(3) [of 0] by simp
  moreover have "merge_suffix xs es = xs"
    using 3(1) calculation 3(2) 3(3) [of "Suc _"] by simp
  ultimately show ?case by simp
qed auto

text \<open>Merging suffixes of matching logs yields one of the two.\<close>

lemma merge_suffix_either:
  assumes "\<And>k. k < length xs \<Longrightarrow> k < length es \<Longrightarrow> e_term (xs ! k) = e_term (es ! k) \<Longrightarrow>
    take (Suc k) xs = take (Suc k) es"
  shows "merge_suffix xs es = xs \<or> merge_suffix xs es = es"
  using assms
proof (induction xs es rule: merge_suffix.induct)
  case (3 x xs e es)
  show ?case
  proof (cases "e_term x = e_term e")
    case True
    have "x = e" using 3(2) [of 0] True by simp
    moreover have "merge_suffix xs es = xs \<or> merge_suffix xs es = es"
      using 3(1) 3(2) [of "Suc _"] True by simp
    ultimately show ?thesis using True by auto
  qed simp
qed auto

text \<open>Nothing is lost below the first disagreement.\<close>

lemma merge_suffix_prefix:
  assumes "n \<le> length xs" and "\<And>k. k < n \<Longrightarrow> k < length es \<Longrightarrow> e_term (xs ! k) = e_term (es ! k)"
  shows "take n (merge_suffix xs es) = take n xs"
  using assms
proof (induction xs es arbitrary: n rule: merge_suffix.induct)
  case (3 x xs e es)
  show ?case
  proof (cases n)
    case (Suc m)
    have "e_term x = e_term e" using 3(3) [of 0] Suc by simp
    moreover have "take m (merge_suffix xs es) = take m xs"
      using 3(1) calculation 3(2) 3(3) [of "Suc _"] Suc by simp
    ultimately show ?thesis using Suc by simp
  qed simp
qed auto

section \<open>The entries to send\<close>

text \<open>\<^verbatim>\<open>for (int64_t i = nextIndex[target_id] - 1; i < currentLogSize; i++)\<close>\<close>

function collect_entries :: "entry list \<Rightarrow> i64_t \<Rightarrow> i64_t \<Rightarrow> entry list \<Rightarrow> entry list defined" where
  "collect_entries log currentLogSize i acc =
     (if i < currentLogSize then do {
        e \<leftarrow> vec_at log i;
        collect_entries log currentLogSize (i + 1)
          (acc @ [\<lparr>e_term = e_term e, e_command = e_command e\<rparr>])
      } else Some acc)"
  by pat_completeness auto
termination
  by (relation "measure (\<lambda>(log, n, i, acc). nat (n - i))") auto

declare collect_entries.simps [simp del]

lemma collect_entries_eq:
  assumes "0 \<le> i" "n = int (length log)"
  shows "collect_entries log n i acc = Some (acc @ drop (nat i) log)"
  using assms
proof (induction log n i acc rule: collect_entries.induct)
  case (1 log n i acc)
  show ?case
  proof (cases "i < n")
    case True
    with 1 have "drop (nat i) log = log ! nat i # drop (nat (i + 1)) log"
      by (simp add: nat_add_distrib Cons_nth_drop_Suc)
    moreover have at: "vec_at log i = Some (log ! nat i)" using True 1(2,3) by (simp add: vec_at_inside)
    moreover have "collect_entries log n (i + 1) (acc @ [log ! nat i]) =
        Some ((acc @ [log ! nat i]) @ drop (nat (i + 1)) log)"
      using 1(1) [OF True at] 1(2,3) by simp
    ultimately show ?thesis using True by (simp add: collect_entries.simps [of log n i acc])
  next
    case False
    with 1(2,3) show ?thesis by (subst collect_entries.simps) simp
  qed
qed

lemma collect_entries_negative: "i < 0 \<Longrightarrow> i < n \<Longrightarrow> collect_entries log n i acc = None"
  by (subst collect_entries.simps) (simp add: vec_at_def)

section \<open>Binary search for the conflicting term\<close>

text \<open>\<^verbatim>\<open>while (left <= right)\<close>; the result is \<^verbatim>\<open>lastIndexWithConflictTerm\<close>.\<close>

function conflict_bsearch :: "entry list \<Rightarrow> i64_t \<Rightarrow> i64_t \<Rightarrow> i64_t \<Rightarrow> i64_t \<Rightarrow> i64_t defined" where
  "conflict_bsearch log ct left right lst =
     (if left \<le> right then
        let mid = left + (right - left) div 2 in do {
          e \<leftarrow> vec_at log mid;
          if e_term e = ct then conflict_bsearch log ct (mid + 1) right mid
          else if e_term e < ct then conflict_bsearch log ct (mid + 1) right lst
          else conflict_bsearch log ct left (mid - 1) lst
        }
      else Some lst)"
  by pat_completeness auto
termination
  by (relation "measure (\<lambda>(log, ct, left, right, lst). nat (right - left + 1))") auto

declare conflict_bsearch.simps [simp del]

abbreviation sorted_terms :: "entry list \<Rightarrow> bool" where
  "sorted_terms log \<equiv> sorted (map e_term log)"

lemma sorted_terms_nth:
  "sorted_terms log \<Longrightarrow> 0 \<le> i \<Longrightarrow> i \<le> j \<Longrightarrow> j < int (length log) \<Longrightarrow>
   e_term (log ! nat i) \<le> e_term (log ! nat j)"
  using sorted_nth_mono [of "map e_term log" "nat i" "nat j"] by (simp add: nat_less_iff)

text \<open>
  \<open>last_in_range\<close>: \<open>r\<close> is the greatest index of \<open>[left, right]\<close> that holds the term, or the
  initial value when there is none.
\<close>

definition last_in_range :: "entry list \<Rightarrow> i64_t \<Rightarrow> i64_t \<Rightarrow> i64_t \<Rightarrow> i64_t \<Rightarrow> i64_t \<Rightarrow> bool" where
  "last_in_range log ct left right lst r \<longleftrightarrow>
     (r = lst \<and> (\<forall>k. left \<le> k \<and> k \<le> right \<longrightarrow> e_term (log ! nat k) \<noteq> ct)) \<or>
     (left \<le> r \<and> r \<le> right \<and> e_term (log ! nat r) = ct \<and>
       (\<forall>k. r < k \<and> k \<le> right \<longrightarrow> e_term (log ! nat k) \<noteq> ct))"

lemma last_in_range_extend:
  assumes "last_in_range log ct l r lst x" "l' \<le> l" "r \<le> r'"
    and "\<And>k. l' \<le> k \<Longrightarrow> k < l \<Longrightarrow> e_term (log ! nat k) \<noteq> ct"
    and "\<And>k. r < k \<Longrightarrow> k \<le> r' \<Longrightarrow> e_term (log ! nat k) \<noteq> ct"
  shows "last_in_range log ct l' r' lst x"
proof -
  have out: "e_term (log ! nat k) \<noteq> ct" if "l' \<le> k" "k \<le> r'" "\<not> (l \<le> k \<and> k \<le> r)" for k
    using assms(4) [of k] assms(5) [of k] that by linarith
  from assms(1) consider
      (none) "x = lst" "\<And>k. l \<le> k \<Longrightarrow> k \<le> r \<Longrightarrow> e_term (log ! nat k) \<noteq> ct"
    | (some) "l \<le> x" "x \<le> r" "e_term (log ! nat x) = ct"
        "\<And>k. x < k \<Longrightarrow> k \<le> r \<Longrightarrow> e_term (log ! nat k) \<noteq> ct"
    unfolding last_in_range_def by blast
  then show ?thesis
  proof cases
    case none
    then have "e_term (log ! nat k) \<noteq> ct" if "l' \<le> k" "k \<le> r'" for k
      using out [OF that] by blast
    with none(1) show ?thesis by (simp add: last_in_range_def)
  next
    case some
    then have "e_term (log ! nat k) \<noteq> ct" if "x < k" "k \<le> r'" for k
      using assms(5) [of k] that by (cases "k \<le> r") auto
    with some(1-3) assms(2,3) show ?thesis by (simp add: last_in_range_def)
  qed
qed

theorem conflict_bsearch_correct:
  assumes "sorted_terms log" "0 \<le> left" "right < int (length log)"
  shows "\<exists>r. conflict_bsearch log ct left right lst = Some r \<and> last_in_range log ct left right lst r"
  using assms
proof (induction log ct left right lst rule: conflict_bsearch.induct)
  case (1 log ct left right lst)
  note IH = 1(1-3) and sorted = 1(4) and bounds = 1(5,6)
  show ?case
  proof (cases "left \<le> right")
    case False
    then show ?thesis
      by (subst conflict_bsearch.simps) (auto simp: last_in_range_def)
  next
    case True
    define mid where "mid = left + (right - left) div 2"
    have mid: "left \<le> mid" "mid \<le> right" using True by (auto simp: mid_def)
    have at: "vec_at log mid = Some (log ! nat mid)" using mid bounds by (simp add: vec_at_inside)
    note mono = sorted_terms_nth [OF sorted]
    consider (eq) "e_term (log ! nat mid) = ct" | (lt) "e_term (log ! nat mid) < ct"
      | (gt) "e_term (log ! nat mid) > ct" by linarith
    then show ?thesis
    proof cases
      case eq
      have "conflict_bsearch log ct left right lst = conflict_bsearch log ct (mid + 1) right mid"
        using True at eq by (simp add: conflict_bsearch.simps [of log ct left right lst] mid_def [symmetric])
      moreover obtain r where "conflict_bsearch log ct (mid + 1) right mid = Some r"
        "last_in_range log ct (mid + 1) right mid r"
        using IH(1) [OF True mid_def at eq sorted] mid bounds by auto
      ultimately show ?thesis using eq mid by (auto simp: last_in_range_def)
    next
      case lt
      have "conflict_bsearch log ct left right lst = conflict_bsearch log ct (mid + 1) right lst"
        using True at lt by (simp add: conflict_bsearch.simps [of log ct left right lst] mid_def [symmetric])
      moreover obtain r where "conflict_bsearch log ct (mid + 1) right lst = Some r"
        "last_in_range log ct (mid + 1) right lst r"
        using IH(2) [OF True mid_def at _ lt sorted] lt mid bounds by auto
      moreover have "e_term (log ! nat k) \<noteq> ct" if "left \<le> k" "k \<le> mid" for k
        using mono [of k mid] that lt mid bounds by simp
      ultimately show ?thesis using mid last_in_range_extend [of log ct "mid + 1" right lst _ left right] by auto
    next
      case gt
      have "conflict_bsearch log ct left right lst = conflict_bsearch log ct left (mid - 1) lst"
        using True at gt by (simp add: conflict_bsearch.simps [of log ct left right lst] mid_def [symmetric])
      moreover obtain r where "conflict_bsearch log ct left (mid - 1) lst = Some r"
        "last_in_range log ct left (mid - 1) lst r"
        using IH(3) [OF True mid_def at] gt sorted mid bounds by auto
      moreover have "e_term (log ! nat k) \<noteq> ct" if "mid \<le> k" "k \<le> right" for k
        using mono [of mid k] that gt mid bounds by simp
      ultimately show ?thesis using mid last_in_range_extend [of log ct left "mid - 1" lst _ left right] by auto
    qed
  qed
qed

lemma conflict_bsearch_range:
  assumes "0 \<le> left" "right < int (length log)"
  shows "\<exists>r. conflict_bsearch log ct left right lst = Some r \<and>
    (r = lst \<or> left \<le> r \<and> r \<le> right \<and> e_term (log ! nat r) = ct)"
  using assms
proof (induction log ct left right lst rule: conflict_bsearch.induct)
  case (1 log ct left right lst)
  show ?case
  proof (cases "left \<le> right")
    case False
    then show ?thesis by (subst conflict_bsearch.simps) auto
  next
    case True
    define mid where "mid = left + (right - left) div 2"
    have mid: "left \<le> mid" "mid \<le> right" using True by (auto simp: mid_def)
    have at: "vec_at log mid = Some (log ! nat mid)" using mid 1(4,5) by (simp add: vec_at_inside)
    note unf = conflict_bsearch.simps [of log ct left right lst, folded mid_def]
    consider (eq) "e_term (log ! nat mid) = ct" | (lt) "e_term (log ! nat mid) < ct"
      | (gt) "e_term (log ! nat mid) > ct" by linarith
    then show ?thesis
    proof cases
      case eq
      obtain r where "conflict_bsearch log ct (mid + 1) right mid = Some r"
        "r = mid \<or> mid + 1 \<le> r \<and> r \<le> right \<and> e_term (log ! nat r) = ct"
        using 1(1) [OF True mid_def at eq] 1(4,5) mid by auto
      with eq True at mid show ?thesis by (auto simp: unf Let_def)
    next
      case lt
      obtain r where "conflict_bsearch log ct (mid + 1) right lst = Some r"
        "r = lst \<or> mid + 1 \<le> r \<and> r \<le> right \<and> e_term (log ! nat r) = ct"
        using 1(2) [OF True mid_def at _ lt] lt 1(4,5) mid by auto
      with lt True at mid show ?thesis by (auto simp: unf Let_def)
    next
      case gt
      obtain r where "conflict_bsearch log ct left (mid - 1) lst = Some r"
        "r = lst \<or> left \<le> r \<and> r \<le> mid - 1 \<and> e_term (log ! nat r) = ct"
        using 1(3) [OF True mid_def at] gt 1(4,5) mid by auto
      with gt True at mid show ?thesis by (auto simp: unf Let_def)
    qed
  qed
qed

section \<open>The highest index a majority holds\<close>

text \<open>\<^verbatim>\<open>count\<close>: the leader itself and every peer whose \<^verbatim>\<open>matchIndex\<close> reaches \<open>N\<close>.\<close>

definition count_match :: "u64_t list \<Rightarrow> (i64_t \<rightharpoonup> i64_t) \<Rightarrow> i64_t \<Rightarrow> i64_t" where
  "count_match ps m n = fold (\<lambda>p c. if map_get m (i64 p) \<ge> n then c + 1 else c) ps 1"

text \<open>\<^verbatim>\<open>for (int64_t N = maxIndex; N > commitIndex; N--)\<close>\<close>

function commit_scan ::
  "entry list \<Rightarrow> i64_t \<Rightarrow> u64_t list \<Rightarrow> (i64_t \<rightharpoonup> i64_t) \<Rightarrow> i64_t \<Rightarrow> i64_t \<Rightarrow> i64_t \<Rightarrow> i64_t defined"
where
  "commit_scan log ct ps m ci newCommitIndex n =
     (if n > ci then do {
        e \<leftarrow> vec_at log (n - 1);
        if e_term e = ct \<and> u64 (count_match ps m n) > (int (length ps) + 1) div 2 then Some n
        else commit_scan log ct ps m ci newCommitIndex (n - 1)
      } else Some newCommitIndex)"
  by pat_completeness auto
termination
  by (relation "measure (\<lambda>(log, ct, ps, m, ci, nci, n). nat (n - ci))") auto

declare commit_scan.simps [simp del]

lemma count_match_fold:
  "fold (\<lambda>p c. if map_get m (i64 p) \<ge> n then c + 1 else c) ps c =
   c + int (length (filter (\<lambda>p. n \<le> map_get m (i64 p)) ps))"
  by (induction ps arbitrary: c) auto

lemma count_match_eq:
  "count_match ps m n = 1 + int (length (filter (\<lambda>p. n \<le> map_get m (i64 p)) ps))"
  by (simp add: count_match_def count_match_fold)

lemma u64_count_match:
  assumes "int (length ps) < 2 ^ 63"
  shows "u64 (count_match ps m n) = count_match ps m n"
proof -
  have "int (length (filter (\<lambda>p. n \<le> map_get m (i64 p)) ps)) \<le> int (length ps)" by simp
  moreover have "(2 :: int) ^ 63 + 1 \<le> 2 ^ 64" by simp
  ultimately have "count_match ps m n < 2 ^ 64" using assms unfolding count_match_eq by linarith
  then show ?thesis by (intro u64_id) (auto simp: count_match_eq)
qed

text \<open>An index that can be committed: the current term, held by a strict majority.\<close>

definition committable ::
  "entry list \<Rightarrow> i64_t \<Rightarrow> u64_t list \<Rightarrow> (i64_t \<rightharpoonup> i64_t) \<Rightarrow> i64_t \<Rightarrow> bool" where
  "committable log ct ps m n \<longleftrightarrow>
     e_term (log ! nat (n - 1)) = ct \<and> 2 * count_match ps m n > int (length ps) + 1"

lemma commit_scan_correct:
  assumes "0 \<le> ci" "n \<le> int (length log)" "int (length ps) < 2 ^ 63"
  shows "\<exists>r. commit_scan log ct ps m ci nci n = Some r \<and>
    (r = nci \<and> (\<forall>k. ci < k \<and> k \<le> n \<longrightarrow> \<not> committable log ct ps m k) \<or>
     ci < r \<and> r \<le> n \<and> committable log ct ps m r \<and>
       (\<forall>k. r < k \<and> k \<le> n \<longrightarrow> \<not> committable log ct ps m k))"
  using assms
proof (induction log ct ps m ci nci n rule: commit_scan.induct)
  case (1 log ct ps m ci nci n)
  show ?case
  proof (cases "n > ci")
    case False
    then show ?thesis by (subst commit_scan.simps) auto
  next
    case True
    have at: "vec_at log (n - 1) = Some (log ! nat (n - 1))"
      using 1(2,3) True by (simp add: vec_at_inside)
    have test: "e_term (log ! nat (n - 1)) = ct \<and>
        u64 (count_match ps m n) > (int (length ps) + 1) div 2 \<longleftrightarrow> committable log ct ps m n"
      using u64_count_match [OF 1(4)] by (auto simp: committable_def)
    show ?thesis
    proof (cases "committable log ct ps m n")
      case c: True
      then have "commit_scan log ct ps m ci nci n = Some n"
        using True at test by (subst commit_scan.simps) simp
      with True c show ?thesis by auto
    next
      case c: False
      then have "commit_scan log ct ps m ci nci n = commit_scan log ct ps m ci nci (n - 1)"
        using True at test by (subst commit_scan.simps) auto
      moreover obtain r where r: "commit_scan log ct ps m ci nci (n - 1) = Some r"
        "r = nci \<and> (\<forall>k. ci < k \<and> k \<le> n - 1 \<longrightarrow> \<not> committable log ct ps m k) \<or>
         ci < r \<and> r \<le> n - 1 \<and> committable log ct ps m r \<and>
         (\<forall>k. r < k \<and> k \<le> n - 1 \<longrightarrow> \<not> committable log ct ps m k)"
        using 1(1) [OF True at] c test 1(2-4) by auto
      moreover have "k = n \<or> k \<le> n - 1" if "k \<le> n" for k using that by linarith
      ultimately show ?thesis using c by fastforce
    qed
  qed
qed

end
