(* ===== verification/RaftNode.thy ===== *)
theory RaftNode
  imports RaftLog
begin

text \<open>
  Class \<^verbatim>\<open>Raft\<close>: the member functions of \<^verbatim>\<open>src/raft.cpp\<close> and
  \<^verbatim>\<open>inc/rafty/impl/raft.ipp\<close>, in the order of the source, as operations on the record
  \<open>raft\<close>. A function that takes the mutex is one operation; a thread that releases it
  around an RPC is two, one that builds the request and one that handles the reply. Log messages
  and the \<^verbatim>\<open>try\<close>/\<^verbatim>\<open>catch\<close> blocks around allocation failures are left out;
  the exception \<^verbatim>\<open>apply_entries\<close> raises itself is a branch.
\<close>

section \<open>Construction, timers and roles\<close>

text \<open>
  The constructor leaves \<^verbatim>\<open>currentRole\<close> uninitialised: \<open>r\<close> is whatever the memory holds
  until \<^verbatim>\<open>run\<close> assigns it.
\<close>

definition Raft_new :: "config \<Rightarrow> role \<Rightarrow> raft" where
  "Raft_new cfg r =
     \<lparr>rid = cfg_id cfg, listening_addr = cfg_addr cfg, peer_addrs = cfg_peer_addrs cfg,
      dead = False, ready_queue = [], peers = [], server_running = False,
      currentTerm = 0, votedFor = -1, rlog = [], lastApplied = 0, commitIndex = 0,
      nextIndex = Map.empty, matchIndex = Map.empty, replyCounter = Map.empty,
      currentRole = r, votes = {}, active = False, timerCounter = 0,
      proposal_cvs = [], next_cv = 0, threads = []\<rparr>"

text \<open>
  \<^verbatim>\<open>start_timer\<close> after \<^verbatim>\<open>cv.wait_for\<close> returns: with the predicate true the timer was
  reset or the node is dead; with the predicate false the delay has passed.
\<close>

definition start_timer :: "64 word \<Rightarrow> int \<Rightarrow> int \<Rightarrow> raft \<Rightarrow> raft" where
  "start_timer currentCounter delayInMilliseconds mode s =
     (if dead s \<or> timerCounter s \<noteq> currentCounter then s
      else if currentRole s = Follower \<or> currentRole s = Candidate then spawn TBecomeCandidate s
      else spawn TSendEntries s)"

text \<open>\<open>timer\<close> is the draw of \<^verbatim>\<open>uniform_int_distribution<>(150, 500)\<close>.\<close>

definition election_delay :: "int \<Rightarrow> bool" where
  "election_delay timer \<longleftrightarrow> 150 \<le> timer \<and> timer \<le> 500"

definition start_election_timer :: "int \<Rightarrow> raft \<Rightarrow> raft" where
  "start_election_timer timer s =
     (let s1 = s\<lparr>timerCounter := timerCounter s + 1\<rparr>; currentCounter = timerCounter s1
      in spawn (TTimer currentCounter timer 0) s1)"

definition start_heartbeat_timer :: "raft \<Rightarrow> raft" where
  "start_heartbeat_timer s =
     (let s1 = s\<lparr>timerCounter := timerCounter s + 1\<rparr>; currentCounter = timerCounter s1
      in spawn (TTimer currentCounter broadcastTimeout 1) s1)"

definition become_follower :: "int \<Rightarrow> raft \<Rightarrow> raft" where
  "become_follower timer s = start_election_timer timer s"

definition run :: "int \<Rightarrow> raft \<Rightarrow> raft" where
  "run timer s = become_follower timer (s\<lparr>active := True, currentRole := Follower\<rparr>)"

text \<open>
  The critical section of \<^verbatim>\<open>become_candidate\<close>, the detached \<^verbatim>\<open>start_election_timer\<close>,
  and the call \<^verbatim>\<open>request_votes(currentTerm)\<close> that the same thread makes after releasing
  the mutex.
\<close>

definition become_candidate :: "raft \<Rightarrow> raft" where
  "become_candidate s =
     (let s1 = s\<lparr>currentRole := Candidate, currentTerm := currentTerm s + 1,
                 votedFor := i64 (rid s), votes := {i64 (rid s)}\<rparr>
      in spawn TRequestVotes (spawn TStartElectionTimer s1))"

section \<open>Pending synchronous proposals\<close>

text \<open>\<^verbatim>\<open>cv.notify_one()\<close>: the thread that waits on this condition variable may run.\<close>

fun wake :: "nat \<Rightarrow> thread \<Rightarrow> thread" where
  "wake cv (TSyncWait c i res awake) = TSyncWait c i res (awake \<or> c = cv)"
| "wake cv t = t"

definition notify_one :: "nat \<Rightarrow> raft \<Rightarrow> raft" where
  "notify_one cv s = s\<lparr>threads := map (wake cv) (threads s)\<rparr>"

definition cvs_put :: "i64_t \<Rightarrow> nat \<Rightarrow> (i64_t \<times> nat) list \<Rightarrow> (i64_t \<times> nat) list" where
  "cvs_put i cv m = (i, cv) # filter (\<lambda>p. fst p \<noteq> i) m"

definition cvs_erase :: "i64_t \<Rightarrow> (i64_t \<times> nat) list \<Rightarrow> (i64_t \<times> nat) list" where
  "cvs_erase i m = filter (\<lambda>p. fst p \<noteq> i) m"

definition handle_pending_sync_props :: "raft \<Rightarrow> raft" where
  "handle_pending_sync_props s =
     (if proposal_cvs s = [] then s
      else (fold (\<lambda>kv. notify_one (snd kv)) (proposal_cvs s) s)\<lparr>proposal_cvs := []\<rparr>)"

section \<open>Leadership and elections\<close>

definition become_leader :: "raft \<Rightarrow> raft" where
  "become_leader s =
     (let s1 = s\<lparr>currentRole := Leader, nextIndex := Map.empty, matchIndex := Map.empty,
                 replyCounter := Map.empty\<rparr>;
          s2 = fold (\<lambda>target u. u\<lparr>nextIndex := (nextIndex u)(i64 target \<mapsto> log_size u + 1),
                                  matchIndex := (matchIndex u)(i64 target \<mapsto> 0),
                                  replyCounter := (replyCounter u)(i64 target \<mapsto> 0)\<rparr>) (peers s1) s1
      in spawn TStartHeartbeatTimer s2)"

definition request_votes :: "i64_t \<Rightarrow> raft \<Rightarrow> raft" where
  "request_votes election_term s = spawn_all (map (\<lambda>t. TVoteSend t election_term) (peers s)) s"

definition build_vote_request :: "raft \<Rightarrow> request_vote_request" where
  "build_vote_request s =
     \<lparr>rv_term = currentTerm s, rv_candidate_id = i64 (rid s),
      rv_last_log_index = last_log_index (rlog s), rv_last_log_term = last_log_term (rlog s)\<rparr>"

text \<open>Adopting a higher term found in a message, and stepping down.\<close>

definition step_down :: "i64_t \<Rightarrow> raft \<Rightarrow> raft" where
  "step_down t s =
     (let s1 = s\<lparr>currentTerm := t, votedFor := -1\<rparr>;
          s2 = (if currentRole s1 = Leader then handle_pending_sync_props s1 else s1)
      in spawn TStartElectionTimer (s2\<lparr>currentRole := Follower\<rparr>))"

definition handle_vote_reply :: "u64_t \<Rightarrow> i64_t \<Rightarrow> request_vote_reply \<Rightarrow> raft \<Rightarrow> raft" where
  "handle_vote_reply target election_term reply s =
     (let s1 = (if \<not> rvr_vote_granted reply then
                  if rvr_term reply > currentTerm s then step_down (rvr_term reply) s else s
                else s)
      in if currentTerm s1 = election_term \<and> currentRole s1 = Candidate then
           if rvr_vote_granted reply then
             let s2 = s1\<lparr>votes := insert (i64 target) (votes s1)\<rparr>
             in if card (votes s2) > length (peers s2) div 2 then become_leader s2 else s2
           else s1
         else s1)"

definition reply_vote :: "request_vote_request \<Rightarrow> raft \<Rightarrow> raft \<times> request_vote_reply" where
  "reply_vote request s =
     (if \<not> active s then (s, empty_vote_reply)
      else if rv_term request < currentTerm s then
        (s, \<lparr>rvr_term = currentTerm s, rvr_vote_granted = False\<rparr>)
      else
        let flag = \<not> rv_term request > currentTerm s;
            s1 = (if rv_term request > currentTerm s then step_down (rv_term request) s else s);
            denied = \<lparr>rvr_term = currentTerm s1, rvr_vote_granted = False\<rparr>
        in if votedFor s1 \<noteq> -1 \<and> votedFor s1 \<noteq> rv_candidate_id request then (s1, denied)
           else if candidate_up_to_date (rv_last_log_term request) (rv_last_log_index request) (rlog s1)
           then
             let s2 = s1\<lparr>votedFor := rv_candidate_id request\<rparr>;
                 s3 = (if currentRole s2 = Leader then handle_pending_sync_props s2 else s2);
                 s4 = s3\<lparr>currentRole := Follower\<rparr>;
                 s5 = (if flag then spawn TStartElectionTimer s4 else s4)
             in (s5, \<lparr>rvr_term = currentTerm s1, rvr_vote_granted = True\<rparr>)
           else (s1, denied))"

section \<open>Applying committed entries\<close>

definition apply_enqueue :: "apply_result \<Rightarrow> raft \<Rightarrow> raft" where
  "apply_enqueue result s = s\<lparr>ready_queue := ready_queue s @ [result]\<rparr>"

definition apply_one :: "i64_t \<Rightarrow> entry \<Rightarrow> raft \<Rightarrow> raft" where
  "apply_one i e s =
     (let s1 = apply_enqueue \<lparr>ar_valid = True, ar_data = e_command e, ar_index = u64 i\<rparr> s;
          s2 = s1\<lparr>lastApplied := lastApplied s1 + 1\<rparr>
      in case map_of (proposal_cvs s2) i of None \<Rightarrow> s2 | Some cv \<Rightarrow> notify_one cv s2)"

lemma notify_one_simps [simp]:
  "rid (notify_one cv s) = rid s" "listening_addr (notify_one cv s) = listening_addr s"
  "peer_addrs (notify_one cv s) = peer_addrs s" "dead (notify_one cv s) = dead s"
  "ready_queue (notify_one cv s) = ready_queue s" "peers (notify_one cv s) = peers s"
  "server_running (notify_one cv s) = server_running s" "currentTerm (notify_one cv s) = currentTerm s"
  "votedFor (notify_one cv s) = votedFor s" "rlog (notify_one cv s) = rlog s"
  "lastApplied (notify_one cv s) = lastApplied s" "commitIndex (notify_one cv s) = commitIndex s"
  "nextIndex (notify_one cv s) = nextIndex s" "matchIndex (notify_one cv s) = matchIndex s"
  "replyCounter (notify_one cv s) = replyCounter s" "currentRole (notify_one cv s) = currentRole s"
  "votes (notify_one cv s) = votes s" "active (notify_one cv s) = active s"
  "timerCounter (notify_one cv s) = timerCounter s" "proposal_cvs (notify_one cv s) = proposal_cvs s"
  "next_cv (notify_one cv s) = next_cv s" "threads (notify_one cv s) = map (wake cv) (threads s)"
  by (simp_all add: notify_one_def)

lemma apply_one_simps [simp]:
  "rid (apply_one i e s) = rid s" "peers (apply_one i e s) = peers s"
  "listening_addr (apply_one i e s) = listening_addr s" "dead (apply_one i e s) = dead s"
  "server_running (apply_one i e s) = server_running s" "timerCounter (apply_one i e s) = timerCounter s"
  "next_cv (apply_one i e s) = next_cv s"
  "peer_addrs (apply_one i e s) = peer_addrs s" "currentTerm (apply_one i e s) = currentTerm s"
  "votedFor (apply_one i e s) = votedFor s" "rlog (apply_one i e s) = rlog s"
  "commitIndex (apply_one i e s) = commitIndex s" "currentRole (apply_one i e s) = currentRole s"
  "votes (apply_one i e s) = votes s" "active (apply_one i e s) = active s"
  "nextIndex (apply_one i e s) = nextIndex s" "matchIndex (apply_one i e s) = matchIndex s"
  "replyCounter (apply_one i e s) = replyCounter s"
  "proposal_cvs (apply_one i e s) = proposal_cvs s"
  "lastApplied (apply_one i e s) = lastApplied s + 1"
  "ready_queue (apply_one i e s) =
     ready_queue s @ [\<lparr>ar_valid = True, ar_data = e_command e, ar_index = u64 i\<rparr>]"
  by (simp_all add: apply_one_def apply_enqueue_def Let_def split: option.split)

text \<open>\<^verbatim>\<open>for (int64_t i = lastApplied + 1; i <= commitIndex; i++)\<close>\<close>

function apply_loop :: "i64_t \<Rightarrow> raft \<Rightarrow> raft defined" where
  "apply_loop i s =
     (if i \<le> commitIndex s then do {
        e \<leftarrow> vec_at (rlog s) (i - 1);
        apply_loop (i + 1) (apply_one i e s)
      } else Some s)"
  by pat_completeness auto
termination
  by (relation "measure (\<lambda>(i, s). nat (commitIndex s + 1 - i))") auto

declare apply_loop.simps [simp del]

text \<open>
  The exception for a commit index beyond the log is raised and caught inside the function: the
  state is unchanged.
\<close>

definition apply_entries :: "raft \<Rightarrow> raft defined" where
  "apply_entries s =
     (if u64 (commitIndex s) > log_size s then Some s
      else if lastApplied s < commitIndex s then apply_loop (lastApplied s + 1) s
      else Some s)"

section \<open>Replication: the leader's side\<close>

definition send_entries :: "raft \<Rightarrow> raft" where
  "send_entries s = spawn TStartHeartbeatTimer (spawn_all (map TAppendSend (peers s)) s)"

definition build_append_request ::
  "u64_t \<Rightarrow> raft \<Rightarrow> (append_entries_request \<times> send_ctx) defined" where
  "build_append_request target s = do {
     let ni = map_get (nextIndex s) (i64 target);
     prev_term \<leftarrow> (if ni > 1 then map_option e_term (vec_at (rlog s) (ni - 2)) else Some 0);
     let currentLogSize = log_size s;
     es \<leftarrow> collect_entries (rlog s) currentLogSize (ni - 1) [];
     Some (\<lparr>ae_term = currentTerm s, ae_leader_id = i64 (rid s),
            ae_prev_log_index = (if ni > 1 then ni - 1 else 0), ae_prev_log_term = prev_term,
            ae_entries = es, ae_leader_commit = commitIndex s\<rparr>,
           \<lparr>sc_log_size = currentLogSize,
            sc_reply_counter = map_get (replyCounter s) (i64 target) + 1,
            sc_next_index = ni, sc_match_index = map_get (matchIndex s) (i64 target)\<rparr>)
   }"

text \<open>A rejected request: move \<^verbatim>\<open>nextIndex\<close> back.\<close>

definition backtrack :: "u64_t \<Rightarrow> send_ctx \<Rightarrow> append_entries_reply \<Rightarrow> raft \<Rightarrow> raft defined" where
  "backtrack target ctx reply s =
     (let k = i64 target; ni = map_get (nextIndex s) k; mi = map_get (matchIndex s) k
      in case aer_conflict_info reply of
           Some info \<Rightarrow> do {
             let left = max 0 mi;
             let right = min (sc_log_size ctx - 1) (ni - 2);
             lst \<leftarrow> conflict_bsearch (rlog s) (conflict_term info) left right (-1);
             Some (s\<lparr>nextIndex := (nextIndex s)(k \<mapsto>
                      (if lst \<noteq> -1 then lst + 2 else conflict_index info))\<rparr>)
           }
         | None \<Rightarrow>
             Some (if ni > mi + 1 then s\<lparr>nextIndex := (nextIndex s)(k \<mapsto> ni - 1)\<rparr> else s))"

text \<open>An accepted request: record the match and try to advance \<^verbatim>\<open>commitIndex\<close>.\<close>

definition advance_commit ::
  "u64_t \<Rightarrow> append_entries_request \<Rightarrow> send_ctx \<Rightarrow> raft \<Rightarrow> raft defined" where
  "advance_commit target req ctx s = do {
     let k = i64 target;
     let lastLogIndexSent = sc_next_index ctx + int (length (ae_entries req)) - 1;
     let s1 = s\<lparr>matchIndex := (matchIndex s)(k \<mapsto> lastLogIndexSent),
                nextIndex := (nextIndex s)(k \<mapsto> lastLogIndexSent + 1)\<rparr>;
     newCommitIndex \<leftarrow> commit_scan (rlog s1) (currentTerm s1) (peers s1) (matchIndex s1)
                         (commitIndex s1) (commitIndex s1) lastLogIndexSent;
     if newCommitIndex > commitIndex s1 then apply_entries (s1\<lparr>commitIndex := newCommitIndex\<rparr>)
     else Some s1
   }"

definition handle_append_reply ::
  "u64_t \<Rightarrow> append_entries_request \<Rightarrow> send_ctx \<Rightarrow> append_entries_reply \<Rightarrow> raft \<Rightarrow> raft defined" where
  "handle_append_reply target req ctx reply s =
     (let k = i64 target in
      if sc_reply_counter ctx < map_get (replyCounter s) k then Some s
      else
        let s1 = s\<lparr>replyCounter := (replyCounter s)(k \<mapsto> sc_reply_counter ctx)\<rparr>
        in if aer_term reply > currentTerm s1 then Some (step_down (aer_term reply) s1)
           else if \<not> aer_success reply then
             if currentRole s1 \<noteq> Leader \<or> ae_term req \<noteq> currentTerm s1 then Some s1
             else if sc_next_index ctx \<noteq> map_get (nextIndex s1) k \<or>
                     sc_match_index ctx \<noteq> map_get (matchIndex s1) k then Some s1
             else backtrack target ctx reply s1
           else
             if currentRole s1 \<noteq> Leader \<or> ae_term req \<noteq> currentTerm s1 then Some s1
             else advance_commit target req ctx s1)"

section \<open>Replication: the follower's side\<close>

text \<open>The consistency check on the entry before the new ones; \<open>True\<close> is a mismatch.\<close>

definition prev_mismatch :: "append_entries_request \<Rightarrow> entry list \<Rightarrow> bool defined" where
  "prev_mismatch request log =
     (if ae_prev_log_index request > 0 then
        if u64 (ae_prev_log_index request - 1) < int (length log) then
          map_option (\<lambda>e. e_term e \<noteq> ae_prev_log_term request)
            (vec_at log (u64 (ae_prev_log_index request - 1)))
        else Some True
      else Some False)"

definition make_conflict_info :: "append_entries_request \<Rightarrow> entry list \<Rightarrow> conflict_info defined" where
  "make_conflict_info request log =
     (if u64 (ae_prev_log_index request - 1) \<ge> int (length log) then
        Some \<lparr>conflict_term = 0, conflict_index = int (length log) + 1\<rparr>
      else do {
        e \<leftarrow> vec_at log (u64 (ae_prev_log_index request - 1));
        ci \<leftarrow> conflict_scan log (e_term e) (ae_prev_log_index request) (ae_prev_log_index request - 1);
        Some \<lparr>conflict_term = e_term e, conflict_index = ci\<rparr>
      })"

text \<open>Recognising the leader: adopt the term, step down, restart the election timer.\<close>

definition accept_leader :: "append_entries_request \<Rightarrow> raft \<Rightarrow> raft" where
  "accept_leader request s =
     (let s1 = (if ae_term request > currentTerm s
                then s\<lparr>currentTerm := ae_term request, votedFor := -1\<rparr> else s);
          s2 = (if currentRole s1 = Leader then handle_pending_sync_props s1 else s1)
      in spawn TStartElectionTimer (s2\<lparr>currentRole := Follower\<rparr>))"

definition append_entries ::
  "append_entries_request \<Rightarrow> raft \<Rightarrow> (raft \<times> append_entries_reply) defined" where
  "append_entries request s =
     (if \<not> active s then Some (s, empty_append_reply)
      else if ae_term request < currentTerm s then
        Some (s, \<lparr>aer_term = currentTerm s, aer_success = False, aer_conflict_info = None\<rparr>)
      else do {
        let s1 = accept_leader request s;
        mismatch \<leftarrow> prev_mismatch request (rlog s1);
        if mismatch then do {
          info \<leftarrow> make_conflict_info request (rlog s1);
          Some (s1, \<lparr>aer_term = currentTerm s1, aer_success = False, aer_conflict_info = Some info\<rparr>)
        } else do {
          let reply = \<lparr>aer_term = currentTerm s1, aer_success = True, aer_conflict_info = None\<rparr>;
          log' \<leftarrow> (if ae_entries request \<noteq> []
                   then overwrite_log (rlog s1) (ae_prev_log_index request) (ae_entries request)
                   else Some (rlog s1));
          let s2 = s1\<lparr>rlog := log'\<rparr>;
          if ae_leader_commit request > commitIndex s2 then do {
            s3 \<leftarrow> apply_entries (s2\<lparr>commitIndex := min (ae_leader_commit request) (log_size s2)\<rparr>);
            Some (s3, reply)
          } else Some (s2, reply)
        }
      })"

section \<open>The client interface\<close>

text \<open>
  \<^verbatim>\<open>get_state\<close> does not take the mutex. It reads the term and then the role, and critical sections may run before,
  between and after the reads, or be under way: \<open>s\<close> is the state of the node whose term it reads and \<open>s'\<close> the one
  whose role it reads. A critical section changes either member at most once, so a read during a section sees a
  value from before or after it; \<open>s\<close> may be an earlier state than \<open>s'\<close> or a later one.
\<close>

definition get_state :: "raft \<Rightarrow> raft \<Rightarrow> node_state" where
  "get_state s s' = \<lparr>st_term = u64 (currentTerm s), st_is_leader = (currentRole s' = Leader)\<rparr>"

definition not_leader_result :: proposal_result where
  "not_leader_result = \<lparr>pr_index = None, pr_term = None, pr_is_leader = False\<rparr>"

text \<open>Appending a proposal to the leader's log; shared by both propose functions.\<close>

definition push_proposal :: "string \<Rightarrow> raft \<Rightarrow> raft \<times> proposal_result" where
  "push_proposal data s =
     (let s1 = s\<lparr>rlog := rlog s @ [\<lparr>e_term = currentTerm s, e_command = data\<rparr>]\<rparr>
      in (s1, \<lparr>pr_index = Some (log_size s1), pr_term = Some (u64 (currentTerm s)),
               pr_is_leader = True\<rparr>))"

definition propose :: "string \<Rightarrow> raft \<Rightarrow> raft \<times> proposal_result" where
  "propose data s =
     (if currentRole s = Leader then push_proposal data s else (s, not_leader_result))"

text \<open>The predicate of \<^verbatim>\<open>proposal_cv->wait\<close>, and what follows the wait.\<close>

definition sync_ready :: "i64_t \<Rightarrow> raft \<Rightarrow> bool" where
  "sync_ready proposalIndex s \<longleftrightarrow> commitIndex s \<ge> proposalIndex \<or> currentRole s \<noteq> Leader"

definition sync_finish :: "i64_t \<Rightarrow> proposal_result \<Rightarrow> raft \<Rightarrow> raft \<times> proposal_result" where
  "sync_finish proposalIndex res s =
     (let s1 = s\<lparr>proposal_cvs := cvs_erase proposalIndex (proposal_cvs s)\<rparr>
      in if commitIndex s1 \<ge> proposalIndex then (s1, res)
         else (s1, res\<lparr>pr_is_leader := False\<rparr>))"

text \<open>
  \<^verbatim>\<open>propose_sync\<close> up to the point where it returns (second component \<open>Some\<close>) or sleeps on
  its condition variable (\<open>None\<close>).
\<close>

definition propose_sync :: "string \<Rightarrow> raft \<Rightarrow> raft \<times> proposal_result option" where
  "propose_sync data s =
     (if currentRole s = Leader then
        let (s1, res) = push_proposal data s;
            proposalIndex = log_size s1;
            cv = next_cv s1;
            s2 = s1\<lparr>next_cv := cv + 1, proposal_cvs := cvs_put proposalIndex cv (proposal_cvs s1)\<rparr>
        in if sync_ready proposalIndex s2
           then (case sync_finish proposalIndex res s2 of (s3, r) \<Rightarrow> (s3, Some r))
           else (spawn (TSyncWait cv proposalIndex res False) s2, None)
      else (s, Some not_leader_result))"

text \<open>A sleeping \<^verbatim>\<open>propose_sync\<close> that gets the mutex back: it returns, or sleeps again.\<close>

definition sync_wakeup :: "nat \<Rightarrow> i64_t \<Rightarrow> proposal_result \<Rightarrow> raft \<Rightarrow> raft \<times> proposal_result option" where
  "sync_wakeup cv proposalIndex res s =
     (if sync_ready proposalIndex s
      then (case sync_finish proposalIndex res s of (s1, r) \<Rightarrow> (s1, Some r))
      else (spawn (TSyncWait cv proposalIndex res False) s, None))"

section \<open>Server, peers and shutdown\<close>

text \<open>
  \<open>listens\<close> is whether gRPC can bind an address. If it cannot, \<^verbatim>\<open>BuildAndStart\<close> returns null, and the thread that
  calls \<^verbatim>\<open>server_->Wait()\<close> dereferences it: \<open>None\<close>. \<open>serving\<close> is the node once its server runs.
\<close>

definition serving :: "raft \<Rightarrow> raft" where
  "serving s = s\<lparr>server_running := True\<rparr>"

definition start_server :: "(string \<Rightarrow> bool) \<Rightarrow> raft \<Rightarrow> raft defined" where
  "start_server listens s = (if listens (listening_addr s) then Some (serving s) else None)"

definition stop_server :: "raft \<Rightarrow> raft" where
  "stop_server s = (if server_running s then s\<lparr>server_running := False\<rparr> else s)"

text \<open>\<^verbatim>\<open>peers_[peer_addr.first] = stub\<close> for every configured peer.\<close>

definition connect_peers :: "raft \<Rightarrow> raft" where
  "connect_peers s =
     s\<lparr>peers := fold (\<lambda>(k, a) ps. if k \<in> set ps then ps else ps @ [k]) (peer_addrs s) (peers s)\<rparr>"

definition is_dead :: "raft \<Rightarrow> bool" where
  "is_dead s = dead s"

definition kill :: "raft \<Rightarrow> raft" where
  "kill s = s\<lparr>dead := True\<rparr>"

definition Raft_delete :: "raft \<Rightarrow> raft" where
  "Raft_delete s = stop_server s"

text \<open>The metadata the interceptors read.\<close>

definition create_context :: "u64_t \<Rightarrow> raft \<Rightarrow> (string \<times> string) list" where
  "create_context to s = [(''from'', to_string (rid s)), (''to'', to_string to)]"

section \<open>The RPC service\<close>

datatype grpc_status = StatusOK | StatusUnavailable

definition service_AppendEntries ::
  "append_entries_request \<Rightarrow> raft \<Rightarrow> (raft \<times> append_entries_reply \<times> grpc_status) defined" where
  "service_AppendEntries request s =
     map_option (\<lambda>(s', reply). (s', reply, StatusOK)) (append_entries request s)"

definition service_RequestVote ::
  "request_vote_request \<Rightarrow> raft \<Rightarrow> raft \<times> request_vote_reply \<times> grpc_status" where
  "service_RequestVote request s = (case reply_vote request s of (s', reply) \<Rightarrow> (s', reply, StatusOK))"

end
