(* ===== verification/RaftCluster.thy ===== *)
theory RaftCluster
  imports RaftNode "HOL-Library.AList"
begin

text \<open>
  A cluster of nodes: the thread interleavings of every node and the RPCs in flight between them.
  One event runs one critical section of one thread, delivers one request to its server, hands one
  reply back to the thread that waits for it, lets one call fail, or is a call of the public
  interface. Which event comes next is not determined: \<open>exec\<close> says what an event does where
  it is possible, \<open>cluster_step\<close> is the step relation, \<open>reachable\<close> the states some
  schedule leads to.

  A call that fails covers a lost request, a lost reply, an unreachable or stopped server, and a
  request hijacked by the interceptor: the caller sees a status that is not OK, writes a log message and
  ends its thread. gRPC calls run concurrently, so calls are delivered in any order.

  The fields \<open>granted\<close>, \<open>elected\<close>, \<open>elections\<close> and \<open>logs\<close> are history variables: they
  record the votes, the leaders and the logs seen so far and count the elections started; no event
  reads them.
\<close>

section \<open>Calls in flight\<close>

text \<open>
  Caller, callee, message, and what the calling thread keeps: the election term, or the locals of
  the sender and the request itself.
\<close>

datatype call =
    VoteReq u64_t u64_t request_vote_request i64_t
  | VoteRep u64_t u64_t request_vote_reply i64_t
  | AppReq u64_t u64_t append_entries_request send_ctx
  | AppRep u64_t u64_t append_entries_reply append_entries_request send_ctx

section \<open>One critical section of one thread\<close>

fun run_thread :: "int \<Rightarrow> thread \<Rightarrow> raft \<Rightarrow> (raft \<times> call list) defined" where
  "run_thread d TStartElectionTimer s = Some (start_election_timer d s, [])"
| "run_thread d TStartHeartbeatTimer s = Some (start_heartbeat_timer s, [])"
| "run_thread d (TTimer c delay mode) s = Some (start_timer c delay mode s, [])"
| "run_thread d TBecomeCandidate s = Some (become_candidate s, [])"
| "run_thread d TRequestVotes s = Some (request_votes (currentTerm s) s, [])"
| "run_thread d (TVoteSend target election_term) s =
     Some (s, [VoteReq (rid s) target (build_vote_request s) election_term])"
| "run_thread d TSendEntries s = Some (send_entries s, [])"
| "run_thread d (TAppendSend target) s = do {
     (req, ctx) \<leftarrow> build_append_request target s;
     Some (s, [AppReq (rid s) target req ctx])
   }"
| "run_thread d (TSyncWait cv i res awake) s = Some (fst (sync_wakeup cv i res s), [])"

section \<open>The cluster\<close>

record cluster =
  members :: "u64_t list"
  node_list :: "(u64_t \<times> raft) list"
  calls :: "call list"
  granted :: "(u64_t \<times> i64_t \<times> i64_t) set"
  elected :: "(i64_t \<times> u64_t) set"
  elections :: nat
  logs :: "entry list list"

text \<open>The node with a given id; an id without a node stands for one that is never started.\<close>

definition nodes :: "cluster \<Rightarrow> u64_t \<Rightarrow> raft" where
  "nodes c i =
     (case map_of (node_list c) i of
        Some s \<Rightarrow> s
      | None \<Rightarrow> Raft_new \<lparr>cfg_id = i, cfg_addr = [], cfg_peer_addrs = []\<rparr> Follower)"

lemma nodes_upd [simp]:
  "nodes (c\<lparr>calls := cs\<rparr>) = nodes c" "nodes (c\<lparr>elections := n\<rparr>) = nodes c"
  by (simp_all add: nodes_def fun_eq_iff)

text \<open>
  Storing the new state of a node, with the history: a vote it has cast and its being an active
  leader, in the term it is in, and the log it has.
\<close>

definition put_node :: "u64_t \<Rightarrow> raft \<Rightarrow> cluster \<Rightarrow> cluster" where
  "put_node i s c =
     c\<lparr>node_list := AList.update i s (node_list c),
       granted := (if votedFor s \<noteq> -1 then insert (i, currentTerm s, votedFor s) (granted c) else granted c),
       elected := (if active s \<and> currentRole s = Leader then insert (currentTerm s, i) (elected c)
                   else elected c),
       logs := rlog s # logs c\<rparr>"

text \<open>
  \<open>EvStartServer\<close> is \<^verbatim>\<open>start_server\<close> on an address that can be bound; on any other the process dereferences null and
  is no node of the cluster.
\<close>

datatype event =
    EvStartServer u64_t
  | EvStopServer u64_t
  | EvRun u64_t int
  | EvKill u64_t
  | EvPropose u64_t string
  | EvProposeSync u64_t string
  | EvThread u64_t nat int
  | EvDeliver nat
  | EvReturn nat
  | EvFail nat

definition local_op :: "u64_t \<Rightarrow> (raft \<Rightarrow> raft) \<Rightarrow> cluster \<Rightarrow> cluster option" where
  "local_op i f c = (if i \<in> set (members c) then Some (put_node i (f (nodes c i)) c) else None)"

definition thread_op :: "u64_t \<Rightarrow> nat \<Rightarrow> int \<Rightarrow> cluster \<Rightarrow> cluster option" where
  "thread_op i k d c =
     (let s = nodes c i in
      if i \<in> set (members c) \<and> k < length (threads s) \<and> election_delay d then do {
        (s', out) \<leftarrow> run_thread d (threads s ! k) (s\<lparr>threads := remove_nth k (threads s)\<rparr>);
        Some (put_node i s'
               (c\<lparr>calls := calls c @ out,
                  elections := (if threads s ! k = TBecomeCandidate then elections c + 1 else elections c)\<rparr>))
      } else None)"

definition deliver_op :: "nat \<Rightarrow> cluster \<Rightarrow> cluster option" where
  "deliver_op k c =
     (if k < length (calls c) then
        (case calls c ! k of
           VoteReq f t req et \<Rightarrow>
             if t \<in> set (members c) \<and> server_running (nodes c t) then
               (case service_RequestVote req (nodes c t) of (s', reply, status) \<Rightarrow>
                  Some (put_node t s' (c\<lparr>calls := (calls c)[k := VoteRep f t reply et]\<rparr>)))
             else None
         | AppReq f t req ctx \<Rightarrow>
             if t \<in> set (members c) \<and> server_running (nodes c t) then do {
               (s', reply, status) \<leftarrow> service_AppendEntries req (nodes c t);
               Some (put_node t s' (c\<lparr>calls := (calls c)[k := AppRep f t reply req ctx]\<rparr>))
             } else None
         | _ \<Rightarrow> None)
      else None)"

definition return_op :: "nat \<Rightarrow> cluster \<Rightarrow> cluster option" where
  "return_op k c =
     (if k < length (calls c) then
        (case calls c ! k of
           VoteRep f t reply et \<Rightarrow>
             if f \<in> set (members c) then
               Some (put_node f (handle_vote_reply t et reply (nodes c f))
                      (c\<lparr>calls := remove_nth k (calls c)\<rparr>))
             else None
         | AppRep f t reply req ctx \<Rightarrow>
             if f \<in> set (members c) then do {
               s' \<leftarrow> handle_append_reply t req ctx reply (nodes c f);
               Some (put_node f s' (c\<lparr>calls := remove_nth k (calls c)\<rparr>))
             } else None
         | _ \<Rightarrow> None)
      else None)"

fun exec :: "event \<Rightarrow> cluster \<Rightarrow> cluster option" where
  "exec (EvStartServer i) c = local_op i serving c"
| "exec (EvStopServer i) c = local_op i stop_server c"
| "exec (EvRun i d) c =
     (if election_delay d then local_op i (\<lambda>s. run d (connect_peers s)) c else None)"
| "exec (EvKill i) c = local_op i kill c"
| "exec (EvPropose i data) c = local_op i (\<lambda>s. fst (propose data s)) c"
| "exec (EvProposeSync i data) c = local_op i (\<lambda>s. fst (propose_sync data s)) c"
| "exec (EvThread i k d) c = thread_op i k d c"
| "exec (EvDeliver k) c = deliver_op k c"
| "exec (EvReturn k) c = return_op k c"
| "exec (EvFail k) c =
     (if k < length (calls c) then Some (c\<lparr>calls := remove_nth k (calls c)\<rparr>) else None)"

fun execs :: "event list \<Rightarrow> cluster \<Rightarrow> cluster option" where
  "execs [] c = Some c"
| "execs (ev # evs) c = (case exec ev c of None \<Rightarrow> None | Some c' \<Rightarrow> execs evs c')"

section \<open>Initial states and reachability\<close>

text \<open>
  \<open>garbage i\<close> is the uninitialised \<^verbatim>\<open>currentRole\<close> of node \<open>i\<close>.
\<close>

definition init_cluster :: "config list \<Rightarrow> (u64_t \<Rightarrow> role) \<Rightarrow> cluster" where
  "init_cluster cfgs garbage =
     \<lparr>members = map cfg_id cfgs,
      node_list = map (\<lambda>cfg. (cfg_id cfg, Raft_new cfg (garbage (cfg_id cfg)))) cfgs,
      calls = [], granted = {}, elected = {}, elections = 0, logs = [[]]\<rparr>"

text \<open>
  Configurations as \<^verbatim>\<open>ConfigGen\<close> produces them: distinct ids that fit \<^verbatim>\<open>int64_t\<close>, and
  every node configured with exactly the other nodes as peers.
\<close>

definition wf_configs :: "config list \<Rightarrow> bool" where
  "wf_configs cfgs \<longleftrightarrow>
     distinct (map cfg_id cfgs) \<and>
     (\<forall>cfg \<in> set cfgs. 0 \<le> cfg_id cfg \<and> cfg_id cfg < 2 ^ 63 \<and>
        distinct (map fst (cfg_peer_addrs cfg)) \<and>
        fst ` set (cfg_peer_addrs cfg) = set (map cfg_id cfgs) - {cfg_id cfg})"

inductive cluster_step :: "cluster \<Rightarrow> cluster \<Rightarrow> bool" where
  event: "exec ev c = Some c' \<Longrightarrow> cluster_step c c'"

inductive_simps cluster_step_iff: "cluster_step c c'"

definition cluster_init :: "config list \<Rightarrow> cluster \<Rightarrow> bool" where
  "cluster_init cfgs c \<longleftrightarrow> wf_configs cfgs \<and> (\<exists>garbage. c = init_cluster cfgs garbage)"

abbreviation reachable :: "config list \<Rightarrow> cluster \<Rightarrow> bool" where
  "reachable cfgs \<equiv> reach (cluster_init cfgs) cluster_step"

lemma reachable_execs:
  "reachable cfgs c \<Longrightarrow> execs evs c = Some c' \<Longrightarrow> reachable cfgs c'"
proof (induction evs arbitrary: c)
  case (Cons ev evs)
  then obtain d where "exec ev c = Some d" "execs evs d = Some c'" by (auto split: option.splits)
  with Cons show ?case by (blast intro: reach.step cluster_step.event)
qed simp

lemma reachable_trace:
  "wf_configs cfgs \<Longrightarrow> execs evs (init_cluster cfgs garbage) = Some c \<Longrightarrow> reachable cfgs c"
  by (rule reachable_execs [OF reach.start]) (auto simp: cluster_init_def)

lemma put_node_simps [simp]:
  "members (put_node i s c) = members c" "calls (put_node i s c) = calls c"
  "elections (put_node i s c) = elections c" "nodes (put_node i s c) = (nodes c)(i := s)"
  "granted (put_node i s c) =
     (if votedFor s \<noteq> -1 then insert (i, currentTerm s, votedFor s) (granted c) else granted c)"
  "logs (put_node i s c) = rlog s # logs c"
  "elected (put_node i s c) =
     (if active s \<and> currentRole s = Leader then insert (currentTerm s, i) (elected c) else elected c)"
  by (simp_all add: put_node_def nodes_def fun_eq_iff update_conv')

text \<open>Every node starts as the constructor leaves it.\<close>

lemma map_of_configs:
  "map_of (map (\<lambda>cfg. (cfg_id cfg, f cfg)) cfgs) i = map_option f (find (\<lambda>cfg. cfg_id cfg = i) cfgs)"
  by (induction cfgs) auto

lemma nodes_init:
  "nodes (init_cluster cfgs garbage) i =
     (case find (\<lambda>cfg. cfg_id cfg = i) cfgs of
        Some cfg \<Rightarrow> Raft_new cfg (garbage (cfg_id cfg))
      | None \<Rightarrow> Raft_new \<lparr>cfg_id = i, cfg_addr = [], cfg_peer_addrs = []\<rparr> Follower)"
  by (simp add: nodes_def init_cluster_def map_of_configs split: option.split)

lemma init_cluster_simps [simp]:
  "members (init_cluster cfgs garbage) = map cfg_id cfgs" "calls (init_cluster cfgs garbage) = []"
  "granted (init_cluster cfgs garbage) = {}" "elected (init_cluster cfgs garbage) = {}"
  "elections (init_cluster cfgs garbage) = 0" "logs (init_cluster cfgs garbage) = [[]]"
  by (simp_all add: init_cluster_def)

lemma thread_opE:
  assumes "thread_op i k d c = Some c'"
  obtains t out where "i \<in> set (members c)" "k < length (threads (nodes c i))" "election_delay d"
    "run_thread d (threads (nodes c i) ! k)
       (nodes c i\<lparr>threads := remove_nth k (threads (nodes c i))\<rparr>) = Some (t, out)"
    "c' = put_node i t (c\<lparr>calls := calls c @ out, elections :=
       (if threads (nodes c i) ! k = TBecomeCandidate then elections c + 1 else elections c)\<rparr>)"
  using assms unfolding thread_op_def Let_def by (auto split: if_splits Option.bind_splits)

lemma local_opE:
  assumes "local_op i f c = Some c'"
  obtains "i \<in> set (members c)" "c' = put_node i (f (nodes c i)) c"
  using assms by (auto simp: local_op_def split: if_splits)

end
