(* ===== verification/RaftVoting.thy ===== *)
theory RaftVoting
  imports RaftNode
begin

text \<open>
  What the operations of a node do to its election state: its term, its vote, its role and the
  votes it has collected. \<open>election_law\<close> is the contract every operation but the counting of a
  granted vote keeps; the lemmas on \<open>counts_vote\<close> say what that one does. \<open>grants_vote\<close> is the
  condition under which a node answers a candidate with its vote.
\<close>

section \<open>The election contract\<close>

definition vote_step :: "raft \<Rightarrow> raft \<Rightarrow> bool" where
  "vote_step s t \<longleftrightarrow>
     currentTerm s \<le> currentTerm t \<and>
     (currentTerm t = currentTerm s \<longrightarrow> votedFor t = votedFor s \<or> votedFor s = -1)"

definition election_law :: "raft \<Rightarrow> raft \<Rightarrow> bool" where
  "election_law s t \<longleftrightarrow>
     rid t = rid s \<and> peer_addrs t = peer_addrs s \<and> peers t = peers s \<and> active t = active s \<and>
     vote_step s t \<and>
     (currentRole t = Follower \<or>
      currentRole t = currentRole s \<and> currentTerm t = currentTerm s \<and> votes t = votes s \<or>
      currentRole t = Candidate \<and> currentTerm t = currentTerm s + 1 \<and>
        votedFor t = i64 (rid s) \<and> votes t = {i64 (rid s)})"

named_theorems election_laws \<open>operations that keep the election contract\<close>

lemma same_election_law: "same_election s t \<Longrightarrow> election_law s t"
  by (simp add: same_election_def election_law_def vote_step_def)

lemma election_law_refl [simp]: "election_law s s"
  by (simp add: same_election_law)

lemma election_law_mono: "election_law s t \<Longrightarrow> currentTerm s \<le> currentTerm t"
  by (simp add: election_law_def vote_step_def)

lemma election_law_quiet:
  "election_law s t \<Longrightarrow> same_election t u \<Longrightarrow> election_law s u"
  unfolding election_law_def same_election_def vote_step_def by metis

lemma quiet_election_law:
  "same_election s t \<Longrightarrow> election_law t u \<Longrightarrow> election_law s u"
  unfolding election_law_def same_election_def vote_step_def by metis

section \<open>Operations that leave the election state alone\<close>

lemma fold_notify:
  "fold (\<lambda>kv. notify_one (snd kv)) cvs s =
   s\<lparr>threads := map (\<lambda>t. fold (\<lambda>kv. wake (snd kv)) cvs t) (threads s)\<rparr>"
  by (induction cvs arbitrary: s) (simp_all add: notify_one_def comp_def)

lemma handle_pending_eq:
  "handle_pending_sync_props s =
   s\<lparr>threads := map (\<lambda>t. fold (\<lambda>kv. wake (snd kv)) (proposal_cvs s) t) (threads s),
     proposal_cvs := []\<rparr>"
  by (cases s) (simp add: handle_pending_sync_props_def fold_notify)

lemma handle_pending_simps [simp]:
  "rid (handle_pending_sync_props s) = rid s" "peers (handle_pending_sync_props s) = peers s"
  "peer_addrs (handle_pending_sync_props s) = peer_addrs s"
  "currentTerm (handle_pending_sync_props s) = currentTerm s"
  "votedFor (handle_pending_sync_props s) = votedFor s"
  "currentRole (handle_pending_sync_props s) = currentRole s"
  "votes (handle_pending_sync_props s) = votes s" "active (handle_pending_sync_props s) = active s"
  "rlog (handle_pending_sync_props s) = rlog s"
  "commitIndex (handle_pending_sync_props s) = commitIndex s"
  "lastApplied (handle_pending_sync_props s) = lastApplied s"
  "nextIndex (handle_pending_sync_props s) = nextIndex s"
  "matchIndex (handle_pending_sync_props s) = matchIndex s"
  "replyCounter (handle_pending_sync_props s) = replyCounter s"
  "ready_queue (handle_pending_sync_props s) = ready_queue s"
  "dead (handle_pending_sync_props s) = dead s"
  "timerCounter (handle_pending_sync_props s) = timerCounter s"
  "server_running (handle_pending_sync_props s) = server_running s"
  "next_cv (handle_pending_sync_props s) = next_cv s"
  "proposal_cvs (handle_pending_sync_props s) = []"
  by (simp_all add: handle_pending_eq)

lemma apply_one_frame:
  "\<exists>y z. apply_one i e s = s\<lparr>lastApplied := lastApplied s + 1, ready_queue := y, threads := z\<rparr> \<and>
     (z = threads s \<or> (\<exists>cv. z = map (wake cv) (threads s)))"
proof (cases "map_of (proposal_cvs s) i")
  case None
  then show ?thesis by (cases s) (simp add: apply_one_def apply_enqueue_def Let_def)
next
  case (Some cv)
  then show ?thesis
    by (cases s) (auto simp: apply_one_def apply_enqueue_def Let_def notify_one_def)
qed

text \<open>The threads that are not waiting in \<^verbatim>\<open>propose_sync\<close>.\<close>

fun is_sync :: "thread \<Rightarrow> bool" where
  "is_sync (TSyncWait cv i res awake) = True"
| "is_sync t = False"

definition active_threads :: "raft \<Rightarrow> thread list" where
  "active_threads s = filter (\<lambda>t. \<not> is_sync t) (threads s)"

lemma wake_cases: "is_sync (wake cv t) = is_sync t" "\<not> is_sync t \<Longrightarrow> wake cv t = t"
  by (cases t; simp)+

lemma filter_wake: "filter (\<lambda>t. \<not> is_sync t) (map (wake cv) ts) = filter (\<lambda>t. \<not> is_sync t) ts"
  by (induction ts) (auto simp: wake_cases)

lemma filter_wake_all:
  "filter (\<lambda>t. \<not> is_sync t) (map (\<lambda>t. fold (\<lambda>kv. wake (snd kv)) cvs t) ts) =
   filter (\<lambda>t. \<not> is_sync t) ts"
proof (induction cvs arbitrary: ts)
  case (Cons kv cvs)
  have "map (\<lambda>t. fold (\<lambda>kv. wake (snd kv)) (kv # cvs) t) ts =
      map (\<lambda>t. fold (\<lambda>kv. wake (snd kv)) cvs t) (map (wake (snd kv)) ts)" by simp
  then show ?case using Cons [of "map (wake (snd kv)) ts"] by (simp only: filter_wake)
qed simp

lemma active_threads_spawn [simp]:
  "active_threads (spawn t s) = active_threads s @ (if is_sync t then [] else [t])"
  by (simp add: active_threads_def)

lemma active_threads_handle_pending [simp]:
  "active_threads (handle_pending_sync_props s) = active_threads s"
  by (simp add: active_threads_def handle_pending_eq filter_wake_all)

lemma active_threads_apply_one [simp]: "active_threads (apply_one i e s) = active_threads s"
proof -
  obtain y z where "apply_one i e s = s\<lparr>lastApplied := lastApplied s + 1, ready_queue := y, threads := z\<rparr>"
    and "z = threads s \<or> (\<exists>cv. z = map (wake cv) (threads s))"
    using apply_one_frame by metis
  then show ?thesis by (auto simp: active_threads_def filter_wake)
qed

lemma active_threads_upd [simp]:
  "active_threads (s\<lparr>currentRole := r\<rparr>) = active_threads s"
  "active_threads (s\<lparr>currentTerm := ct\<rparr>) = active_threads s"
  "active_threads (s\<lparr>votedFor := v\<rparr>) = active_threads s"
  "active_threads (s\<lparr>votes := vs\<rparr>) = active_threads s"
  "active_threads (s\<lparr>active := b\<rparr>) = active_threads s"
  "active_threads (s\<lparr>rlog := l\<rparr>) = active_threads s"
  "active_threads (s\<lparr>commitIndex := ci\<rparr>) = active_threads s"
  "active_threads (s\<lparr>nextIndex := m\<rparr>) = active_threads s"
  "active_threads (s\<lparr>matchIndex := m\<rparr>) = active_threads s"
  "active_threads (s\<lparr>replyCounter := m\<rparr>) = active_threads s"
  "active_threads (s\<lparr>timerCounter := tc\<rparr>) = active_threads s"
  "active_threads (s\<lparr>proposal_cvs := cvs\<rparr>) = active_threads s"
  "active_threads (s\<lparr>next_cv := n\<rparr>) = active_threads s"
  "active_threads (s\<lparr>server_running := b\<rparr>) = active_threads s"
  "active_threads (s\<lparr>dead := b\<rparr>) = active_threads s"
  "active_threads (s\<lparr>peers := ps\<rparr>) = active_threads s"
  by (simp_all add: active_threads_def)

text \<open>
  The effect of applying entries: nothing but \<^verbatim>\<open>lastApplied\<close>, the queue and the wake-ups
  changes.
\<close>

lemma apply_loop_frame:
  "apply_loop i s = Some t \<Longrightarrow>
   (\<exists>x y z. t = s\<lparr>lastApplied := x, ready_queue := y, threads := z\<rparr>) \<and> active_threads t = active_threads s"
proof (induction i s rule: apply_loop.induct)
  case (1 i s)
  show ?case
  proof (cases "i \<le> commitIndex s")
    case True
    then obtain e where e: "vec_at (rlog s) (i - 1) = Some e"
      and rec: "apply_loop (i + 1) (apply_one i e s) = Some t"
      using 1(2) by (auto simp: apply_loop.simps [of i s] split: Option.bind_splits)
    from 1(1) [OF True e rec] obtain x y z
      where t: "t = (apply_one i e s)\<lparr>lastApplied := x, ready_queue := y, threads := z\<rparr>"
        and "active_threads t = active_threads (apply_one i e s)" by blast
    then have th: "active_threads t = active_threads s" by simp
    obtain y' z' where "apply_one i e s =
        s\<lparr>lastApplied := lastApplied s + 1, ready_queue := y', threads := z'\<rparr>"
      using apply_one_frame by metis
    with t th show ?thesis by auto
  next
    case False
    with 1(2) have "t = s" by (simp add: apply_loop.simps [of i s])
    moreover have "s = s\<lparr>lastApplied := lastApplied s, ready_queue := ready_queue s, threads := threads s\<rparr>"
      by simp
    ultimately show ?thesis by blast
  qed
qed

lemma apply_entries_frame:
  assumes "apply_entries s = Some t"
  shows "\<exists>x y z. t = s\<lparr>lastApplied := x, ready_queue := y, threads := z\<rparr>"
    and "active_threads t = active_threads s"
proof -
  have "s = s\<lparr>lastApplied := lastApplied s, ready_queue := ready_queue s, threads := threads s\<rparr>"
    by simp
  then have "(\<exists>x y z. s = s\<lparr>lastApplied := x, ready_queue := y, threads := z\<rparr>)"
    by blast
  with assms apply_loop_frame
  show "\<exists>x y z. t = s\<lparr>lastApplied := x, ready_queue := y, threads := z\<rparr>"
    and "active_threads t = active_threads s"
    unfolding apply_entries_def by (auto split: if_splits)
qed

lemma apply_entries_same_election: "apply_entries s = Some t \<Longrightarrow> same_election s t"
  using apply_entries_frame(1) by (fastforce simp: same_election_def)

section \<open>Every operation keeps the contract\<close>

lemma become_leader_fold:
  "fold (\<lambda>target u. u\<lparr>nextIndex := (nextIndex u)(i64 target \<mapsto> log_size u + 1),
                      matchIndex := (matchIndex u)(i64 target \<mapsto> 0),
                      replyCounter := (replyCounter u)(i64 target \<mapsto> 0)\<rparr>) ps s =
   s\<lparr>nextIndex := fold (\<lambda>t m. m(i64 t \<mapsto> log_size s + 1)) ps (nextIndex s),
     matchIndex := fold (\<lambda>t m. m(i64 t \<mapsto> 0)) ps (matchIndex s),
     replyCounter := fold (\<lambda>t m. m(i64 t \<mapsto> 0)) ps (replyCounter s)\<rparr>"
  by (induction ps arbitrary: s) (simp_all add: log_size_def)

lemma become_leader_eq:
  "become_leader s =
   spawn TStartHeartbeatTimer
     (s\<lparr>currentRole := Leader,
        nextIndex := fold (\<lambda>t m. m(i64 t \<mapsto> log_size s + 1)) (peers s) Map.empty,
        matchIndex := fold (\<lambda>t m. m(i64 t \<mapsto> 0)) (peers s) Map.empty,
        replyCounter := fold (\<lambda>t m. m(i64 t \<mapsto> 0)) (peers s) Map.empty\<rparr>)"
  unfolding become_leader_def Let_def become_leader_fold by (simp add: log_size_def)

lemma become_leader_simps [simp]:
  "rid (become_leader s) = rid s" "peers (become_leader s) = peers s"
  "peer_addrs (become_leader s) = peer_addrs s" "currentTerm (become_leader s) = currentTerm s"
  "votedFor (become_leader s) = votedFor s" "currentRole (become_leader s) = Leader"
  "votes (become_leader s) = votes s" "active (become_leader s) = active s"
  "rlog (become_leader s) = rlog s" "commitIndex (become_leader s) = commitIndex s"
  "lastApplied (become_leader s) = lastApplied s" "ready_queue (become_leader s) = ready_queue s"
  "active_threads (become_leader s) = active_threads s @ [TStartHeartbeatTimer]"
  "threads (become_leader s) = threads s @ [TStartHeartbeatTimer]"
  by (simp_all add: become_leader_eq)

lemma step_down_simps [simp]:
  "rid (step_down t s) = rid s" "peers (step_down t s) = peers s"
  "peer_addrs (step_down t s) = peer_addrs s" "currentTerm (step_down t s) = t"
  "votedFor (step_down t s) = -1" "currentRole (step_down t s) = Follower"
  "votes (step_down t s) = votes s" "active (step_down t s) = active s"
  "rlog (step_down t s) = rlog s" "commitIndex (step_down t s) = commitIndex s"
  "lastApplied (step_down t s) = lastApplied s" "ready_queue (step_down t s) = ready_queue s"
  "nextIndex (step_down t s) = nextIndex s" "matchIndex (step_down t s) = matchIndex s"
  "active_threads (step_down t s) = active_threads s @ [TStartElectionTimer]"
  by (simp_all add: step_down_def Let_def)

lemma accept_leader_simps [simp]:
  "rid (accept_leader r s) = rid s" "peers (accept_leader r s) = peers s"
  "peer_addrs (accept_leader r s) = peer_addrs s"
  "currentTerm (accept_leader r s) = max (currentTerm s) (ae_term r)"
  "votedFor (accept_leader r s) = (if ae_term r > currentTerm s then -1 else votedFor s)"
  "currentRole (accept_leader r s) = Follower"
  "votes (accept_leader r s) = votes s" "active (accept_leader r s) = active s"
  "rlog (accept_leader r s) = rlog s" "commitIndex (accept_leader r s) = commitIndex s"
  "lastApplied (accept_leader r s) = lastApplied s" "ready_queue (accept_leader r s) = ready_queue s"
  "nextIndex (accept_leader r s) = nextIndex s" "matchIndex (accept_leader r s) = matchIndex s"
  "active_threads (accept_leader r s) = active_threads s @ [TStartElectionTimer]"
  by (simp_all add: accept_leader_def Let_def)

text \<open>Operations that do not touch the election state.\<close>

lemma sync_finish_fst: "fst (sync_finish i res s) = s\<lparr>proposal_cvs := cvs_erase i (proposal_cvs s)\<rparr>"
  by (simp add: sync_finish_def Let_def)

lemma propose_sync_quiet: "same_election s (fst (propose_sync data s))"
proof (cases "currentRole s = Leader")
  case True
  then show ?thesis
    by (simp add: propose_sync_def push_proposal_def Let_def sync_finish_def same_election_def)
qed (simp add: propose_sync_def)

lemma sync_wakeup_quiet: "same_election s (fst (sync_wakeup cv i res s))"
  by (simp add: sync_wakeup_def sync_finish_def Let_def same_election_def)

lemma quiet_ops:
  "same_election s (start_timer c d m s)" "same_election s (start_election_timer d s)"
  "same_election s (start_heartbeat_timer s)" "same_election s (request_votes et s)"
  "same_election s (send_entries s)" "same_election s (fst (propose data s))"
  "same_election s (serving s)" "same_election s (stop_server s)" "same_election s (kill s)"
  unfolding same_election_def
          apply (simp add: start_timer_def)
         apply (simp add: start_election_timer_def Let_def)
        apply (simp add: start_heartbeat_timer_def Let_def)
       apply (simp add: request_votes_def spawn_all_eq)
      apply (simp add: send_entries_def spawn_all_eq)
     apply (simp add: propose_def push_proposal_def Let_def)
    apply (simp add: serving_def)
   apply (simp add: stop_server_def)
  apply (simp add: kill_def)
  done

lemma backtrack_same_election: "backtrack target ctx reply s = Some t \<Longrightarrow> same_election s t"
  by (auto simp: backtrack_def same_election_def Let_def split: option.splits Option.bind_splits if_splits)

lemma advance_commit_same_election: "advance_commit target req ctx s = Some t \<Longrightarrow> same_election s t"
  by (auto simp: advance_commit_def Let_def same_election_def split: Option.bind_splits if_splits
      dest!: apply_entries_same_election)

lemma become_candidate_law [election_laws]: "election_law s (become_candidate s)"
  by (simp add: election_law_def become_candidate_def Let_def vote_step_def)

lemma step_down_law [election_laws]: "currentTerm s < t \<Longrightarrow> election_law s (step_down t s)"
  by (simp add: election_law_def vote_step_def)

lemma handle_append_reply_cases:
  assumes "handle_append_reply target req ctx reply s = Some t"
  obtains "t = s"
  | s1 where "s1 = s\<lparr>replyCounter := (replyCounter s)(i64 target \<mapsto> sc_reply_counter ctx)\<rparr>"
      "t = s1 \<or> t = step_down (aer_term reply) s1 \<and> currentTerm s < aer_term reply \<or>
       currentRole s = Leader \<and> ae_term req = currentTerm s \<and>
         (backtrack target ctx reply s1 = Some t \<or> advance_commit target req ctx s1 = Some t)"
proof (cases "sc_reply_counter ctx < map_get (replyCounter s) (i64 target)")
  case True
  with assms that(1) show ?thesis by (simp add: handle_append_reply_def)
next
  case False
  define s1 where "s1 = s\<lparr>replyCounter := (replyCounter s)(i64 target \<mapsto> sc_reply_counter ctx)\<rparr>"
  have same: "currentTerm s1 = currentTerm s" "currentRole s1 = currentRole s" by (simp_all add: s1_def)
  have "t = s1 \<or> t = step_down (aer_term reply) s1 \<and> currentTerm s1 < aer_term reply \<or>
       currentRole s1 = Leader \<and> ae_term req = currentTerm s1 \<and>
         (backtrack target ctx reply s1 = Some t \<or> advance_commit target req ctx s1 = Some t)"
    using assms False unfolding handle_append_reply_def Let_def s1_def [symmetric]
    by (auto split: if_splits)
  with that(2) [OF s1_def] same show ?thesis by simp
qed

lemma handle_append_reply_law [election_laws]:
  assumes "handle_append_reply target req ctx reply s = Some t"
  shows "election_law s t"
  using assms
proof (cases rule: handle_append_reply_cases)
  case (2 s1)
  have quiet: "same_election s s1" unfolding 2(1) by (simp add: same_election_def)
  have "currentTerm s1 = currentTerm s" unfolding 2(1) by simp
  with 2(2) have "election_law s1 t"
    by (auto intro: step_down_law same_election_law backtrack_same_election advance_commit_same_election)
  with quiet show ?thesis by (rule quiet_election_law)
qed simp

lemma append_entries_shape:
  assumes "append_entries request s = Some (t, reply)"
  obtains "t = s" | l where "t = (accept_leader request s)\<lparr>rlog := l\<rparr>" "currentTerm s \<le> ae_term request" "active s"
  | l ci where "apply_entries ((accept_leader request s)\<lparr>rlog := l, commitIndex := ci\<rparr>) = Some t"
      "currentTerm s \<le> ae_term request" "active s"
proof (cases "active s \<and> currentTerm s \<le> ae_term request")
  case False
  with assms that(1) show ?thesis by (auto simp: append_entries_def split: if_splits)
next
  case True
  have same: "accept_leader request s = (accept_leader request s)\<lparr>rlog := rlog (accept_leader request s)\<rparr>"
    by simp
  from True assms have
    "(\<exists>l. t = (accept_leader request s)\<lparr>rlog := l\<rparr>) \<or>
     (\<exists>l ci. apply_entries ((accept_leader request s)\<lparr>rlog := l, commitIndex := ci\<rparr>) = Some t)"
    unfolding append_entries_def Let_def
    by (auto split: if_splits Option.bind_splits) (metis same)+
  with True that(2,3) show ?thesis by blast
qed

lemma accept_leader_law:
  "currentTerm s \<le> ae_term request \<Longrightarrow> election_law s (accept_leader request s)"
  by (simp add: election_law_def vote_step_def)

lemma append_entries_law [election_laws]:
  assumes "append_entries request s = Some (t, reply)"
  shows "election_law s t"
  using assms
proof (cases rule: append_entries_shape)
  case (2 l)
  then show ?thesis
    using election_law_quiet [OF accept_leader_law, of s request t] by (simp add: same_election_def)
next
  case (3 l ci)
  have "same_election (accept_leader request s) ((accept_leader request s)\<lparr>rlog := l, commitIndex := ci\<rparr>)"
    by (simp add: same_election_def)
  then show ?thesis
    using 3 election_law_quiet [OF accept_leader_law] apply_entries_same_election same_election_trans
    by metis
qed simp

text \<open>Everything \<^verbatim>\<open>reply_vote\<close> can do.\<close>

definition grants_vote :: "request_vote_request \<Rightarrow> raft \<Rightarrow> bool" where
  "grants_vote request s \<longleftrightarrow>
     active s \<and> currentTerm s \<le> rv_term request \<and>
     (currentTerm s < rv_term request \<or> votedFor s = -1 \<or> votedFor s = rv_candidate_id request) \<and>
     candidate_up_to_date (rv_last_log_term request) (rv_last_log_index request) (rlog s)"

lemma reply_vote_granted_iff: "rvr_vote_granted (snd (reply_vote request s)) \<longleftrightarrow> grants_vote request s"
  by (auto simp: reply_vote_def grants_vote_def Let_def empty_vote_reply_def)

lemma reply_vote_granted_state:
  assumes "grants_vote request s"
  shows "currentTerm (fst (reply_vote request s)) = rv_term request"
    "votedFor (fst (reply_vote request s)) = rv_candidate_id request"
    "currentRole (fst (reply_vote request s)) = Follower"
    "rvr_term (snd (reply_vote request s)) = rv_term request"
  using assms by (auto simp: reply_vote_def grants_vote_def Let_def)

lemma reply_vote_frame [simp]:
  "rid (fst (reply_vote request s)) = rid s" "peers (fst (reply_vote request s)) = peers s"
  "peer_addrs (fst (reply_vote request s)) = peer_addrs s"
  "active (fst (reply_vote request s)) = active s" "rlog (fst (reply_vote request s)) = rlog s"
  "votes (fst (reply_vote request s)) = votes s"
  "commitIndex (fst (reply_vote request s)) = commitIndex s"
  "lastApplied (fst (reply_vote request s)) = lastApplied s"
  "ready_queue (fst (reply_vote request s)) = ready_queue s"
  by (auto simp: reply_vote_def Let_def)

lemma reply_vote_denied_state:
  assumes "\<not> grants_vote request s"
  shows "fst (reply_vote request s) = s \<or>
    currentTerm s < rv_term request \<and> fst (reply_vote request s) = step_down (rv_term request) s"
proof (cases "active s \<and> currentTerm s \<le> rv_term request")
  case False
  then have "fst (reply_vote request s) = s" by (auto simp: reply_vote_def)
  then show ?thesis ..
next
  case reached: True
  show ?thesis
  proof (cases "currentTerm s < rv_term request")
    case True
    with reached assms have "fst (reply_vote request s) = step_down (rv_term request) s"
      by (simp add: reply_vote_def grants_vote_def Let_def)
    with True show ?thesis by simp
  next
    case False
    with reached assms have "fst (reply_vote request s) = s"
      by (cases "candidate_up_to_date (rv_last_log_term request) (rv_last_log_index request) (rlog s)")
        (simp_all add: reply_vote_def grants_vote_def Let_def)
    then show ?thesis ..
  qed
qed

lemma reply_vote_law [election_laws]: "election_law s (fst (reply_vote request s))"
proof (cases "grants_vote request s")
  case True
  note st = reply_vote_granted_state [OF True]
  have "currentTerm s \<le> rv_term request \<and>
      (currentTerm s < rv_term request \<or> votedFor s = -1 \<or> votedFor s = rv_candidate_id request)"
    using True by (simp add: grants_vote_def)
  then show ?thesis by (auto simp: election_law_def vote_step_def st)
next
  case False
  then show ?thesis using reply_vote_denied_state [OF False] step_down_law by auto
qed

text \<open>Starting a node: the peers become known, the role is assigned.\<close>

lemma connect_peers_set: "set (peers (connect_peers s)) = set (peers s) \<union> fst ` set (peer_addrs s)"
proof -
  have "set (fold (\<lambda>(k, a) ps. if k \<in> set ps then ps else ps @ [k]) kas ps) = set ps \<union> fst ` set kas"
    for kas :: "(int \<times> string) list" and ps
    by (induction kas arbitrary: ps) (auto split: if_splits)
  then show ?thesis by (simp add: connect_peers_def)
qed

lemma connect_peers_distinct: "distinct (peers s) \<Longrightarrow> distinct (peers (connect_peers s))"
proof -
  have "distinct ps \<Longrightarrow> distinct (fold (\<lambda>(k, a) ps. if k \<in> set ps then ps else ps @ [k]) kas ps)"
    for kas :: "(int \<times> string) list" and ps
    by (induction kas arbitrary: ps) auto
  then show "distinct (peers s) \<Longrightarrow> distinct (peers (connect_peers s))" by (simp add: connect_peers_def)
qed

lemma run_simps [simp]:
  "rid (run d s) = rid s" "peers (run d s) = peers s" "peer_addrs (run d s) = peer_addrs s"
  "currentTerm (run d s) = currentTerm s" "votedFor (run d s) = votedFor s"
  "currentRole (run d s) = Follower" "votes (run d s) = votes s" "active (run d s) = True"
  "rlog (run d s) = rlog s" "commitIndex (run d s) = commitIndex s"
  "lastApplied (run d s) = lastApplied s" "ready_queue (run d s) = ready_queue s"
  "active_threads (run d s) = active_threads s @ [TTimer (timerCounter s + 1) d 0]"
  by (simp_all add: run_def become_follower_def start_election_timer_def Let_def)

lemma connect_peers_simps [simp]:
  "rid (connect_peers s) = rid s" "peer_addrs (connect_peers s) = peer_addrs s"
  "currentTerm (connect_peers s) = currentTerm s" "votedFor (connect_peers s) = votedFor s"
  "currentRole (connect_peers s) = currentRole s" "votes (connect_peers s) = votes s"
  "active (connect_peers s) = active s" "rlog (connect_peers s) = rlog s"
  "commitIndex (connect_peers s) = commitIndex s" "lastApplied (connect_peers s) = lastApplied s"
  "ready_queue (connect_peers s) = ready_queue s"
  "timerCounter (connect_peers s) = timerCounter s"
  "active_threads (connect_peers s) = active_threads s"
  by (simp_all add: connect_peers_def)

section \<open>Counting a vote\<close>

text \<open>
  \<open>counts_vote\<close>: the reply is a grant for the term the node is still a candidate in. Every other
  reply keeps the election contract.
\<close>

definition counts_vote :: "i64_t \<Rightarrow> request_vote_reply \<Rightarrow> raft \<Rightarrow> bool" where
  "counts_vote election_term reply s \<longleftrightarrow>
     rvr_vote_granted reply \<and> currentTerm s = election_term \<and> currentRole s = Candidate"

lemma handle_vote_reply_uncounted:
  "\<not> counts_vote et reply s \<Longrightarrow> election_law s (handle_vote_reply target et reply s)"
  by (auto simp: handle_vote_reply_def counts_vote_def Let_def intro: step_down_law)

lemma handle_vote_reply_counted:
  assumes "counts_vote et reply s"
  shows "handle_vote_reply target et reply s =
    (if card (insert (i64 target) (votes s)) > length (peers s) div 2
     then become_leader (s\<lparr>votes := insert (i64 target) (votes s)\<rparr>)
     else s\<lparr>votes := insert (i64 target) (votes s)\<rparr>)"
  using assms by (simp add: handle_vote_reply_def counts_vote_def Let_def)

lemma handle_vote_reply_frame:
  "rid (handle_vote_reply target et reply s) = rid s"
  "peers (handle_vote_reply target et reply s) = peers s"
  "peer_addrs (handle_vote_reply target et reply s) = peer_addrs s"
  "active (handle_vote_reply target et reply s) = active s"
  by (auto simp: handle_vote_reply_def Let_def)

section \<open>Vote requests in the thread pool\<close>

text \<open>
  Only \<^verbatim>\<open>request_votes\<close> creates threads that ask for votes; no other operation adds one.
\<close>

definition vote_sends :: "raft \<Rightarrow> (u64_t \<times> i64_t) set" where
  "vote_sends s = {(t, e). TVoteSend t e \<in> set (active_threads s)}"

lemma vote_sends_threads: "vote_sends s = {(t, e). TVoteSend t e \<in> set (threads s)}"
  by (auto simp: vote_sends_def active_threads_def)

named_theorems vote_sends_simps \<open>vote-request threads after an operation\<close>

lemma vote_sends_ops [vote_sends_simps]:
  "vote_sends (start_timer c d m s) = vote_sends s"
  "vote_sends (start_election_timer d s) = vote_sends s"
  "vote_sends (start_heartbeat_timer s) = vote_sends s"
  "vote_sends (become_candidate s) = vote_sends s"
  "vote_sends (send_entries s) = vote_sends s"
  "vote_sends (run d (connect_peers s)) = vote_sends s"
  "vote_sends (serving s) = vote_sends s" "vote_sends (stop_server s) = vote_sends s"
  "vote_sends (kill s) = vote_sends s" "vote_sends (fst (propose data s)) = vote_sends s"
  by (auto simp: vote_sends_def start_timer_def start_election_timer_def start_heartbeat_timer_def
      become_candidate_def send_entries_def serving_def stop_server_def kill_def propose_def
      push_proposal_def Let_def spawn_all_eq active_threads_def run_def become_follower_def
      connect_peers_def)

lemma vote_sends_request_votes:
  "vote_sends (request_votes et s) = vote_sends s \<union> {(t, et) |t. t \<in> set (peers s)}"
  by (auto simp: vote_sends_threads request_votes_def spawn_all_eq)

lemma vote_sends_sync [vote_sends_simps]:
  "vote_sends (fst (propose_sync data s)) = vote_sends s"
  "vote_sends (fst (sync_wakeup cv i res s)) = vote_sends s"
  by (auto simp: vote_sends_def propose_sync_def push_proposal_def sync_wakeup_def sync_finish_def
      Let_def active_threads_def)

lemma vote_sends_reply_vote [vote_sends_simps]: "vote_sends (fst (reply_vote r s)) = vote_sends s"
  by (auto simp: vote_sends_def reply_vote_def Let_def)

lemma vote_sends_handle_vote_reply [vote_sends_simps]:
  "vote_sends (handle_vote_reply target et reply s) = vote_sends s"
  by (auto simp: vote_sends_def handle_vote_reply_def Let_def)

lemma active_threads_append_entries:
  assumes "append_entries request s = Some (t, reply)"
  shows "active_threads t = active_threads s \<or>
    active_threads t = active_threads s @ [TStartElectionTimer]"
  using assms by (cases rule: append_entries_shape) (auto dest: apply_entries_frame(2))

lemma active_threads_handle_append_reply:
  assumes "handle_append_reply target req ctx reply s = Some t"
  shows "active_threads t = active_threads s \<or>
    active_threads t = active_threads s @ [TStartElectionTimer]"
  using assms
proof (cases rule: handle_append_reply_cases)
  case (2 s1)
  have s1: "active_threads s1 = active_threads s" unfolding 2(1) by simp
  have "active_threads t = active_threads s1" if "backtrack target ctx reply s1 = Some t"
    using that by (auto simp: backtrack_def Let_def split: option.splits Option.bind_splits if_splits)
  moreover have "active_threads t = active_threads s1" if "advance_commit target req ctx s1 = Some t"
    using that by (auto simp: advance_commit_def Let_def split: Option.bind_splits if_splits
        dest!: apply_entries_frame(2))
  ultimately show ?thesis using 2(2) s1 by auto
qed simp

lemma vote_sends_append [vote_sends_simps]:
  "append_entries request s = Some (t, reply) \<Longrightarrow> vote_sends t = vote_sends s"
  "handle_append_reply target req ctx rep s = Some t \<Longrightarrow> vote_sends t = vote_sends s"
  using active_threads_append_entries [of request s t reply]
    active_threads_handle_append_reply [of target req ctx rep s t]
  by (auto simp: vote_sends_def)

end
