(* ===== verification/ElectionSafety.thy ===== *)
theory ElectionSafety
  imports RaftCluster RaftVoting
begin

text \<open>
  Election safety of the cluster. The invariant ties the votes a candidate has collected, and the
  vote replies still in flight, to the history of votes cast; a node casts at most one vote per
  term, so two quorums of votes for the same term elect the same node.

  \<^verbatim>\<open>votes.size() > peers_.size() / 2\<close> is a majority of the cluster only when the number of
  nodes is odd: \<open>vote_quorum\<close> is the code's test, and it is a quorum system for odd clusters.
\<close>

section \<open>The code's vote quorum\<close>

definition vote_quorum :: "u64_t set \<Rightarrow> u64_t set \<Rightarrow> bool" where
  "vote_quorum M Q \<longleftrightarrow> finite M \<and> odd (card M) \<and> Q \<subseteq> M \<and> card Q > (card M - 1) div 2"

interpretation vq: quorum_system "vote_quorum M" for M
proof
  fix P Q
  assume P: "vote_quorum M P" and Q: "vote_quorum M Q"
  then have "card M < card P + card Q" by (auto simp: vote_quorum_def elim!: oddE)
  with P Q show "P \<inter> Q \<noteq> {}" by (auto simp: vote_quorum_def dest: majorities_share)
qed

section \<open>The invariant\<close>

text \<open>A node: its configuration, its own vote, and the votes it has collected.\<close>

definition node_ok ::
  "u64_t set \<Rightarrow> (u64_t \<times> i64_t \<times> i64_t) set \<Rightarrow> u64_t \<Rightarrow> raft \<Rightarrow> bool" where
  "node_ok M G i s \<longleftrightarrow>
     rid s = i \<and> fst ` set (peer_addrs s) = M - {i} \<and>
     (peers s = [] \<or> set (peers s) = M - {i} \<and> distinct (peers s)) \<and>
     (votedFor s \<noteq> -1 \<longrightarrow> (i, currentTerm s, votedFor s) \<in> G) \<and>
     (currentRole s \<noteq> Follower \<longrightarrow> votes s \<subseteq> M \<and> (\<forall>v \<in> votes s. (v, currentTerm s, i) \<in> G)) \<and>
     (active s \<and> currentRole s = Leader \<longrightarrow> card (votes s) > (card M - 1) div 2) \<and>
     (\<forall>(t, e) \<in> vote_sends s. e \<le> currentTerm s \<and> t \<in> M \<and> peers s \<noteq> [])"

text \<open>A call in flight: a granted reply stands for a vote cast in a term not before the election.\<close>

fun call_ok ::
  "u64_t set \<Rightarrow> (u64_t \<times> i64_t \<times> i64_t) set \<Rightarrow> (u64_t \<Rightarrow> raft) \<Rightarrow> call \<Rightarrow> bool" where
  "call_ok M G N (VoteReq f t req et) \<longleftrightarrow>
     f \<in> M \<and> t \<in> M \<and> peers (N f) \<noteq> [] \<and> rv_candidate_id req = f \<and>
     et \<le> rv_term req \<and> rv_term req \<le> currentTerm (N f)"
| "call_ok M G N (VoteRep f t rep et) \<longleftrightarrow>
     f \<in> M \<and> t \<in> M \<and> peers (N f) \<noteq> [] \<and>
     (rvr_vote_granted rep \<longrightarrow> (\<exists>T. (t, T, f) \<in> G \<and> et \<le> T \<and> T \<le> currentTerm (N f)))"
| "call_ok M G N _ \<longleftrightarrow> True"

text \<open>The history of votes: every vote recorded is the node's vote while it stays in that term.\<close>

definition history_ok ::
  "u64_t set \<Rightarrow> (u64_t \<times> i64_t \<times> i64_t) set \<Rightarrow> (u64_t \<Rightarrow> raft) \<Rightarrow> bool" where
  "history_ok M G N \<longleftrightarrow>
     (\<forall>v T x. (v, T, x) \<in> G \<longrightarrow>
        v \<in> M \<and> x \<noteq> -1 \<and> T \<le> currentTerm (N v) \<and> (T = currentTerm (N v) \<longrightarrow> votedFor (N v) = x)) \<and>
     (\<forall>v T x y. (v, T, x) \<in> G \<longrightarrow> (v, T, y) \<in> G \<longrightarrow> x = y)"

definition elected_ok ::
  "u64_t set \<Rightarrow> (u64_t \<times> i64_t \<times> i64_t) set \<Rightarrow> (i64_t \<times> u64_t) set \<Rightarrow> bool" where
  "elected_ok M G E \<longleftrightarrow>
     (\<forall>(T, i) \<in> E. \<exists>Q \<subseteq> M. card Q > (card M - 1) div 2 \<and> (\<forall>v \<in> Q. (v, T, i) \<in> G))"

definition election_inv :: "cluster \<Rightarrow> bool" where
  "election_inv c \<longleftrightarrow>
     (let M = set (members c); G = granted c; N = nodes c in
      (\<forall>i \<in> M. 0 \<le> i \<and> i < 2 ^ 63 \<and> node_ok M G i (N i)) \<and>
      (\<forall>k \<in> set (calls c). call_ok M G N k) \<and>
      history_ok M G N \<and> elected_ok M G (elected c))"

lemma election_inv_node:
  assumes "election_inv c" "i \<in> set (members c)"
  shows "0 \<le> i" "i < 2 ^ 63" "node_ok (set (members c)) (granted c) i (nodes c i)"
  using assms by (simp_all add: election_inv_def Let_def)

lemma election_inv_call:
  "election_inv c \<Longrightarrow> k \<in> set (calls c) \<Longrightarrow> call_ok (set (members c)) (granted c) (nodes c) k"
  by (simp add: election_inv_def Let_def)

section \<open>Preservation\<close>

lemma id_i64: "0 \<le> (i :: int) \<Longrightarrow> i < 2 ^ 63 \<Longrightarrow> i64 i = i"
  by (simp add: i64_id in_i64_def)

lemma node_ok_mono: "node_ok M G i s \<Longrightarrow> G \<subseteq> H \<Longrightarrow> node_ok M H i s"
  unfolding node_ok_def by blast

lemma call_ok_mono:
  assumes "call_ok M G N k" "G \<subseteq> H"
    and "\<And>f. currentTerm (N f) \<le> currentTerm (N' f)" "\<And>f. peers (N f) \<noteq> [] \<Longrightarrow> peers (N' f) \<noteq> []"
  shows "call_ok M H N' k"
  using assms by (cases k) (auto intro: order_trans dest: subsetD)

lemma elected_ok_mono: "elected_ok M G E \<Longrightarrow> G \<subseteq> H \<Longrightarrow> elected_ok M H E"
  unfolding elected_ok_def by fast

text \<open>Storing a node whose vote moved lawfully keeps the history functional.\<close>

lemma history_put_node:
  assumes "history_ok M G N" "i \<in> M" "vote_step (N i) s"
  shows "history_ok M (if votedFor s \<noteq> -1 then insert (i, currentTerm s, votedFor s) G else G) (N(i := s))"
proof -
  have old: "x \<noteq> -1" "v \<in> M" "T \<le> currentTerm (N v)" "T = currentTerm (N v) \<Longrightarrow> votedFor (N v) = x"
    if "(v, T, x) \<in> G" for v T x
    using assms(1) that by (auto simp: history_ok_def)
  have fn: "x = y" if "(v, T, x) \<in> G" "(v, T, y) \<in> G" for v T x y
    using assms(1) that unfolding history_ok_def by blast
  have tm: "currentTerm (N i) \<le> currentTerm s"
    and vote: "currentTerm s = currentTerm (N i) \<Longrightarrow> votedFor s = votedFor (N i) \<or> votedFor (N i) = -1"
    using assms(3) by (auto simp: vote_step_def)
  have upd: "T \<le> currentTerm s \<and> (T = currentTerm s \<longrightarrow> votedFor s = x)" if "(i, T, x) \<in> G" for T x
    using old [OF that] tm vote by (metis order.antisym order.trans)
  have new: "x = votedFor s" if "(i, currentTerm s, x) \<in> G" for x
    using upd [OF that] by simp
  show ?thesis
    unfolding history_ok_def using old(1,2,3,4) fn upd new assms(2) by auto
qed

lemma put_node_inv:
  assumes inv: "election_inv c" and i: "i \<in> set (members c)"
    and vote: "vote_step (nodes c i) s" and conn: "peers (nodes c i) \<noteq> [] \<Longrightarrow> peers s \<noteq> []"
    and node: "node_ok (set (members c)) (granted (put_node i s c)) i s"
    and calls: "\<And>k. k \<in> set cs \<Longrightarrow>
      call_ok (set (members c)) (granted (put_node i s c)) ((nodes c)(i := s)) k"
  shows "election_inv (put_node i s (c\<lparr>calls := cs, elections := n\<rparr>))"
proof -
  let ?M = "set (members c)" and ?G = "granted (put_node i s c)" and ?N = "(nodes c)(i := s)"
    and ?c = "put_node i s (c\<lparr>calls := cs, elections := n\<rparr>)"
  have sub: "granted c \<subseteq> ?G" by auto
  have "0 \<le> j \<and> j < 2 ^ 63 \<and> node_ok ?M ?G j (?N j)" if "j \<in> ?M" for j
    using inv that node node_ok_mono [OF _ sub] by (auto simp: election_inv_def Let_def)
  moreover have "history_ok ?M ?G ?N"
    using inv history_put_node [of ?M "granted c" "nodes c" i s] i vote
    by (simp add: election_inv_def Let_def)
  moreover have "elected_ok ?M ?G (elected (put_node i s c))"
  proof -
    have "elected_ok ?M ?G (elected c)"
      using inv elected_ok_mono [OF _ sub] by (auto simp: election_inv_def Let_def)
    moreover have "\<exists>Q \<subseteq> ?M. card Q > (card ?M - 1) div 2 \<and> (\<forall>v \<in> Q. (v, currentTerm s, i) \<in> ?G)"
      if "active s" "currentRole s = Leader"
      using node that unfolding node_ok_def by (intro exI [of _ "votes s"]) simp
    ultimately show ?thesis by (auto simp: elected_ok_def)
  qed
  moreover have "members ?c = members c" "granted ?c = ?G" "nodes ?c = ?N" "calls ?c = cs"
    "elected ?c = elected (put_node i s c)" by simp_all
  ultimately show ?thesis using calls unfolding election_inv_def Let_def by metis
qed

text \<open>The contract of the node's operations is enough for the node part of the invariant.\<close>

lemma node_ok_law:
  assumes ok: "node_ok M (granted c) i s" and law: "election_law s t" and i: "0 \<le> i" "i < 2 ^ 63" "i \<in> M"
    and sends: "\<And>a e. (a, e) \<in> vote_sends t \<Longrightarrow> e \<le> currentTerm t \<and> a \<in> M \<and> peers t \<noteq> []"
    and s: "nodes c i = s"
  shows "node_ok M (granted (put_node i t c)) i t"
proof -
  let ?G = "granted (put_node i t c)"
  have sub: "granted c \<subseteq> ?G" by auto
  have frame: "rid t = i" "peer_addrs t = peer_addrs s" "peers t = peers s" "active t = active s"
    using law ok by (auto simp: election_law_def node_ok_def)
  have i64: "i64 i = i" using i by (simp add: id_i64)
  have role: "(currentRole t \<noteq> Follower \<longrightarrow> votes t \<subseteq> M \<and> (\<forall>v \<in> votes t. (v, currentTerm t, i) \<in> ?G)) \<and>
     (active t \<and> currentRole t = Leader \<longrightarrow> card (votes t) > (card M - 1) div 2)"
  proof -
    consider "currentRole t = Follower"
      | "currentRole t = currentRole s" "currentTerm t = currentTerm s" "votes t = votes s"
      | "currentRole t = Candidate" "votedFor t = i" "votes t = {i}"
      using law ok i64 by (auto simp: election_law_def node_ok_def)
    then show ?thesis
    proof cases
      case 2
      with ok sub frame show ?thesis unfolding node_ok_def by auto
    next
      case 3
      with i show ?thesis by auto
    qed simp
  qed
  moreover have "votedFor t \<noteq> -1 \<longrightarrow> (i, currentTerm t, votedFor t) \<in> ?G" by simp
  moreover have "\<forall>(a, e) \<in> vote_sends t. e \<le> currentTerm t \<and> a \<in> M \<and> peers t \<noteq> []"
    using sends by blast
  ultimately show ?thesis using ok frame by (simp add: node_ok_def)
qed

lemma node_ok_sends:
  "node_ok M G i s \<Longrightarrow> (a, e) \<in> vote_sends s \<Longrightarrow> e \<le> currentTerm s \<and> a \<in> M \<and> peers s \<noteq> []"
  by (auto simp: node_ok_def)

text \<open>
  The common case of a step: one node moves lawfully, its new vote requests are for its term, and
  every call left in flight is an old one or satisfies the invariant.
\<close>

lemma law_step:
  assumes inv: "election_inv c" and i: "i \<in> set (members c)"
    and law: "election_law (nodes c i) s"
    and sends: "\<And>a e. (a, e) \<in> vote_sends s \<Longrightarrow> (a, e) \<in> vote_sends (nodes c i) \<or>
      e \<le> currentTerm s \<and> a \<in> set (members c) \<and> peers s \<noteq> []"
    and calls: "\<And>k. k \<in> set cs \<Longrightarrow> k \<in> set (calls c) \<or>
      call_ok (set (members c)) (granted (put_node i s c)) ((nodes c)(i := s)) k"
  shows "election_inv (put_node i s (c\<lparr>calls := cs, elections := n\<rparr>))"
proof (rule put_node_inv [OF inv i])
  have node: "node_ok (set (members c)) (granted c) i (nodes c i)" "0 \<le> i" "i < 2 ^ 63"
    using inv i by (auto simp: election_inv_def Let_def)
  have mono: "currentTerm (nodes c i) \<le> currentTerm s" "peers s = peers (nodes c i)"
    using law by (auto simp: election_law_def vote_step_def)
  show "vote_step (nodes c i) s" using law by (simp add: election_law_def)
  show "peers (nodes c i) \<noteq> [] \<Longrightarrow> peers s \<noteq> []" using mono by simp
  have "e \<le> currentTerm s \<and> a \<in> set (members c) \<and> peers s \<noteq> []" if "(a, e) \<in> vote_sends s" for a e
    using node_ok_sends [OF node(1)] sends [OF that] mono by fastforce
  then show "node_ok (set (members c)) (granted (put_node i s c)) i s"
    by (rule node_ok_law [OF node(1) law node(2,3) i]) simp_all
  fix k
  assume "k \<in> set cs"
  from calls [OF this]
  show "call_ok (set (members c)) (granted (put_node i s c)) ((nodes c)(i := s)) k"
  proof
    assume "k \<in> set (calls c)"
    then have "call_ok (set (members c)) (granted c) (nodes c) k"
      by (rule election_inv_call [OF inv])
    then show ?thesis by (rule call_ok_mono) (use mono in auto)
  qed
qed

corollary law_step_local:
  assumes "election_inv c" "i \<in> set (members c)" "election_law (nodes c i) s"
    and "vote_sends s \<subseteq> vote_sends (nodes c i)"
  shows "election_inv (put_node i s c)"
proof -
  have "put_node i s c = put_node i s (c\<lparr>calls := calls c, elections := elections c\<rparr>)" by simp
  then show ?thesis using law_step [OF assms(1-3), of "calls c"] assms(4) by (metis subsetD)
qed

lemma local_op_inv:
  assumes "election_inv c" "local_op i f c = Some c'"
    and "\<And>s. election_law s (f s)" "\<And>s. vote_sends (f s) = vote_sends s"
  shows "election_inv c'"
  using assms law_step_local [OF assms(1)] by (auto simp: local_op_def split: if_splits)

lemma run_inv:
  assumes inv: "election_inv c" and op: "local_op i (\<lambda>s. run d (connect_peers s)) c = Some c'"
  shows "election_inv c'"
proof -
  let ?s = "nodes c i" and ?t = "run d (connect_peers (nodes c i))"
  have i: "i \<in> set (members c)" and c': "c' = put_node i ?t (c\<lparr>calls := calls c, elections := elections c\<rparr>)"
    using op by (auto simp: local_op_def split: if_splits)
  note node = election_inv_node(3) [OF inv i]
  have set: "set (peers ?t) = set (peers ?s) \<union> fst ` set (peer_addrs ?s)"
    using connect_peers_set [of ?s] by simp
  have peers: "set (peers ?t) = set (members c) - {i}" using node set by (auto simp: node_ok_def)
  have "distinct (peers ?t)"
    using node connect_peers_distinct [of ?s] by (auto simp: node_ok_def)
  moreover have "\<forall>(a, e) \<in> vote_sends ?t. e \<le> currentTerm ?t \<and> a \<in> set (members c) \<and> peers ?t \<noteq> []"
    using node_ok_sends [OF node] set by (fastforce simp: vote_sends_ops(6))
  moreover have "rid ?t = i" "fst ` set (peer_addrs ?t) = set (members c) - {i}"
    using node by (auto simp: node_ok_def)
  ultimately have ok: "node_ok (set (members c)) (granted (put_node i ?t c)) i ?t"
    using peers unfolding node_ok_def by simp
  show ?thesis
    unfolding c'
  proof (rule put_node_inv [OF inv i _ _ ok])
    show "vote_step ?s ?t" by (simp add: vote_step_def)
    show conn: "peers ?t \<noteq> []" if "peers ?s \<noteq> []" using that set by auto
    fix k
    assume "k \<in> set (calls c)"
    then have "call_ok (set (members c)) (granted c) (nodes c) k"
      by (rule election_inv_call [OF inv])
    then show "call_ok (set (members c)) (granted (put_node i ?t c)) ((nodes c)(i := ?t)) k"
      by (rule call_ok_mono) (use conn in auto)
  qed
qed

text \<open>One critical section of a thread.\<close>

lemma run_thread_law:
  assumes "run_thread d th s = Some (t, out)"
  shows "election_law s t"
  using assms
  by (cases th) (auto intro: quiet_ops propose_sync_quiet sync_wakeup_quiet same_election_law
      become_candidate_law split: Option.bind_splits)

lemma run_thread_sends:
  assumes "run_thread d th s = Some (t, out)" "(a, e) \<in> vote_sends t"
  shows "(a, e) \<in> vote_sends s \<or> e = currentTerm t \<and> a \<in> set (peers t)"
  using assms
proof (cases th)
  case TRequestVotes
  then show ?thesis
    using assms vote_sends_request_votes [of "currentTerm s" s]
    by (auto simp: request_votes_def spawn_all_eq)
qed (auto simp: vote_sends_simps split: Option.bind_splits)

lemma run_thread_calls:
  assumes "run_thread d th s = Some (t, out)" "k \<in> set out"
  shows "(\<exists>a e. th = TVoteSend a e \<and> t = s \<and> k = VoteReq (rid s) a (build_vote_request s) e) \<or>
    (\<exists>a req ctx. k = AppReq (rid s) a req ctx)"
  using assms by (cases th) (auto split: Option.bind_splits)

lemma thread_op_inv:
  assumes inv: "election_inv c" and op: "thread_op i k d c = Some c'"
  shows "election_inv c'"
proof -
  let ?s = "nodes c i"
  define s0 where "s0 = ?s\<lparr>threads := remove_nth k (threads ?s)\<rparr>"
  obtain t out where i: "i \<in> set (members c)" and k: "k < length (threads ?s)"
    and run: "run_thread d (threads ?s ! k) s0 = Some (t, out)"
    and c': "c' = put_node i t (c\<lparr>calls := calls c @ out, elections :=
        (if threads ?s ! k = TBecomeCandidate then elections c + 1 else elections c)\<rparr>)"
    using op unfolding s0_def by (rule thread_opE)
  have quiet: "same_election ?s s0" by (simp add: s0_def same_election_def)
  have law: "election_law ?s t" using quiet_election_law [OF quiet run_thread_law [OF run]] .
  note node = election_inv_node(3,1,2) [OF inv i]
  have s0_sends: "vote_sends s0 \<subseteq> vote_sends ?s"
    by (auto simp: vote_sends_threads s0_def dest: in_set_remove_nthD)
  show ?thesis
    unfolding c'
  proof (rule law_step [OF inv i law])
    fix a e
    assume "(a, e) \<in> vote_sends t"
    then have "(a, e) \<in> vote_sends s0 \<or> e = currentTerm t \<and> a \<in> set (peers t)"
      by (rule run_thread_sends [OF run])
    moreover have "set (peers t) \<subseteq> set (members c)"
      using law node(1) unfolding election_law_def node_ok_def by auto
    ultimately show "(a, e) \<in> vote_sends ?s \<or> e \<le> currentTerm t \<and> a \<in> set (members c) \<and> peers t \<noteq> []"
      using s0_sends by auto
  next
    fix x
    assume "x \<in> set (calls c @ out)"
    moreover have "call_ok (set (members c)) (granted (put_node i t c)) ((nodes c)(i := t)) x"
      if x: "x \<in> set out"
      using run_thread_calls [OF run x]
    proof (elim disjE exE conjE)
      fix a e
      assume "threads ?s ! k = TVoteSend a e" and t: "t = s0"
        and xeq: "x = VoteReq (rid s0) a (build_vote_request s0) e"
      then have "(a, e) \<in> vote_sends ?s" using k by (metis vote_sends_threads case_prodI mem_Collect_eq nth_mem)
      then have "e \<le> currentTerm ?s" "a \<in> set (members c)" "peers ?s \<noteq> []"
        using node_ok_sends [OF node(1)] by auto
      moreover have "rid s0 = i" "peers s0 = peers ?s" "currentTerm s0 = currentTerm ?s"
        using node(1) by (auto simp: s0_def node_ok_def)
      ultimately show ?thesis
        using i node(2,3) by (simp add: xeq t build_vote_request_def id_i64)
    qed auto
    ultimately show "x \<in> set (calls c) \<or>
        call_ok (set (members c)) (granted (put_node i t c)) ((nodes c)(i := t)) x" by auto
  qed
qed

text \<open>A request reaches its server.\<close>

lemma deliver_op_inv:
  assumes inv: "election_inv c" and op: "deliver_op k c = Some c'"
  shows "election_inv c'"
proof (cases "calls c ! k")
  case (VoteReq f t req et)
  let ?s = "nodes c t" and ?t = "fst (reply_vote req (nodes c t))"
    and ?rep = "snd (reply_vote req (nodes c t))"
  have k: "k < length (calls c)" and t: "t \<in> set (members c)"
    and c': "c' = put_node t ?t (c\<lparr>calls := (calls c)[k := VoteRep f t ?rep et], elections := elections c\<rparr>)"
    using op VoteReq
    by (auto simp: deliver_op_def service_RequestVote_def case_prod_beta split: if_splits)
  have ok: "call_ok (set (members c)) (granted c) (nodes c) (VoteReq f t req et)"
    using election_inv_call [OF inv nth_mem [OF k]] VoteReq by simp
  have f: "0 \<le> f" using ok election_inv_node(1) [OF inv] by simp
  have law: "election_law ?s ?t" by (rule reply_vote_law)
  show ?thesis
    unfolding c'
  proof (rule law_step [OF inv t law])
    fix x
    assume "x \<in> set ((calls c)[k := VoteRep f t ?rep et])"
    moreover have "call_ok (set (members c)) (granted (put_node t ?t c)) ((nodes c)(t := ?t)) (VoteRep f t ?rep et)"
    proof -
      have "(t, rv_term req, f) \<in> granted (put_node t ?t c)" if "rvr_vote_granted ?rep"
        using that ok f reply_vote_granted_state [of req ?s] by (simp add: reply_vote_granted_iff)
      moreover have "rv_term req \<le> currentTerm (((nodes c)(t := ?t)) f)"
        using ok election_law_mono [OF law] by (auto intro: order_trans)
      ultimately show ?thesis using ok by auto
    qed
    ultimately show "x \<in> set (calls c) \<or>
        call_ok (set (members c)) (granted (put_node t ?t c)) ((nodes c)(t := ?t)) x"
      using set_update_subset_insert by fastforce
  qed (simp add: vote_sends_simps)
next
  case (AppReq f t req ctx)
  then obtain s reply where k: "k < length (calls c)" and t: "t \<in> set (members c)"
    and ae: "append_entries req (nodes c t) = Some (s, reply)"
    and c': "c' = put_node t s (c\<lparr>calls := (calls c)[k := AppRep f t reply req ctx], elections := elections c\<rparr>)"
    using op by (auto simp: deliver_op_def service_AppendEntries_def split: if_splits Option.bind_splits)
  have old: "x \<in> set (calls c) \<or> call_ok M G N x"
    if "x \<in> set ((calls c)[k := AppRep f t reply req ctx])" for x M G N
    using that set_update_subset_insert by fastforce
  show ?thesis
    unfolding c' by (rule law_step [OF inv t append_entries_law [OF ae]])
      (simp add: vote_sends_append(1) [OF ae], rule old)
qed (use op in \<open>auto simp: deliver_op_def split: if_splits\<close>)

text \<open>A reply reaches the thread that waits for it. A counted vote extends the candidate's votes.\<close>

lemma counted_vote_inv:
  assumes inv: "election_inv c" and f: "f \<in> set (members c)"
    and ok: "call_ok (set (members c)) (granted c) (nodes c) (VoteRep f t reply et)"
    and counted: "counts_vote et reply (nodes c f)" and sub: "set cs \<subseteq> set (calls c)"
  shows "election_inv (put_node f (handle_vote_reply t et reply (nodes c f))
           (c\<lparr>calls := cs, elections := n\<rparr>))"
proof (rule put_node_inv [OF inv f])
  let ?M = "set (members c)" and ?s = "nodes c f" and ?u = "handle_vote_reply t et reply (nodes c f)"
  have t: "t \<in> ?M" "i64 t = t" "peers ?s \<noteq> []"
    using ok election_inv_node [OF inv] by (auto simp: id_i64)
  obtain T where "(t, T, f) \<in> granted c" "et \<le> T" "T \<le> currentTerm ?s"
    using ok counted by (auto simp: counts_vote_def)
  moreover have cand: "currentTerm ?s = et" "currentRole ?s = Candidate"
    using counted by (auto simp: counts_vote_def)
  ultimately have vote: "(t, currentTerm ?s, f) \<in> granted c" by simp
  note node = election_inv_node(3) [OF inv f]
  have eq: "?u = (if card (insert t (votes ?s)) > length (peers ?s) div 2
      then become_leader (?s\<lparr>votes := insert t (votes ?s)\<rparr>) else ?s\<lparr>votes := insert t (votes ?s)\<rparr>)"
    using handle_vote_reply_counted [OF counted, of t] t by simp
  have len: "length (peers ?s) = card ?M - 1"
    using node t f unfolding node_ok_def by (metis List.finite_set card_Diff_singleton distinct_card)
  have frame: "rid ?u = rid ?s" "peer_addrs ?u = peer_addrs ?s" "peers ?u = peers ?s"
    "currentTerm ?u = currentTerm ?s" "votedFor ?u = votedFor ?s" "votes ?u = insert t (votes ?s)"
    "vote_sends ?u = vote_sends ?s"
    by (simp_all add: vote_sends_simps) (simp_all add: eq)
  show "vote_step ?s ?u" "peers ?s \<noteq> [] \<Longrightarrow> peers ?u \<noteq> []" by (simp_all add: vote_step_def frame)
  have "votes ?u \<subseteq> ?M \<and> (\<forall>v \<in> votes ?u. (v, currentTerm ?u, f) \<in> granted c)"
    using node t vote cand by (simp add: node_ok_def frame)
  moreover have "card (votes ?u) > (card ?M - 1) div 2" if "currentRole ?u = Leader"
    using that cand len unfolding frame by (auto simp: eq split: if_splits)
  ultimately show "node_ok ?M (granted (put_node f ?u c)) f ?u"
    using node unfolding node_ok_def frame by (auto simp: frame)
  fix k
  assume "k \<in> set cs"
  then have "call_ok ?M (granted c) (nodes c) k" using election_inv_call [OF inv] sub by blast
  then show "call_ok ?M (granted (put_node f ?u c)) ((nodes c)(f := ?u)) k"
    by (rule call_ok_mono) (auto simp: frame)
qed

lemma return_op_inv:
  assumes inv: "election_inv c" and op: "return_op k c = Some c'"
  shows "election_inv c'"
proof (cases "calls c ! k")
  case (VoteRep f t reply et)
  let ?u = "handle_vote_reply t et reply (nodes c f)"
  have k: "k < length (calls c)" and f: "f \<in> set (members c)"
    and c': "c' = put_node f ?u (c\<lparr>calls := remove_nth k (calls c), elections := elections c\<rparr>)"
    using op VoteRep by (auto simp: return_op_def split: if_splits)
  have ok: "call_ok (set (members c)) (granted c) (nodes c) (VoteRep f t reply et)"
    using election_inv_call [OF inv nth_mem [OF k]] VoteRep by simp
  show ?thesis
  proof (cases "counts_vote et reply (nodes c f)")
    case True
    then show ?thesis unfolding c' by (rule counted_vote_inv [OF inv f ok _ set_remove_nth])
  next
    case False
    show ?thesis
      unfolding c' by (rule law_step [OF inv f handle_vote_reply_uncounted [OF False]])
        (auto simp: vote_sends_simps dest: in_set_remove_nthD)
  qed
next
  case (AppRep f t reply req ctx)
  then obtain s where f: "f \<in> set (members c)"
    and h: "handle_append_reply t req ctx reply (nodes c f) = Some s"
    and c': "c' = put_node f s (c\<lparr>calls := remove_nth k (calls c), elections := elections c\<rparr>)"
    using op by (auto simp: return_op_def split: if_splits Option.bind_splits)
  show ?thesis
    unfolding c' by (rule law_step [OF inv f handle_append_reply_law [OF h]])
      (auto simp: vote_sends_append(2) [OF h] dest: in_set_remove_nthD)
qed (use op in \<open>auto simp: return_op_def split: if_splits\<close>)

lemma exec_inv:
  assumes inv: "election_inv c" and ex: "exec ev c = Some c'"
  shows "election_inv c'"
proof (cases ev)
  case (EvRun i d)
  then show ?thesis using ex run_inv [OF inv, of i d] by (auto split: if_splits)
next
  case (EvThread i k d)
  then show ?thesis using ex thread_op_inv [OF inv] by simp
next
  case (EvDeliver k)
  then show ?thesis using ex deliver_op_inv [OF inv] by simp
next
  case (EvReturn k)
  then show ?thesis using ex return_op_inv [OF inv] by simp
next
  case (EvFail k)
  then have "c' = c\<lparr>calls := remove_nth k (calls c)\<rparr>" using ex by (auto split: if_splits)
  then show ?thesis
    using inv by (auto simp: election_inv_def Let_def dest: in_set_remove_nthD)
qed (use ex in \<open>auto intro!: local_op_inv [OF inv] same_election_law quiet_ops propose_sync_quiet
    simp: vote_sends_simps\<close>)

lemma init_inv:
  assumes "wf_configs cfgs"
  shows "election_inv (init_cluster cfgs garbage)"
proof -
  let ?c = "init_cluster cfgs garbage"
  have "0 \<le> i \<and> i < 2 ^ 63 \<and> node_ok (set (members ?c)) {} i (nodes ?c i)" if i: "i \<in> set (members ?c)" for i
  proof -
    obtain cfg where find: "find (\<lambda>cfg. cfg_id cfg = i) cfgs = Some cfg"
      using i by (cases "find (\<lambda>cfg. cfg_id cfg = i) cfgs") (auto simp: find_None_iff)
    then have cfg: "cfg \<in> set cfgs" "cfg_id cfg = i" by (auto simp: find_Some_iff)
    have "nodes ?c i = Raft_new cfg (garbage i)" using find cfg(2) by (simp add: nodes_init)
    with cfg assms show ?thesis
      by (auto simp: node_ok_def Raft_new_def wf_configs_def vote_sends_threads)
  qed
  then show ?thesis
    by (simp add: election_inv_def Let_def history_ok_def elected_ok_def)
qed

interpretation election: inductive_invariant "cluster_init cfgs" cluster_step election_inv for cfgs
  by unfold_locales (auto simp: cluster_init_def cluster_step_iff intro: init_inv exec_inv)

section \<open>Election safety\<close>

lemma members_invariant: "reachable cfgs c \<Longrightarrow> members c = map cfg_id cfgs"
proof (induction rule: reach.induct)
  case (step c d)
  then obtain ev where "exec ev c = Some d" by (auto simp: cluster_step_iff)
  then have "members d = members c"
    by (cases ev) (auto simp: local_op_def thread_op_def deliver_op_def return_op_def Let_def
        split: if_splits Option.bind_splits call.splits prod.splits)
  with step show ?case by simp
qed (auto simp: cluster_init_def init_cluster_def)

lemma card_members: "reachable cfgs c \<Longrightarrow> wf_configs cfgs \<Longrightarrow> card (set (members c)) = length cfgs"
  by (simp only: members_invariant wf_configs_def) (simp add: distinct_card flip: set_map)

text \<open>
  Two elections in one term elect the same node: at any time, at most one node has ever been an
  active leader of a given term.
\<close>

lemma elected_unique:
  assumes "election_inv c" "odd (card (set (members c)))" "(T, i) \<in> elected c" "(T, j) \<in> elected c"
  shows "i = j"
proof -
  let ?M = "set (members c)"
  have "\<exists>Q. vote_quorum ?M Q \<and> (\<forall>v \<in> Q. (v, T, x) \<in> granted c)" if "(T, x) \<in> elected c" for x
    using assms(1,2) that by (fastforce simp: election_inv_def Let_def elected_ok_def vote_quorum_def)
  then obtain P Q where "vote_quorum ?M P" "\<forall>v \<in> P. (v, T, i) \<in> granted c"
    "vote_quorum ?M Q" "\<forall>v \<in> Q. (v, T, j) \<in> granted c"
    using assms(3,4) by blast
  moreover have "x = y" if "(v, T, x) \<in> granted c" "(v, T, y) \<in> granted c" for v x y
    using assms(1) that unfolding election_inv_def Let_def history_ok_def by blast
  ultimately show ?thesis
    using vq.unique_winner [of ?M P Q "\<lambda>v x. (v, T, x) \<in> granted c" i j] by blast
qed

text \<open>A live leader is in the history.\<close>

definition leaders_recorded :: "cluster \<Rightarrow> bool" where
  "leaders_recorded c \<longleftrightarrow>
     (\<forall>i \<in> set (members c). active (nodes c i) \<and> currentRole (nodes c i) = Leader \<longrightarrow>
        (currentTerm (nodes c i), i) \<in> elected c)"

text \<open>
  Every event either stores one member's new state or only drops a call: what holds for the stored
  node and is kept for the others holds after the event.
\<close>

lemma exec_shape:
  assumes "exec ev c = Some c'"
  obtains (put) i s cs n where "i \<in> set (members c)"
    "c' = put_node i s (c\<lparr>calls := cs, elections := n\<rparr>)"
  | (drop) cs where "c' = c\<lparr>calls := cs\<rparr>"
proof (cases ev)
  case (EvFail k)
  then show ?thesis using assms drop by (auto split: if_splits)
next
  case (EvThread i k d)
  then have "thread_op i k d c = Some c'" using assms by simp
  then show ?thesis by (rule thread_opE) (rule put)
next
  case (EvDeliver k)
  have "\<exists>i s cs. i \<in> set (members c) \<and> c' = put_node i s (c\<lparr>calls := cs, elections := elections c\<rparr>)"
    using assms EvDeliver
    by (auto simp: deliver_op_def split: if_splits Option.bind_splits call.splits prod.splits)
  then show ?thesis using put by blast
next
  case (EvReturn k)
  have "\<exists>i s cs. i \<in> set (members c) \<and> c' = put_node i s (c\<lparr>calls := cs, elections := elections c\<rparr>)"
    using assms EvReturn
    by (auto simp: return_op_def split: if_splits Option.bind_splits call.splits)
  then show ?thesis using put by blast
qed (use assms in \<open>auto simp: local_op_def split: if_splits
    intro!: put [where cs = "calls c" and n = "elections c"]\<close>)

lemma exec_leaders_recorded: "leaders_recorded c \<Longrightarrow> exec ev c = Some c' \<Longrightarrow> leaders_recorded c'"
  by (erule exec_shape) (auto simp: leaders_recorded_def)

interpretation recorded: inductive_invariant "cluster_init cfgs" cluster_step leaders_recorded for cfgs
proof
  fix c
  assume "cluster_init cfgs c"
  then show "leaders_recorded c"
    by (auto simp: cluster_init_def leaders_recorded_def nodes_init Raft_new_def split: option.splits)
qed (auto simp: cluster_step_iff intro: exec_leaders_recorded)

lemma reachable_wf: "reachable cfgs c \<Longrightarrow> wf_configs cfgs"
  by (induction rule: reach.induct) (auto simp: cluster_init_def)

lemmas reachable_facts = election.always recorded.always card_members [OF _ reachable_wf]

text \<open>Over a whole execution a node votes for at most one candidate in a term, its own candidacy included.\<close>

lemma one_vote_per_term:
  assumes "reachable cfgs c" "(v, T, x) \<in> granted c" "(v, T, y) \<in> granted c"
  shows "x = y"
  using election.always [OF assms(1)] assms(2,3) unfolding election_inv_def Let_def history_ok_def by blast

end
