(* ===== verification/NodeLaws.thy ===== *)
theory NodeLaws
  imports ElectionSafety
begin

text \<open>
  Laws a node keeps over a whole execution, whatever the schedule. The locale \<open>step_law\<close> is the
  interface between the operations of one node and the cluster: a relation that every operation of
  class \<^verbatim>\<open>Raft\<close> keeps holds between any two states of the node along an execution. It is
  interpreted for the vote law (terms never decrease, a vote is never changed within its term) and
  for the apply law (results are handed over once each, in index order, and never taken back).
\<close>

section \<open>From operations to executions\<close>

locale step_law =
  fixes law :: "raft \<Rightarrow> raft \<Rightarrow> bool"
  assumes law_refl: "law s s"
    and law_trans: "law s t \<Longrightarrow> law t u \<Longrightarrow> law s u"
    and law_threads: "law s (s\<lparr>threads := ts\<rparr>)"
    and law_start_server: "law s (serving s)"
    and law_stop_server: "law s (stop_server s)"
    and law_run: "law s (run d (connect_peers s))"
    and law_kill: "law s (kill s)"
    and law_propose: "law s (fst (propose data s))"
    and law_propose_sync: "law s (fst (propose_sync data s))"
    and law_thread: "run_thread d th s = Some (s', out) \<Longrightarrow> law s s'"
    and law_reply_vote: "law s (fst (reply_vote req s))"
    and law_append_entries: "append_entries areq s = Some (s', arep) \<Longrightarrow> law s s'"
    and law_vote_reply: "law s (handle_vote_reply target et vrep s)"
    and law_append_reply: "handle_append_reply target areq ctx arep s = Some s' \<Longrightarrow> law s s'"
begin

lemma law_put: "law (nodes c j) s \<Longrightarrow> law (nodes c i) (nodes (put_node j s (c\<lparr>calls := cs, elections := n\<rparr>)) i)"
  by (simp add: law_refl)

lemma deliver_law: "deliver_op k c = Some c' \<Longrightarrow> law (nodes c i) (nodes c' i)"
  by (auto simp: deliver_op_def law_refl service_RequestVote_def service_AppendEntries_def
      split: if_splits call.splits prod.splits Option.bind_splits
      intro: law_append_entries) (metis fst_conv law_reply_vote)+

lemma return_law: "return_op k c = Some c' \<Longrightarrow> law (nodes c i) (nodes c' i)"
  by (auto simp: return_op_def law_refl split: if_splits call.splits Option.bind_splits
      intro: law_append_reply law_vote_reply)

lemma local_law:
  assumes "local_op j f c = Some c'" "\<And>s. law s (f s)"
  shows "law (nodes c i) (nodes c' i)"
  using assms by (auto simp: local_op_def law_refl split: if_splits)

lemma thread_law: "thread_op j k d c = Some c' \<Longrightarrow> law (nodes c i) (nodes c' i)"
  by (elim thread_opE) (use law_put law_trans law_threads law_thread in blast)

lemma exec_law: "exec ev c = Some c' \<Longrightarrow> law (nodes c i) (nodes c' i)"
proof (cases ev)
  case (EvThread j k d)
  then show "exec ev c = Some c' \<Longrightarrow> law (nodes c i) (nodes c' i)" by (simp add: thread_law)
next
  case (EvDeliver k)
  then show "exec ev c = Some c' \<Longrightarrow> law (nodes c i) (nodes c' i)" by (simp add: deliver_law)
next
  case (EvReturn k)
  then show "exec ev c = Some c' \<Longrightarrow> law (nodes c i) (nodes c' i)" by (simp add: return_law)
qed (auto simp: law_refl law_start_server law_stop_server law_run law_kill law_propose law_propose_sync
    split: if_splits elim!: local_law)

lemma execs_law: "execs evs c = Some c' \<Longrightarrow> law (nodes c i) (nodes c' i)"
proof (induction evs arbitrary: c)
  case (Cons ev evs)
  then obtain d where "exec ev c = Some d" "execs evs d = Some c'" by (auto split: option.splits)
  with Cons.IH exec_law law_trans show ?case by blast
qed (simp add: law_refl)

text \<open>A node property the law keeps is an invariant of every execution.\<close>

lemma reachable_law:
  assumes "reachable cfgs c" "\<And>cfg r. P (Raft_new cfg r)" "\<And>s t. P s \<Longrightarrow> law s t \<Longrightarrow> P t"
  shows "P (nodes c i)"
  using assms(1)
proof (induction rule: reach.induct)
  case (start c)
  then show ?case using assms(2) by (auto simp: cluster_init_def nodes_init split: option.split)
next
  case (step c d)
  then show ?case using exec_law assms(3) by (auto simp: cluster_step_iff)
qed

end

section \<open>Terms and votes\<close>

definition vote_law :: "raft \<Rightarrow> raft \<Rightarrow> bool" where
  "vote_law s t \<longleftrightarrow> rid t = rid s \<and> peer_addrs t = peer_addrs s \<and> vote_step s t"

lemma election_vote_law: "election_law s t \<Longrightarrow> vote_law s t"
  by (simp add: election_law_def vote_law_def)

lemma same_vote_law:
  "rid t = rid s \<Longrightarrow> peer_addrs t = peer_addrs s \<Longrightarrow> currentTerm t = currentTerm s \<Longrightarrow>
   votedFor t = votedFor s \<Longrightarrow> vote_law s t"
  by (simp add: vote_law_def vote_step_def)

lemma vote_law_trans: "vote_law s t \<Longrightarrow> vote_law t u \<Longrightarrow> vote_law s u"
  unfolding vote_law_def vote_step_def by (metis order_antisym order_trans)

lemma handle_vote_reply_vote_law: "vote_law s (handle_vote_reply target et rep s)"
proof (cases "counts_vote et rep s")
  case True
  then show ?thesis by (simp add: handle_vote_reply_counted same_vote_law)
qed (simp add: handle_vote_reply_uncounted election_vote_law)

interpretation votes: step_law vote_law
proof
  fix s :: raft and d t s' out
  assume "run_thread d t s = Some (s', out)"
  then show "vote_law s s'" by (intro election_vote_law run_thread_law)
qed (use election_vote_law same_election_law quiet_ops propose_sync_quiet reply_vote_law
    append_entries_law handle_append_reply_law handle_vote_reply_vote_law vote_law_trans
    in \<open>blast intro: same_vote_law | simp add: same_vote_law\<close>)+

section \<open>Applied results\<close>

definition apply_law :: "raft \<Rightarrow> raft \<Rightarrow> bool" where
  "apply_law s t \<longleftrightarrow>
     lastApplied s \<le> lastApplied t \<and>
     (\<exists>rs. ready_queue t = ready_queue s @ rs \<and>
        map ar_index rs = map u64 [lastApplied s + 1..lastApplied t] \<and> (\<forall>r \<in> set rs. ar_valid r))"

lemma same_apply_law: "lastApplied t = lastApplied s \<Longrightarrow> ready_queue t = ready_queue s \<Longrightarrow> apply_law s t"
  by (simp add: apply_law_def)

lemma apply_law_trans:
  assumes "apply_law s t" "apply_law t u"
  shows "apply_law s u"
proof -
  obtain rs where rs: "ready_queue t = ready_queue s @ rs" "\<forall>r \<in> set rs. ar_valid r"
    "map ar_index rs = map u64 [lastApplied s + 1..lastApplied t]" using assms(1) by (auto simp: apply_law_def)
  obtain qs where qs: "ready_queue u = ready_queue t @ qs" "\<forall>r \<in> set qs. ar_valid r"
    "map ar_index qs = map u64 [lastApplied t + 1..lastApplied u]" using assms(2) by (auto simp: apply_law_def)
  have le: "lastApplied s \<le> lastApplied t" "lastApplied t \<le> lastApplied u"
    using assms by (simp_all add: apply_law_def)
  have "[lastApplied s + 1..lastApplied u] =
      [lastApplied s + 1..lastApplied t] @ [lastApplied t + 1..lastApplied u]"
    using upto_split2 [of "lastApplied s + 1" "lastApplied t" "lastApplied u"] le
    by (cases "lastApplied s = lastApplied t") auto
  with rs qs le show ?thesis unfolding apply_law_def by (intro conjI exI [of _ "rs @ qs"]) auto
qed

lemma apply_one_law: "i = lastApplied s + 1 \<Longrightarrow> apply_law s (apply_one i e s)"
  by (simp add: apply_law_def)

lemma apply_loop_law: "apply_loop i s = Some t \<Longrightarrow> i = lastApplied s + 1 \<Longrightarrow> apply_law s t"
proof (induction i s rule: apply_loop.induct)
  case (1 i s)
  show ?case
  proof (cases "i \<le> commitIndex s")
    case True
    then obtain e where e: "vec_at (rlog s) (i - 1) = Some e"
      and rec: "apply_loop (i + 1) (apply_one i e s) = Some t"
      using 1(2) by (auto simp: apply_loop.simps [of i s] split: Option.bind_splits)
    have "apply_law (apply_one i e s) t" using 1(1) [OF True e rec] 1(3) by simp
    with apply_one_law [OF 1(3)] show ?thesis by (rule apply_law_trans)
  next
    case False
    with 1(2) show ?thesis by (simp add: apply_loop.simps [of i s] same_apply_law)
  qed
qed

lemma apply_entries_law: "apply_entries s = Some t \<Longrightarrow> apply_law s t"
  by (auto simp: apply_entries_def same_apply_law apply_loop_law split: if_splits)

lemma apply_law_from: "apply_law s t \<Longrightarrow> lastApplied s = lastApplied r \<Longrightarrow> ready_queue s = ready_queue r \<Longrightarrow> apply_law r t"
  by (simp add: apply_law_def)

lemma append_entries_apply_law: "append_entries req s = Some (t, rep) \<Longrightarrow> apply_law s t"
  by (erule append_entries_shape)
    (auto intro: same_apply_law apply_law_from [OF apply_entries_law])

lemma backtrack_apply_law: "backtrack target ctx rep s = Some t \<Longrightarrow> apply_law s t"
  by (auto simp: backtrack_def Let_def split: option.splits Option.bind_splits if_splits intro!: same_apply_law)

lemma advance_commit_apply_law: "advance_commit target req ctx s = Some t \<Longrightarrow> apply_law s t"
  by (auto simp: advance_commit_def Let_def split: Option.bind_splits if_splits
      intro: same_apply_law apply_law_from [OF apply_entries_law])

lemma handle_append_reply_apply_law:
  assumes "handle_append_reply target req ctx rep s = Some t"
  shows "apply_law s t"
  using assms
proof (cases rule: handle_append_reply_cases)
  case (2 s1)
  have "apply_law s1 t"
    using 2(2) by (auto intro: same_apply_law backtrack_apply_law advance_commit_apply_law)
  then show ?thesis by (rule apply_law_from) (simp_all add: 2(1))
qed (simp add: same_apply_law)

lemma run_thread_apply_law: "run_thread d th s = Some (t, out) \<Longrightarrow> apply_law s t"
  by (cases th) (auto intro!: same_apply_law simp: start_election_timer_def start_heartbeat_timer_def start_timer_def
      become_candidate_def request_votes_def spawn_all_eq send_entries_def sync_wakeup_def sync_finish_def Let_def
      split: Option.bind_splits)

interpretation applied: step_law apply_law
proof
  fix s :: raft and target et rep
  show "apply_law s (handle_vote_reply target et rep s)"
    by (rule same_apply_law) (simp_all add: handle_vote_reply_def Let_def)
next
  fix s :: raft and data
  show "apply_law s (fst (propose data s))" "apply_law s (fst (propose_sync data s))"
    by (auto intro!: same_apply_law
        simp: propose_def propose_sync_def push_proposal_def sync_finish_def Let_def)
qed (auto intro: apply_law_trans same_apply_law append_entries_apply_law handle_append_reply_apply_law
    run_thread_apply_law simp: serving_def stop_server_def kill_def)

definition applied_in_order :: "raft \<Rightarrow> bool" where
  "applied_in_order s \<longleftrightarrow>
     0 \<le> lastApplied s \<and> map ar_index (ready_queue s) = map u64 [1..lastApplied s] \<and>
     (\<forall>r \<in> set (ready_queue s). ar_valid r)"

lemma applied_in_order_law:
  assumes "applied_in_order s" "apply_law s t"
  shows "applied_in_order t"
proof -
  have "apply_law (s\<lparr>lastApplied := 0, ready_queue := []\<rparr>) s"
    using assms(1) by (simp add: applied_in_order_def apply_law_def)
  from apply_law_trans [OF this assms(2)] show ?thesis by (simp add: applied_in_order_def apply_law_def)
qed

lemma reachable_applied_in_order: "reachable cfgs c \<Longrightarrow> applied_in_order (nodes c i)"
  by (erule applied.reachable_law) (simp add: applied_in_order_def Raft_new_def, rule applied_in_order_law)

end
