(* ===== verification/RaftReplication.thy ===== *)
theory RaftReplication
  imports RaftVoting
begin

text \<open>
  Functional behaviour of log replication on one pair of nodes: applying committed entries, the
  follower's \<^verbatim>\<open>append_entries\<close> on every branch, the leader's handling of replies, and the
  repair loop between a leader and a follower.
\<close>

section \<open>Applying committed entries\<close>

definition results_of :: "entry list \<Rightarrow> i64_t \<Rightarrow> i64_t \<Rightarrow> apply_result list" where
  "results_of log a b =
     map (\<lambda>i. \<lparr>ar_valid = True, ar_data = e_command (log ! nat (i - 1)), ar_index = u64 i\<rparr>) [a..b]"

lemma apply_loop_correct:
  assumes "1 \<le> i" "commitIndex s \<le> log_size s" "lastApplied s = i - 1"
  shows "\<exists>t. apply_loop i s = Some t \<and> lastApplied t = max (i - 1) (commitIndex s) \<and>
    ready_queue t = ready_queue s @ results_of (rlog s) i (commitIndex s)"
  using assms
proof (induction i s rule: apply_loop.induct)
  case (1 i s)
  show ?case
  proof (cases "i \<le> commitIndex s")
    case False
    then show ?thesis using 1(4) by (subst apply_loop.simps) (auto simp: results_of_def)
  next
    case True
    let ?e = "rlog s ! nat (i - 1)"
    have at: "vec_at (rlog s) (i - 1) = Some ?e"
      using True 1(2,3) by (simp add: vec_at_inside log_size_def)
    have "\<exists>t. apply_loop (i + 1) (apply_one i ?e s) = Some t \<and>
        lastApplied t = max (i + 1 - 1) (commitIndex (apply_one i ?e s)) \<and>
        ready_queue t = ready_queue (apply_one i ?e s) @
          results_of (rlog (apply_one i ?e s)) (i + 1) (commitIndex (apply_one i ?e s))"
      by (rule 1(1) [OF True at]) (use 1(2-4) in \<open>auto simp: log_size_def\<close>)
    then obtain t where "apply_loop (i + 1) (apply_one i ?e s) = Some t"
      "lastApplied t = commitIndex s"
      "ready_queue t = ready_queue s @
         \<lparr>ar_valid = True, ar_data = e_command ?e, ar_index = u64 i\<rparr> #
         results_of (rlog s) (i + 1) (commitIndex s)"
      using True by auto
    moreover have "results_of (rlog s) i (commitIndex s) =
        \<lparr>ar_valid = True, ar_data = e_command ?e, ar_index = u64 i\<rparr> #
        results_of (rlog s) (i + 1) (commitIndex s)"
      using True by (simp add: results_of_def upto_rec1)
    moreover have "apply_loop i s = apply_loop (i + 1) (apply_one i ?e s)"
      using True at by (subst apply_loop.simps) simp
    ultimately show ?thesis using True by simp
  qed
qed

text \<open>
  Applying hands over exactly the entries between \<^verbatim>\<open>lastApplied\<close> and \<^verbatim>\<open>commitIndex\<close>, once and
  in order; with a commit index beyond the log (the exception) it does nothing.
\<close>

lemma apply_entries_correct:
  assumes "0 \<le> lastApplied s" "in_i64 (commitIndex s)" "log_size s < 2 ^ 63"
  shows "\<exists>t. apply_entries s = Some t \<and>
    (if 0 \<le> commitIndex s \<and> commitIndex s \<le> log_size s \<and> lastApplied s < commitIndex s
     then lastApplied t = commitIndex s \<and>
       ready_queue t = ready_queue s @ results_of (rlog s) (lastApplied s + 1) (commitIndex s)
     else t = s)"
proof (cases "0 \<le> commitIndex s")
  case False
  then have "u64 (commitIndex s) > log_size s" using u64_negative [OF assms(2)] assms(3) by simp
  with False show ?thesis by (simp add: apply_entries_def)
next
  case True
  then have u: "u64 (commitIndex s) = commitIndex s"
    using assms(2) by (intro u64_id) (auto simp: in_i64_def)
  show ?thesis
  proof (cases "commitIndex s \<le> log_size s \<and> lastApplied s < commitIndex s")
    case go: True
    obtain t where "apply_loop (lastApplied s + 1) s = Some t"
      "lastApplied t = max (lastApplied s + 1 - 1) (commitIndex s)"
      "ready_queue t = ready_queue s @ results_of (rlog s) (lastApplied s + 1) (commitIndex s)"
      using apply_loop_correct [of "lastApplied s + 1" s] assms(1) go by auto
    with True u go show ?thesis by (simp add: apply_entries_def)
  next
    case False
    with True u show ?thesis by (auto simp: apply_entries_def)
  qed
qed

lemma apply_entries_defined:
  assumes "0 \<le> lastApplied s" "in_i64 (commitIndex s)" "log_size s < 2 ^ 63"
  obtains t where "apply_entries s = Some t"
  using apply_entries_correct [OF assms] by blast

section \<open>The follower\<close>

text \<open>The consistency check, on indices that are in range or beyond the log.\<close>

definition prev_agrees :: "append_entries_request \<Rightarrow> entry list \<Rightarrow> bool" where
  "prev_agrees r log \<longleftrightarrow>
     ae_prev_log_index r \<le> 0 \<or>
     ae_prev_log_index r \<le> int (length log) \<and>
       e_term (log ! nat (ae_prev_log_index r - 1)) = ae_prev_log_term r"

lemma prev_mismatch_iff:
  assumes "in_i64 (ae_prev_log_index r)"
  shows "prev_mismatch r log = Some (\<not> prev_agrees r log)"
proof (cases "ae_prev_log_index r > 0")
  case True
  then have "u64 (ae_prev_log_index r - 1) = ae_prev_log_index r - 1"
    using assms by (intro u64_id) (auto simp: in_i64_def)
  with True show ?thesis by (auto simp: prev_mismatch_def prev_agrees_def vec_at_def)
qed (simp add: prev_mismatch_def prev_agrees_def)

text \<open>
  A conflict report: the follower's log ends before the probed entry, or the probed term is named
  with the first index of its run.
\<close>

definition conflict_report :: "append_entries_request \<Rightarrow> entry list \<Rightarrow> conflict_info \<Rightarrow> bool" where
  "conflict_report r log info \<longleftrightarrow>
     (let p = ae_prev_log_index r; ci = conflict_index info; ct = conflict_term info in
      1 \<le> ci \<and> ci \<le> p \<and>
      (if p > int (length log) then ct = 0 \<and> ci = int (length log) + 1
       else ct = e_term (log ! nat (p - 1)) \<and> ct \<noteq> ae_prev_log_term r \<and>
            (\<forall>j. ci \<le> j \<and> j \<le> p \<longrightarrow> e_term (log ! nat (j - 1)) = ct) \<and>
            (1 < ci \<longrightarrow> e_term (log ! nat (ci - 2)) \<noteq> ct)))"

lemma conflict_report_at:
  assumes "1 \<le> ci" "ci \<le> p" "p \<le> int (length log)" "p = ae_prev_log_index r"
    and "ct = e_term (log ! nat (p - 1))" "ct \<noteq> ae_prev_log_term r"
    and "\<And>j. ci \<le> j \<Longrightarrow> j \<le> p \<Longrightarrow> e_term (log ! nat (j - 1)) = ct"
    and "1 < ci \<longrightarrow> e_term (log ! nat (ci - 2)) \<noteq> ct"
  shows "conflict_report r log \<lparr>conflict_term = ct, conflict_index = ci\<rparr>"
  unfolding conflict_report_def Let_def assms(4) [symmetric]
  using assms(1-3,6,8) assms(5) [symmetric] assms(7) by simp

lemma make_conflict_info_correct:
  assumes "in_i64 (ae_prev_log_index r)" "\<not> prev_agrees r log"
  shows "\<exists>info. make_conflict_info r log = Some info \<and> conflict_report r log info"
proof -
  define p where "p = ae_prev_log_index r"
  have p: "p > 0" using assms(2) by (auto simp: prev_agrees_def p_def)
  then have u: "u64 (p - 1) = p - 1"
    using assms(1) by (intro u64_id) (auto simp: in_i64_def p_def)
  show ?thesis
  proof (cases "p > int (length log)")
    case True
    with p u show ?thesis by (simp add: make_conflict_info_def conflict_report_def p_def [symmetric])
  next
    case False
    define ct where "ct = e_term (log ! nat (p - 1))"
    have "0 \<le> p - 1" "p - 1 < int (length log)" using p False by simp_all
    from conflict_scan_first [OF this ct_def [symmetric], of p]
    obtain ci where ci: "conflict_scan log ct p (p - 1) = Some ci" "1 \<le> ci" "ci \<le> p"
      and run: "\<And>j. ci - 1 \<le> j \<Longrightarrow> j \<le> p - 1 \<Longrightarrow> e_term (log ! nat j) = ct"
      and before: "1 < ci \<longrightarrow> e_term (log ! nat (ci - 2)) \<noteq> ct"
      by (metis diff_add_cancel)
    have neq: "ct \<noteq> ae_prev_log_term r"
      using assms(2) False by (simp add: prev_agrees_def p_def ct_def)
    have "conflict_report r log \<lparr>conflict_term = ct, conflict_index = ci\<rparr>"
    proof (rule conflict_report_at [OF ci(2,3) _ p_def ct_def neq _ before])
      show "e_term (log ! nat (j - 1)) = ct" if "ci \<le> j" "j \<le> p" for j
        by (rule run) (use that in simp_all)
    qed (use False in simp_all)
    moreover have "vec_at log (p - 1) = Some (log ! nat (p - 1))"
      using p False by (simp add: vec_at_inside)
    then have "make_conflict_info r log = Some \<lparr>conflict_term = ct, conflict_index = ci\<rparr>"
      using p u False ci(1) by (simp add: make_conflict_info_def p_def [symmetric] ct_def [symmetric])
    ultimately show ?thesis by blast
  qed
qed

text \<open>A node state whose counters are in range.\<close>

definition node_sane :: "raft \<Rightarrow> bool" where
  "node_sane s \<longleftrightarrow>
     0 \<le> lastApplied s \<and> 0 \<le> commitIndex s \<and> in_i64 (commitIndex s) \<and> log_size s < 2 ^ 63"

definition request_sane :: "append_entries_request \<Rightarrow> raft \<Rightarrow> bool" where
  "request_sane r s \<longleftrightarrow>
     in_i64 (ae_prev_log_index r) \<and> in_i64 (ae_leader_commit r) \<and>
     log_size s + int (length (ae_entries r)) < 2 ^ 63"

lemma append_entries_stale:
  assumes "active s" "ae_term r < currentTerm s"
  shows "append_entries r s =
    Some (s, \<lparr>aer_term = currentTerm s, aer_success = False, aer_conflict_info = None\<rparr>)"
  using assms by (simp add: append_entries_def)

lemma append_entries_reject:
  assumes "active s" "currentTerm s \<le> ae_term r" "in_i64 (ae_prev_log_index r)"
    and "\<not> prev_agrees r (rlog s)"
  shows "\<exists>info. conflict_report r (rlog s) info \<and>
    append_entries r s =
      Some (accept_leader r s,
        \<lparr>aer_term = ae_term r, aer_success = False, aer_conflict_info = Some info\<rparr>)"
proof -
  obtain info where "make_conflict_info r (rlog s) = Some info" "conflict_report r (rlog s) info"
    using make_conflict_info_correct [OF assms(3,4)] by blast
  moreover have "prev_mismatch r (rlog s) = Some True" using prev_mismatch_iff [OF assms(3)] assms(4) by simp
  ultimately show ?thesis
    using assms(1,2) by (intro exI [of _ info]) (simp add: append_entries_def Let_def max_def)
qed

text \<open>The log after an accepted request.\<close>

definition accepted_log :: "append_entries_request \<Rightarrow> entry list \<Rightarrow> entry list" where
  "accepted_log r log =
     (if ae_prev_log_index r < 0 then log @ ae_entries r
      else merge_log log (nat (ae_prev_log_index r)) (ae_entries r))"

lemma overwrite_log_negative:
  assumes "in_i64 p" "p < 0" "int (length log) < 2 ^ 63"
  shows "overwrite_log log p es = Some (log @ es)"
proof -
  have "\<not> u64 (p + 0) < int (length log)" using u64_negative [OF assms(1,2)] assms(3) by simp
  then have "overwrite_scan log p es 0 = Some (log, 0)" by (subst overwrite_scan.simps) simp
  then show ?thesis by (simp add: overwrite_log_def append_remaining_eq)
qed

lemma merge_log_no_entries: "n \<le> length log \<Longrightarrow> merge_log log n [] = log"
  by (simp add: merge_log_def)

lemma accepted_log_computed:
  assumes "in_i64 (ae_prev_log_index r)" "prev_agrees r log" "int (length log) < 2 ^ 63"
  shows "(if ae_entries r \<noteq> [] then overwrite_log log (ae_prev_log_index r) (ae_entries r)
          else Some log) = Some (accepted_log r log)"
proof (cases "ae_prev_log_index r < 0")
  case True
  then show ?thesis using overwrite_log_negative [OF assms(1) _ assms(3)] by (simp add: accepted_log_def)
next
  case False
  then have "ae_prev_log_index r \<le> int (length log)" using assms(2) by (auto simp: prev_agrees_def)
  with False show ?thesis
    using overwrite_log_merge [of "ae_prev_log_index r" log] assms(3)
    by (simp add: accepted_log_def merge_log_no_entries)
qed

lemma length_merge_log: "length (merge_log log n es) \<le> length log + length es"
proof -
  have "length (merge_suffix xs ys) \<le> length xs + length ys" for xs ys
    by (induction xs ys rule: merge_suffix.induct) auto
  from this [of "drop n log" es] show ?thesis by (simp add: merge_log_def)
qed

lemma length_accepted_log: "length (accepted_log r log) \<le> length log + length (ae_entries r)"
  using length_merge_log by (simp add: accepted_log_def)

lemma append_entries_accept:
  assumes "active s" "currentTerm s \<le> ae_term r" "prev_agrees r (rlog s)"
    and sane: "node_sane s" "request_sane r s"
  shows "\<exists>t. append_entries r s =
      Some (t, \<lparr>aer_term = ae_term r, aer_success = True, aer_conflict_info = None\<rparr>) \<and>
    currentTerm t = ae_term r \<and> currentRole t = Follower \<and> active t \<and> rid t = rid s \<and>
    rlog t = accepted_log r (rlog s) \<and>
    commitIndex t = (if ae_leader_commit r > commitIndex s
      then min (ae_leader_commit r) (log_size t) else commitIndex s)"
proof -
  let ?l = "accepted_log r (rlog s)"
  define s1 where "s1 = (accept_leader r s)\<lparr>rlog := ?l\<rparr>"
  define rep where "rep = \<lparr>aer_term = ae_term r, aer_success = True, aer_conflict_info = None\<rparr>"
  have in_range: "in_i64 (ae_prev_log_index r)" "int (length (rlog s)) < 2 ^ 63"
    using sane by (auto simp: node_sane_def request_sane_def log_size_def)
  have ok: "prev_mismatch r (rlog s) = Some False" using prev_mismatch_iff [OF in_range(1)] assms(3) by simp
  have log: "(if ae_entries r \<noteq> [] then overwrite_log (rlog s) (ae_prev_log_index r) (ae_entries r)
       else Some (rlog s)) = Some ?l"
    by (rule accepted_log_computed [OF in_range(1) assms(3) in_range(2)])
  have len: "int (length ?l) < 2 ^ 63"
    using length_accepted_log [of r "rlog s"] sane by (simp add: request_sane_def log_size_def)
  have eq: "append_entries r s =
     (if ae_leader_commit r > commitIndex s1
      then map_option (\<lambda>t. (t, rep)) (apply_entries (s1\<lparr>commitIndex := min (ae_leader_commit r) (log_size s1)\<rparr>))
      else Some (s1, rep))"
    unfolding append_entries_def Let_def accept_leader_simps(9) ok log
    using assms(1,2) by (simp add: rep_def s1_def log_size_def max_def map_conv_bind_option comp_def)
  show ?thesis
  proof (cases "ae_leader_commit r > commitIndex s")
    case False
    then show ?thesis
      using assms(1,2) unfolding eq by (intro exI [of _ s1]) (auto simp: s1_def rep_def max_def)
  next
    case True
    let ?u = "s1\<lparr>commitIndex := min (ae_leader_commit r) (log_size s1)\<rparr>"
    have "in_i64 (min (ae_leader_commit r) (log_size s1))"
      using sane True len by (auto simp: request_sane_def node_sane_def in_i64_def log_size_def s1_def min_def)
    then obtain t where t: "apply_entries ?u = Some t"
      using sane len by (auto simp: s1_def log_size_def node_sane_def intro: apply_entries_defined [of ?u])
    obtain x y z where "t = ?u\<lparr>lastApplied := x, ready_queue := y, threads := z\<rparr>"
      using apply_entries_frame(1) [OF t] by blast
    then show ?thesis
      using True t assms(1,2) unfolding eq
      by (intro exI [of _ t]) (auto simp: s1_def rep_def log_size_def max_def)
  qed
qed

end
