(* ===== verification/RaftCatchUp.thy ===== *)
theory RaftCatchUp
  imports RaftReplication
begin

text \<open>
  The repair loop between a leader and one follower: the leader sends from \<^verbatim>\<open>nextIndex\<close>, a
  rejected request moves \<^verbatim>\<open>nextIndex\<close> back by the conflict information, an accepted one makes
  the follower's log agree with the leader's. The locale \<open>append_service\<close> is what the leader
  relies on at the other end of the RPC; \<^verbatim>\<open>Raft::append_entries\<close> provides it.
\<close>

section \<open>One exchange\<close>

text \<open>
  The body of a send thread when the call succeeds and nothing else runs on the leader meanwhile.
\<close>

definition probe_round ::
  "(append_entries_request \<Rightarrow> 'f \<Rightarrow> ('f \<times> append_entries_reply) defined) \<Rightarrow>
   u64_t \<Rightarrow> raft \<times> 'f \<Rightarrow> (raft \<times> 'f) defined" where
  "probe_round serve target lf = do {
     (req, ctx) \<leftarrow> build_append_request target (fst lf);
     (f', reply) \<leftarrow> serve req (snd lf);
     l' \<leftarrow> handle_append_reply target req ctx reply (fst lf);
     Some (l', f')
   }"

fun probe_rounds ::
  "(append_entries_request \<Rightarrow> 'f \<Rightarrow> ('f \<times> append_entries_reply) defined) \<Rightarrow>
   u64_t \<Rightarrow> nat \<Rightarrow> raft \<times> 'f \<Rightarrow> (raft \<times> 'f) defined" where
  "probe_rounds serve target 0 lf = Some lf"
| "probe_rounds serve target (Suc n) lf = do {
     lf' \<leftarrow> probe_round serve target lf;
     probe_rounds serve target n lf'
   }"

section \<open>The leader's side\<close>

abbreviation next_of :: "u64_t \<Rightarrow> raft \<Rightarrow> i64_t" where
  "next_of target s \<equiv> map_get (nextIndex s) (i64 target)"

abbreviation match_of :: "u64_t \<Rightarrow> raft \<Rightarrow> i64_t" where
  "match_of target s \<equiv> map_get (matchIndex s) (i64 target)"

text \<open>\<^verbatim>\<open>nextIndex\<close> points into the log or just behind it.\<close>

definition next_ok :: "u64_t \<Rightarrow> raft \<Rightarrow> bool" where
  "next_ok target s \<longleftrightarrow> 1 \<le> next_of target s \<and> next_of target s \<le> log_size s + 1"

definition probe_request :: "u64_t \<Rightarrow> raft \<Rightarrow> append_entries_request" where
  "probe_request target s =
     \<lparr>ae_term = currentTerm s, ae_leader_id = i64 (rid s),
      ae_prev_log_index = next_of target s - 1,
      ae_prev_log_term = (if next_of target s > 1 then e_term (rlog s ! nat (next_of target s - 2)) else 0),
      ae_entries = drop (nat (next_of target s - 1)) (rlog s), ae_leader_commit = commitIndex s\<rparr>"

definition probe_ctx :: "u64_t \<Rightarrow> raft \<Rightarrow> send_ctx" where
  "probe_ctx target s =
     \<lparr>sc_log_size = log_size s, sc_reply_counter = map_get (replyCounter s) (i64 target) + 1,
      sc_next_index = next_of target s, sc_match_index = match_of target s\<rparr>"

lemma build_append_request_ok:
  assumes "next_ok target s"
  shows "build_append_request target s = Some (probe_request target s, probe_ctx target s)"
proof -
  have "collect_entries (rlog s) (log_size s) (next_of target s - 1) [] =
      Some (drop (nat (next_of target s - 1)) (rlog s))"
    using assms collect_entries_eq [of "next_of target s - 1" "log_size s" "rlog s" "[]"]
    by (simp add: next_ok_def log_size_def)
  moreover have "next_of target s > 1 \<Longrightarrow>
      vec_at (rlog s) (next_of target s - 2) = Some (rlog s ! nat (next_of target s - 2))"
    using assms by (simp add: next_ok_def vec_at_inside log_size_def)
  ultimately show ?thesis
    using assms by (auto simp: build_append_request_def Let_def probe_request_def probe_ctx_def next_ok_def)
qed

text \<open>
  A rejection whose conflict information is right moves \<^verbatim>\<open>nextIndex\<close> strictly back and keeps
  it positive. (Terms are positive: an entry of term 0 would be confused with the report of a
  short log.)
\<close>

lemma backtrack_progress:
  assumes "next_ok target s" "conflict_report (probe_request target s) flog info"
    and "aer_conflict_info reply = Some info" "sc_log_size ctx = log_size s"
    and pos: "\<And>e. e \<in> set (rlog s) \<Longrightarrow> 0 < e_term e"
  shows "\<exists>ni. backtrack target ctx reply s = Some (s\<lparr>nextIndex := (nextIndex s)(i64 target \<mapsto> ni)\<rparr>) \<and>
    1 \<le> ni \<and> ni < next_of target s"
proof -
  define ni where "ni = next_of target s"
  define right where "right = min (sc_log_size ctx - 1) (ni - 2)"
  have range: "right = ni - 2" "right < int (length (rlog s))"
    using assms(1,4) by (auto simp: right_def ni_def next_ok_def log_size_def)
  have ci: "1 \<le> conflict_index info" "conflict_index info \<le> ni - 1"
    using assms(2) by (simp_all add: conflict_report_def Let_def probe_request_def ni_def)
  have differs: "conflict_term info \<noteq> e_term (rlog s ! nat (ni - 2))"
  proof -
    have "nat (ni - 2) < length (rlog s)" using assms(1) ci by (simp add: ni_def next_ok_def log_size_def)
    then have "0 < e_term (rlog s ! nat (ni - 2))" using pos by simp
    then show ?thesis using assms(2) ci
      by (auto simp: conflict_report_def Let_def probe_request_def ni_def [symmetric] split: if_splits)
  qed
  obtain lst where lst: "conflict_bsearch (rlog s) (conflict_term info) (max 0 (match_of target s)) right (-1) = Some lst"
    "lst = -1 \<or> max 0 (match_of target s) \<le> lst \<and> lst \<le> right \<and> e_term (rlog s ! nat lst) = conflict_term info"
    using conflict_bsearch_range [of "max 0 (match_of target s)" right "rlog s" "conflict_term info" "-1"] range
    by auto
  have "lst \<noteq> -1 \<Longrightarrow> lst < ni - 2" using lst(2) differs range by (cases "lst = ni - 2") auto
  then have "1 \<le> (if lst \<noteq> -1 then lst + 2 else conflict_index info)"
    "(if lst \<noteq> -1 then lst + 2 else conflict_index info) < ni"
    using ci lst(2) by auto
  moreover have "backtrack target ctx reply s =
      Some (s\<lparr>nextIndex := (nextIndex s)(i64 target \<mapsto> (if lst \<noteq> -1 then lst + 2 else conflict_index info))\<rparr>)"
    using lst(1) assms(3) by (simp add: backtrack_def Let_def right_def ni_def)
  ultimately show ?thesis unfolding ni_def by blast
qed

text \<open>
  The commit rule. After an accepted request the match index is the last index sent, and
  \<^verbatim>\<open>commitIndex\<close> becomes the greatest index up to it that holds an entry of the current term
  and that a strict majority of the cluster stores; where there is none it stays.
\<close>

definition commit_rule :: "entry list \<Rightarrow> i64_t \<Rightarrow> u64_t list \<Rightarrow> (i64_t \<rightharpoonup> i64_t) \<Rightarrow> i64_t \<Rightarrow> i64_t \<Rightarrow> i64_t \<Rightarrow> bool"
where
  "commit_rule log ct ps m lst old new \<longleftrightarrow>
     (new = old \<or> old < new \<and> new \<le> lst \<and> committable log ct ps m new) \<and>
     (\<forall>k. new < k \<and> k \<le> lst \<longrightarrow> \<not> committable log ct ps m k)"

lemma advance_commit_correct:
  assumes "node_sane s" "int (length (peers s)) < 2 ^ 63"
    and "lst = sc_next_index ctx + int (length (ae_entries req)) - 1" "lst \<le> log_size s"
    and "m = (matchIndex s)(i64 target \<mapsto> lst)"
  shows "\<exists>t ci la rq th. advance_commit target req ctx s = Some t \<and>
    t = s\<lparr>matchIndex := m, nextIndex := (nextIndex s)(i64 target \<mapsto> lst + 1),
          commitIndex := ci, lastApplied := la, ready_queue := rq, threads := th\<rparr> \<and>
    commit_rule (rlog s) (currentTerm s) (peers s) m lst (commitIndex s) ci"
proof -
  define s1 where "s1 = s\<lparr>matchIndex := m, nextIndex := (nextIndex s)(i64 target \<mapsto> lst + 1)\<rparr>"
  have "0 \<le> commitIndex s" "lst \<le> int (length (rlog s))"
    using assms(1,4) by (simp_all add: node_sane_def log_size_def)
  from commit_scan_correct [OF this assms(2), of "currentTerm s" m "commitIndex s"]
  obtain ci where ci:
    "commit_scan (rlog s) (currentTerm s) (peers s) m (commitIndex s) (commitIndex s) lst = Some ci"
    and rule: "commit_rule (rlog s) (currentTerm s) (peers s) m lst (commitIndex s) ci"
    unfolding commit_rule_def by (elim exE conjE) blast
  have eq: "advance_commit target req ctx s =
      (if ci > commitIndex s then apply_entries (s1\<lparr>commitIndex := ci\<rparr>) else Some s1)"
    using ci by (simp add: advance_commit_def Let_def s1_def assms(3,5))
  show ?thesis
  proof (cases "ci > commitIndex s")
    case False
    with rule have "ci = commitIndex s" by (auto simp: commit_rule_def)
    then have "s1 = s\<lparr>matchIndex := m, nextIndex := (nextIndex s)(i64 target \<mapsto> lst + 1),
       commitIndex := ci, lastApplied := lastApplied s, ready_queue := ready_queue s, threads := threads s\<rparr>"
      by (simp add: s1_def)
    with False rule show ?thesis unfolding eq if_not_P [OF False] by blast
  next
    case True
    have "in_i64 ci" using True rule assms(1,4) by (auto simp: commit_rule_def node_sane_def in_i64_def)
    then obtain t where t: "apply_entries (s1\<lparr>commitIndex := ci\<rparr>) = Some t"
      using assms(1) by (auto simp: s1_def log_size_def node_sane_def
          intro: apply_entries_defined [of "s1\<lparr>commitIndex := ci\<rparr>"])
    obtain x y z where "t = (s1\<lparr>commitIndex := ci\<rparr>)\<lparr>lastApplied := x, ready_queue := y, threads := z\<rparr>"
      using apply_entries_frame(1) [OF t] by blast
    with True t rule show ?thesis unfolding eq s1_def by auto
  qed
qed

text \<open>A leader ready to serve a follower.\<close>

definition leader_ok :: "u64_t \<Rightarrow> raft \<Rightarrow> bool" where
  "leader_ok target l \<longleftrightarrow>
     currentRole l = Leader \<and> node_sane l \<and> log_size l < 2 ^ 62 \<and> int (length (peers l)) < 2 ^ 63 \<and>
     next_ok target l \<and> (\<forall>e \<in> set (rlog l). 0 < e_term e)"

text \<open>The state of the leader after either reply, in full.\<close>

lemma leader_rejected_state:
  assumes "leader_ok target l" "conflict_report (probe_request target l) flog info"
    and "reply = \<lparr>aer_term = currentTerm l, aer_success = False, aer_conflict_info = Some info\<rparr>"
  obtains ni rc where "1 \<le> ni" "ni < next_of target l"
    "handle_append_reply target (probe_request target l) (probe_ctx target l) reply l =
      Some (l\<lparr>replyCounter := rc, nextIndex := (nextIndex l)(i64 target \<mapsto> ni)\<rparr>)"
proof -
  define l1 where "l1 = l\<lparr>replyCounter := (replyCounter l)(i64 target \<mapsto> sc_reply_counter (probe_ctx target l))\<rparr>"
  have same: "next_ok target l1" "probe_request target l1 = probe_request target l" "rlog l1 = rlog l"
    using assms(1) by (auto simp: l1_def leader_ok_def next_ok_def probe_request_def log_size_def)
  have pos: "\<And>e. e \<in> set (rlog l1) \<Longrightarrow> 0 < e_term e" using assms(1) same(3) by (simp add: leader_ok_def)
  have "conflict_report (probe_request target l1) flog info" "aer_conflict_info reply = Some info"
    "sc_log_size (probe_ctx target l) = log_size l1"
    using assms(2,3) same by (simp_all add: probe_ctx_def log_size_def)
  from backtrack_progress [OF same(1) this pos] obtain ni where ni:
    "backtrack target (probe_ctx target l) reply l1 = Some (l1\<lparr>nextIndex := (nextIndex l1)(i64 target \<mapsto> ni)\<rparr>)"
    "1 \<le> ni" "ni < next_of target l1" by blast
  have "handle_append_reply target (probe_request target l) (probe_ctx target l) reply l =
      backtrack target (probe_ctx target l) reply l1"
    using assms(1,3) by (simp add: handle_append_reply_def Let_def l1_def [symmetric])
      (simp add: probe_ctx_def probe_request_def leader_ok_def l1_def)
  with ni that show thesis by (simp add: l1_def)
qed

lemma leader_accepted_state:
  assumes "leader_ok target l"
    and "reply = \<lparr>aer_term = currentTerm l, aer_success = True, aer_conflict_info = None\<rparr>"
  obtains ci rc la rq th where "commit_rule (rlog l) (currentTerm l) (peers l)
      ((matchIndex l)(i64 target \<mapsto> log_size l)) (log_size l) (commitIndex l) ci"
    "handle_append_reply target (probe_request target l) (probe_ctx target l) reply l =
      Some (l\<lparr>replyCounter := rc, matchIndex := (matchIndex l)(i64 target \<mapsto> log_size l),
        nextIndex := (nextIndex l)(i64 target \<mapsto> log_size l + 1),
        commitIndex := ci, lastApplied := la, ready_queue := rq, threads := th\<rparr>)"
proof -
  define l1 where "l1 = l\<lparr>replyCounter := (replyCounter l)(i64 target \<mapsto> sc_reply_counter (probe_ctx target l))\<rparr>"
  have lst: "log_size l = sc_next_index (probe_ctx target l) + int (length (ae_entries (probe_request target l))) - 1"
    using assms(1) by (auto simp: leader_ok_def next_ok_def probe_ctx_def probe_request_def log_size_def)
  have "node_sane l1" "int (length (peers l1)) < 2 ^ 63" "log_size l \<le> log_size l1"
    using assms(1) by (simp_all add: l1_def leader_ok_def node_sane_def log_size_def)
  from advance_commit_correct [OF this(1,2) lst this(3) refl, of target] obtain t ci la rq th where
    t: "advance_commit target (probe_request target l) (probe_ctx target l) l1 = Some t"
    "t = l1\<lparr>matchIndex := (matchIndex l1)(i64 target \<mapsto> log_size l),
          nextIndex := (nextIndex l1)(i64 target \<mapsto> log_size l + 1),
          commitIndex := ci, lastApplied := la, ready_queue := rq, threads := th\<rparr>"
    "commit_rule (rlog l1) (currentTerm l1) (peers l1) ((matchIndex l1)(i64 target \<mapsto> log_size l)) (log_size l)
      (commitIndex l1) ci"
    by blast
  moreover have "handle_append_reply target (probe_request target l) (probe_ctx target l) reply l =
      advance_commit target (probe_request target l) (probe_ctx target l) l1"
    using assms by (simp add: handle_append_reply_def Let_def l1_def [symmetric])
      (simp add: probe_ctx_def probe_request_def leader_ok_def l1_def)
  ultimately show thesis using that by (simp add: l1_def)
qed

lemma leader_rejected:
  assumes "leader_ok target l" "conflict_report (probe_request target l) flog info"
    and "reply = \<lparr>aer_term = currentTerm l, aer_success = False, aer_conflict_info = Some info\<rparr>"
  shows "\<exists>l'. handle_append_reply target (probe_request target l) (probe_ctx target l) reply l = Some l' \<and>
    leader_ok target l' \<and> next_of target l' < next_of target l \<and>
    rlog l' = rlog l \<and> currentTerm l' = currentTerm l"
proof -
  obtain ni rc where "1 \<le> ni" "ni < next_of target l"
    "handle_append_reply target (probe_request target l) (probe_ctx target l) reply l =
      Some (l\<lparr>replyCounter := rc, nextIndex := (nextIndex l)(i64 target \<mapsto> ni)\<rparr>)"
    by (rule leader_rejected_state [OF assms])
  with assms(1) show ?thesis by (auto simp: leader_ok_def next_ok_def node_sane_def log_size_def)
qed

lemma leader_accepted:
  assumes "leader_ok target l"
    and "reply = \<lparr>aer_term = currentTerm l, aer_success = True, aer_conflict_info = None\<rparr>"
  shows "\<exists>l'. handle_append_reply target (probe_request target l) (probe_ctx target l) reply l = Some l' \<and>
    match_of target l' = log_size l \<and> next_of target l' = log_size l + 1 \<and>
    rlog l' = rlog l \<and> currentTerm l' = currentTerm l \<and> currentRole l' = Leader"
  by (rule leader_accepted_state [OF assms]) (use assms(1) in \<open>auto simp: leader_ok_def\<close>)

section \<open>What the leader relies on\<close>

definition request_ok :: "i64_t \<Rightarrow> append_entries_request \<Rightarrow> bool" where
  "request_ok T r \<longleftrightarrow>
     ae_term r = T \<and> in_i64 (ae_prev_log_index r) \<and> in_i64 (ae_leader_commit r) \<and>
     int (length (ae_entries r)) < 2 ^ 62"

text \<open>Two logs match: an entry with the same index and term has the same prefix.\<close>

definition logs_match :: "entry list \<Rightarrow> entry list \<Rightarrow> bool" where
  "logs_match l m \<longleftrightarrow>
     (\<forall>i. i < length l \<longrightarrow> i < length m \<longrightarrow> e_term (l ! i) = e_term (m ! i) \<longrightarrow>
          take (Suc i) l = take (Suc i) m)"

lemma probe_request_ok: "leader_ok target l \<Longrightarrow> request_ok (currentTerm l) (probe_request target l)"
  by (auto simp: leader_ok_def next_ok_def request_ok_def probe_request_def in_i64_def node_sane_def log_size_def)

lemma prev_agrees_prefix:
  assumes "prev_agrees r flog" "ae_prev_log_index r = int n" "n \<le> length l"
    and "n > 0 \<longrightarrow> ae_prev_log_term r = e_term (l ! (n - 1))" "logs_match l flog"
  shows "n \<le> length flog" "take n l = take n flog"
proof -
  have "n \<le> length flog \<and> take n l = take n flog"
  proof (cases "n = 0")
    case False
    then have "nat (int n - 1) = n - 1" by simp
    then have "n \<le> length flog" "e_term (l ! (n - 1)) = e_term (flog ! (n - 1))"
      using assms(1,2,4) False by (auto simp: prev_agrees_def)
    moreover from this have "take (Suc (n - 1)) l = take (Suc (n - 1)) flog"
      using False assms(3) by (intro assms(5) [unfolded logs_match_def, rule_format]) simp_all
    ultimately show ?thesis using False by simp
  qed simp
  then show "n \<le> length flog" "take n l = take n flog" by blast+
qed

text \<open>What matching logs say about the suffixes that are merged.\<close>

lemma logs_match_drop:
  assumes "logs_match l flog" "n \<le> length l" "n \<le> length flog"
    and "k < length (drop n flog)" "k < length (drop n l)" "e_term (drop n flog ! k) = e_term (drop n l ! k)"
  shows "take (Suc k) (drop n flog) = take (Suc k) (drop n l)"
proof -
  have "take (Suc (n + k)) l = take (Suc (n + k)) flog"
    using assms by (auto simp: logs_match_def)
  then have "drop n (take (Suc (n + k)) l) = drop n (take (Suc (n + k)) flog)" by simp
  then show ?thesis using assms(2,3) by (simp add: drop_take)
qed

lemma accepted_log_prefix:
  assumes "next_ok target l" "prev_agrees (probe_request target l) flog" "logs_match (rlog l) flog"
  shows "take (length (rlog l)) (accepted_log (probe_request target l) flog) = rlog l"
proof -
  define n where "n = nat (next_of target l - 1)"
  let ?l = "rlog l"
  have n: "n \<le> length ?l" "next_of target l - 1 = int n" using assms(1) by (auto simp: n_def next_ok_def log_size_def)
  then have "next_of target l - 2 = int n - 1" by simp
  then have "nat (next_of target l - 2) = n - 1" by linarith
  then have pre: "n \<le> length flog" "take n ?l = take n flog"
    using prev_agrees_prefix [OF assms(2) _ n(1) _ assms(3)] n(2) by (simp_all add: probe_request_def)
  have "drop n flog ! k = drop n ?l ! k"
    if "k < length (drop n flog)" "k < length (drop n ?l)" "e_term (drop n flog ! k) = e_term (drop n ?l ! k)" for k
    by (rule nth_take_eq [OF logs_match_drop [OF assms(3) n(1) pre(1) that]]) simp
  then have "take (length (drop n ?l)) (merge_suffix (drop n flog) (drop n ?l)) = drop n ?l"
    by (rule merge_suffix_same)
  moreover have "accepted_log (probe_request target l) flog = take n flog @ merge_suffix (drop n flog) (drop n ?l)"
    using n(2) by (simp add: accepted_log_def merge_log_def probe_request_def)
  ultimately have "take (length ?l) (accepted_log (probe_request target l) flog) = take n flog @ drop n ?l"
    using pre(1) n(1) by simp
  then show ?thesis unfolding pre(2) [symmetric] by simp
qed

text \<open>
  \<open>serve\<close> answers an \<^verbatim>\<open>AppendEntries\<close> call; \<open>ready T\<close> holds of a follower that accepts the
  leader of term \<open>T\<close>. The leader relies on correct conflict information in a rejection, and on
  the merged log after an acceptance.
\<close>

locale append_service =
  fixes serve :: "append_entries_request \<Rightarrow> 'f \<Rightarrow> ('f \<times> append_entries_reply) defined"
    and log_of :: "'f \<Rightarrow> entry list"
    and ready :: "i64_t \<Rightarrow> 'f \<Rightarrow> bool"
  assumes rejects: "ready T f \<Longrightarrow> request_ok T r \<Longrightarrow> \<not> prev_agrees r (log_of f) \<Longrightarrow>
      \<exists>f' info. serve r f =
          Some (f', \<lparr>aer_term = T, aer_success = False, aer_conflict_info = Some info\<rparr>) \<and>
        conflict_report r (log_of f) info \<and> log_of f' = log_of f \<and> ready T f'"
    and accepts: "ready T f \<Longrightarrow> request_ok T r \<Longrightarrow> prev_agrees r (log_of f) \<Longrightarrow>
      \<exists>f'. serve r f = Some (f', \<lparr>aer_term = T, aer_success = True, aer_conflict_info = None\<rparr>) \<and>
        log_of f' = accepted_log r (log_of f)"
begin

lemma round_rejected:
  assumes "leader_ok target l" "ready (currentTerm l) f" "\<not> prev_agrees (probe_request target l) (log_of f)"
  shows "\<exists>l' f'. probe_round serve target (l, f) = Some (l', f') \<and> leader_ok target l' \<and>
    ready (currentTerm l') f' \<and> next_of target l' < next_of target l \<and>
    rlog l' = rlog l \<and> currentTerm l' = currentTerm l \<and> log_of f' = log_of f"
proof -
  obtain f' info where f': "serve (probe_request target l) f =
      Some (f', \<lparr>aer_term = currentTerm l, aer_success = False, aer_conflict_info = Some info\<rparr>)"
    "conflict_report (probe_request target l) (log_of f) info" "log_of f' = log_of f" "ready (currentTerm l) f'"
    using rejects [OF assms(2) probe_request_ok [OF assms(1)] assms(3)] by blast
  from leader_rejected [OF assms(1) f'(2) refl] f' assms(1) show ?thesis
    by (auto simp: probe_round_def build_append_request_ok leader_ok_def)
qed

lemma round_accepted:
  assumes "leader_ok target l" "ready (currentTerm l) f" "prev_agrees (probe_request target l) (log_of f)"
    and "logs_match (rlog l) (log_of f)"
  shows "\<exists>l' f'. probe_round serve target (l, f) = Some (l', f') \<and>
    match_of target l' = log_size l \<and> take (length (rlog l)) (log_of f') = rlog l \<and> rlog l' = rlog l \<and>
    currentTerm l' = currentTerm l \<and> currentRole l' = Leader"
proof -
  obtain f' where f': "serve (probe_request target l) f =
      Some (f', \<lparr>aer_term = currentTerm l, aer_success = True, aer_conflict_info = None\<rparr>)"
    "log_of f' = accepted_log (probe_request target l) (log_of f)"
    using accepts [OF assms(2) probe_request_ok [OF assms(1)] assms(3)] by blast
  have n: "next_ok target l" using assms(1) by (simp add: leader_ok_def)
  have "take (length (rlog l)) (log_of f') = rlog l"
    unfolding f'(2) by (rule accepted_log_prefix [OF n assms(3,4)])
  with leader_accepted [OF assms(1) refl] f'(1) show ?thesis
    by (auto simp: probe_round_def build_append_request_ok [OF n])
qed

lemma repair:
  assumes "leader_ok target l" "ready (currentTerm l) f" "logs_match (rlog l) (log_of f)"
  shows "\<exists>n l' f'. int n \<le> next_of target l \<and> probe_rounds serve target n (l, f) = Some (l', f') \<and>
    match_of target l' = log_size l \<and> take (length (rlog l)) (log_of f') = rlog l \<and> rlog l' = rlog l \<and>
    currentTerm l' = currentTerm l \<and> currentRole l' = Leader"
  using assms
proof (induction "nat (next_of target l)" arbitrary: l f rule: less_induct)
  case less
  have pos: "1 \<le> next_of target l" using less(2) by (simp add: leader_ok_def next_ok_def)
  show ?case
  proof (cases "prev_agrees (probe_request target l) (log_of f)")
    case True
    from round_accepted [OF less(2,3) this less(4)] obtain l' f' where
      "probe_rounds serve target 1 (l, f) = Some (l', f')" "match_of target l' = log_size l"
      "take (length (rlog l)) (log_of f') = rlog l" "rlog l' = rlog l"
      "currentTerm l' = currentTerm l" "currentRole l' = Leader" by auto
    with pos show ?thesis by (metis of_nat_1)
  next
    case False
    from round_rejected [OF less(2,3) this] obtain l1 f1 where r:
      "probe_round serve target (l, f) = Some (l1, f1)" "leader_ok target l1" "ready (currentTerm l1) f1"
      "next_of target l1 < next_of target l" "rlog l1 = rlog l" "currentTerm l1 = currentTerm l"
      "log_of f1 = log_of f" by blast
    have "nat (next_of target l1) < nat (next_of target l)" using r(4) pos by simp
    from less(1) [OF this r(2,3)] less(4) r(5,7) obtain n l' f' where
      "int n \<le> next_of target l1" "probe_rounds serve target n (l1, f1) = Some (l', f')"
      "match_of target l' = log_size l1" "take (length (rlog l)) (log_of f') = rlog l" "rlog l' = rlog l"
      "currentTerm l' = currentTerm l1" "currentRole l' = Leader" by auto
    with r show ?thesis by (intro exI [of _ "Suc n"] exI [of _ l'] exI [of _ f']) (simp add: log_size_def)
  qed
qed

end

section \<open>\<open>append_entries\<close> provides it\<close>

definition follower_ready :: "i64_t \<Rightarrow> raft \<Rightarrow> bool" where
  "follower_ready T s \<longleftrightarrow> active s \<and> currentTerm s \<le> T \<and> node_sane s \<and> log_size s < 2 ^ 62"

interpretation follower: append_service append_entries rlog follower_ready
proof
  fix T f r
  assume f: "follower_ready T f" and r: "request_ok T r"
  have sane: "request_sane r f" using f r by (simp add: request_sane_def request_ok_def follower_ready_def)
  {
    assume "\<not> prev_agrees r (rlog f)"
    then obtain info where "conflict_report r (rlog f) info" "append_entries r f =
        Some (accept_leader r f, \<lparr>aer_term = T, aer_success = False, aer_conflict_info = Some info\<rparr>)"
      using append_entries_reject [of f r] f r by (auto simp: follower_ready_def request_ok_def)
    moreover have "follower_ready T (accept_leader r f)"
      using f r by (simp add: follower_ready_def request_ok_def node_sane_def log_size_def)
    ultimately show "\<exists>f' info. append_entries r f =
          Some (f', \<lparr>aer_term = T, aer_success = False, aer_conflict_info = Some info\<rparr>) \<and>
        conflict_report r (rlog f) info \<and> rlog f' = rlog f \<and> follower_ready T f'" by auto
  next
    assume "prev_agrees r (rlog f)"
    then show "\<exists>f'. append_entries r f =
        Some (f', \<lparr>aer_term = T, aer_success = True, aer_conflict_info = None\<rparr>) \<and>
        rlog f' = accepted_log r (rlog f)"
      using append_entries_accept [of f r] f r sane by (auto simp: follower_ready_def request_ok_def)
  }
qed

end
