(* ===== verification/LogMatching.thy ===== *)
theory LogMatching
  imports NodeLaws RaftCatchUp
begin

text \<open>
  Log matching over whole executions: of all logs that any node has ever had, two that hold an
  entry of the same term at the same index agree up to that index; every log is sorted by term.

  Two assumptions on executions are stated as a transition system of their own. No log reaches
  \<open>2 ^ 62\<close> entries (beyond, the comparison of signed indices with \<^verbatim>\<open>log.size()\<close> may wrap), and
  the uninitialised role of a node that has not been started is not \<^verbatim>\<open>Leader\<close> (otherwise
  \<^verbatim>\<open>propose\<close> accepts an entry of term 0 before \<^verbatim>\<open>run\<close>). The cluster has an odd number of
  nodes, as for election safety.
\<close>

section \<open>Executions\<close>

definition tame_init :: "config list \<Rightarrow> cluster \<Rightarrow> bool" where
  "tame_init cfgs c \<longleftrightarrow>
     wf_configs cfgs \<and> odd (length cfgs) \<and>
     (\<exists>garbage. (\<forall>i. garbage i \<noteq> Leader) \<and> c = init_cluster cfgs garbage)"

definition tame_step :: "cluster \<Rightarrow> cluster \<Rightarrow> bool" where
  "tame_step c c' \<longleftrightarrow>
     cluster_step c c' \<and> (\<forall>i \<in> set (members c'). log_size (nodes c' i) < 2 ^ 62)"

abbreviation tame :: "config list \<Rightarrow> cluster \<Rightarrow> bool" where
  "tame cfgs \<equiv> reach (tame_init cfgs) tame_step"

lemma tame_reachable: "tame cfgs c \<Longrightarrow> reachable cfgs c"
proof (induction rule: reach.induct)
  case (start c)
  then show ?case by (intro reach.start) (auto simp: tame_init_def cluster_init_def)
next
  case (step c d)
  then show ?case by (auto simp: tame_step_def intro: reach.step)
qed

lemma tame_odd: "tame cfgs c \<Longrightarrow> odd (length cfgs)"
  by (induction rule: reach.induct) (auto simp: tame_init_def)

section \<open>The invariant\<close>

text \<open>The log holds every entry of term \<open>T\<close> there is: what a leader knows about its own term.\<close>

definition owns :: "entry list list \<Rightarrow> i64_t \<Rightarrow> entry list \<Rightarrow> bool" where
  "owns LS T l \<longleftrightarrow> (\<forall>m \<in> set LS. \<forall>k < length m. e_term (m ! k) = T \<longrightarrow>
     k < length l \<and> e_term (l ! k) = T)"

definition terms_below :: "entry list \<Rightarrow> i64_t \<Rightarrow> bool" where
  "terms_below l T \<longleftrightarrow> (\<forall>e \<in> set l. e_term e \<le> T)"

definition node_log_ok :: "entry list list \<Rightarrow> (i64_t \<times> u64_t) set \<Rightarrow> u64_t \<Rightarrow> raft \<Rightarrow> bool" where
  "node_log_ok LS E i s \<longleftrightarrow>
     rlog s \<in> set LS \<and> terms_below (rlog s) (currentTerm s) \<and> log_size s < 2 ^ 62 \<and>
     (peers s \<noteq> [] \<longrightarrow> active s) \<and>
     (currentRole s = Leader \<longrightarrow> active s \<and> owns LS (currentTerm s) (rlog s)) \<and>
     (currentRole s = Candidate \<longrightarrow> (currentTerm s, i) \<notin> E) \<and>
     (\<forall>T. (T, i) \<in> E \<longrightarrow> T \<le> currentTerm s)"

definition history_log_ok :: "entry list list \<Rightarrow> (i64_t \<times> u64_t) set \<Rightarrow> bool" where
  "history_log_ok LS E \<longleftrightarrow>
     (\<forall>l \<in> set LS. \<forall>m \<in> set LS. logs_match l m) \<and>
     (\<forall>l \<in> set LS. sorted_terms l \<and> (\<forall>e \<in> set l. \<exists>j. (e_term e, j) \<in> E))"

text \<open>A request in flight carries a suffix of some log, and the entry before it.\<close>

definition request_from :: "entry list list \<Rightarrow> append_entries_request \<Rightarrow> bool" where
  "request_from LS r \<longleftrightarrow>
     (\<exists>l \<in> set LS. 0 \<le> ae_prev_log_index r \<and> ae_prev_log_index r \<le> int (length l) \<and>
        int (length l) < 2 ^ 62 \<and> terms_below l (ae_term r) \<and>
        ae_entries r = drop (nat (ae_prev_log_index r)) l \<and>
        (ae_prev_log_index r > 0 \<longrightarrow> ae_prev_log_term r = e_term (l ! nat (ae_prev_log_index r - 1))))"

fun call_log_ok :: "entry list list \<Rightarrow> call \<Rightarrow> bool" where
  "call_log_ok LS (AppReq f t r ctx) \<longleftrightarrow> request_from LS r"
| "call_log_ok LS (AppRep f t rep r ctx) \<longleftrightarrow> request_from LS r"
| "call_log_ok LS _ \<longleftrightarrow> True"

definition log_inv :: "cluster \<Rightarrow> bool" where
  "log_inv c \<longleftrightarrow>
     history_log_ok (logs c) (elected c) \<and>
     (\<forall>i \<in> set (members c). node_log_ok (logs c) (elected c) i (nodes c i)) \<and>
     (\<forall>k \<in> set (calls c). call_log_ok (logs c) k)"

lemma owns_mono: "set LS' \<subseteq> set LS \<Longrightarrow> owns LS T l \<Longrightarrow> owns LS' T l"
  by (auto simp: owns_def)

lemma request_from_mono: "request_from LS r \<Longrightarrow> set LS \<subseteq> set LS' \<Longrightarrow> request_from LS' r"
  unfolding request_from_def by blast

lemma call_log_ok_mono: "call_log_ok LS k \<Longrightarrow> set LS \<subseteq> set LS' \<Longrightarrow> call_log_ok LS' k"
  by (cases k) (auto intro: request_from_mono)

section \<open>What an operation does to the log\<close>

definition log_pushed :: "raft \<Rightarrow> raft \<Rightarrow> bool" where
  "log_pushed s t \<longleftrightarrow> (\<exists>data. rlog t = rlog s @ [\<lparr>e_term = currentTerm s, e_command = data\<rparr>])"

text \<open>
  The contract: the log stays, is replaced by one seen before (on a follower), or is extended by
  a leader with an entry of its term; a role is kept, given up, or gained by the next step of the
  election.
\<close>

definition log_law :: "entry list list \<Rightarrow> raft \<Rightarrow> raft \<Rightarrow> bool" where
  "log_law LS s t \<longleftrightarrow>
     currentTerm s \<le> currentTerm t \<and> (peers t \<noteq> [] \<longrightarrow> active t) \<and> (active s \<longrightarrow> active t) \<and>
     (rlog t \<in> set LS \<and> terms_below (rlog t) (currentTerm t) \<and> (currentRole t = Leader \<longrightarrow> rlog t = rlog s) \<or>
      log_pushed s t \<and> currentRole s = Leader \<and> currentRole t = Leader) \<and>
     (currentRole t = Follower \<or>
      currentRole t = currentRole s \<and> currentTerm t = currentTerm s \<or>
      currentRole t = Candidate \<and> currentTerm t = currentTerm s + 1 \<or>
      currentRole t = Leader \<and> currentRole s = Candidate \<and> currentTerm t = currentTerm s \<and> active t)"

lemma terms_below_mono: "terms_below l T \<Longrightarrow> T \<le> U \<Longrightarrow> terms_below l U"
  by (auto simp: terms_below_def)

text \<open>An operation that keeps the election contract and the log.\<close>

lemma same_log_law:
  assumes "election_law s t" "rlog t = rlog s" "node_log_ok LS E i s"
  shows "log_law LS s t"
proof -
  have "currentTerm s \<le> currentTerm t" using assms(1) by (rule election_law_mono)
  moreover have "terms_below (rlog t) (currentTerm t)"
    using assms(2,3) calculation terms_below_mono by (auto simp: node_log_ok_def)
  ultimately show ?thesis using assms unfolding election_law_def node_log_ok_def log_law_def by metis
qed

lemma pushed_log_law:
  assumes "same_election s t" "log_pushed s t" "currentRole s = Leader" "node_log_ok LS E i s"
  shows "log_law LS s t"
  using assms by (simp add: same_election_def log_law_def node_log_ok_def)

text \<open>An accepted request leaves the follower with its own log or with the sender's.\<close>

lemma accepted_log_known:
  assumes "logs_match l flog" "prev_agrees r flog" "0 \<le> ae_prev_log_index r"
    and "ae_prev_log_index r \<le> int (length l)" "ae_entries r = drop (nat (ae_prev_log_index r)) l"
    and "ae_prev_log_index r > 0 \<longrightarrow> ae_prev_log_term r = e_term (l ! nat (ae_prev_log_index r - 1))"
  shows "accepted_log r flog = l \<or> accepted_log r flog = flog"
proof -
  define n where "n = nat (ae_prev_log_index r)"
  have n: "ae_prev_log_index r = int n" "n \<le> length l" using assms(3,4) by (auto simp: n_def)
  have "n > 0 \<longrightarrow> ae_prev_log_term r = e_term (l ! (n - 1))"
    using assms(6) n(1) by (auto simp: nat_diff_distrib)
  note pre = prev_agrees_prefix [OF assms(2) n this assms(1)]
  have "merge_suffix (drop n flog) (drop n l) = drop n flog \<or> merge_suffix (drop n flog) (drop n l) = drop n l"
    by (rule merge_suffix_either) (rule logs_match_drop [OF assms(1) n(2) pre(1)])
  moreover have "accepted_log r flog = take n flog @ merge_suffix (drop n flog) (drop n l)"
    using n(1) assms(5) by (simp add: accepted_log_def merge_log_def)
  ultimately show ?thesis using pre(2) by (metis append_take_drop_id)
qed

lemma append_entries_log:
  assumes "append_entries r s = Some (t, rep)" "in_i64 (ae_prev_log_index r)" "log_size s < 2 ^ 63"
  shows "t = s \<or> currentRole t = Follower \<and> currentTerm t = ae_term r \<and>
    (rlog t = rlog s \<or> prev_agrees r (rlog s) \<and> rlog t = accepted_log r (rlog s))"
proof (cases "active s \<and> currentTerm s \<le> ae_term r")
  case False
  with assms(1) show ?thesis by (auto simp: append_entries_def split: if_splits)
next
  case go: True
  show ?thesis
  proof (cases "prev_agrees r (rlog s)")
    case False
    with go assms(1,2) append_entries_reject [of s r] show ?thesis by auto
  next
    case True
    have ok: "prev_mismatch r (rlog s) = Some False" using prev_mismatch_iff [OF assms(2)] True by simp
    have log: "(if ae_entries r \<noteq> [] then overwrite_log (rlog s) (ae_prev_log_index r) (ae_entries r)
         else Some (rlog s)) = Some (accepted_log r (rlog s))"
      by (rule accepted_log_computed [OF assms(2) True]) (use assms(3) in \<open>simp add: log_size_def\<close>)
    have "t = (accept_leader r s)\<lparr>rlog := accepted_log r (rlog s)\<rparr> \<or>
        (\<exists>ci. apply_entries ((accept_leader r s)\<lparr>rlog := accepted_log r (rlog s), commitIndex := ci\<rparr>) = Some t)"
      using go assms(1) unfolding append_entries_def Let_def accept_leader_simps(9) ok log
      by (auto split: if_splits Option.bind_splits)
    then have "rlog t = accepted_log r (rlog s) \<and> currentTerm t = max (currentTerm s) (ae_term r) \<and>
        currentRole t = Follower"
      by (elim disjE exE) (auto dest!: apply_entries_frame(1))
    with go True show ?thesis by simp
  qed
qed

lemma append_entries_log_law:
  assumes "append_entries r s = Some (t, rep)" "request_from LS r" "node_log_ok LS E i s" "history_log_ok LS E"
  shows "log_law LS s t"
proof -
  obtain l where l: "l \<in> set LS" "0 \<le> ae_prev_log_index r" "ae_prev_log_index r \<le> int (length l)"
    "int (length l) < 2 ^ 62" "terms_below l (ae_term r)" "ae_entries r = drop (nat (ae_prev_log_index r)) l"
    "ae_prev_log_index r > 0 \<longrightarrow> ae_prev_log_term r = e_term (l ! nat (ae_prev_log_index r - 1))"
    using assms(2) by (auto simp: request_from_def)
  have s: "rlog s \<in> set LS" "log_size s < 2 ^ 63" using assms(3) by (auto simp: node_log_ok_def)
  have match: "logs_match l (rlog s)" using assms(4) l(1) s(1) by (simp add: history_log_ok_def)
  have "in_i64 (ae_prev_log_index r)" using l(2-4) by (simp add: in_i64_def)
  from append_entries_log [OF assms(1) this s(2)] consider "t = s" |
    "currentRole t = Follower" "currentTerm t = ae_term r" "rlog t = rlog s \<or> rlog t = l"
    using accepted_log_known [OF match _ l(2,3,6,7)] by metis
  then show ?thesis
  proof cases
    case 1
    then show ?thesis using same_log_law [OF election_law_refl _ assms(3)] by simp
  next
    case 2
    have law: "election_law s t" using append_entries_law [OF assms(1)] .
    have "terms_below (rlog s) (ae_term r)"
      using assms(3) election_law_mono [OF law] 2(2) terms_below_mono by (auto simp: node_log_ok_def)
    with 2 l(1,5) s(1) assms(3) law show ?thesis
      by (auto simp: log_law_def election_law_def node_log_ok_def vote_step_def)
  qed
qed

lemma counted_log_law:
  assumes "counts_vote et rep s" "peers s \<noteq> []" "node_log_ok LS E i s"
  shows "log_law LS s (handle_vote_reply target et rep s)"
  using assms by (auto simp: handle_vote_reply_counted counts_vote_def log_law_def node_log_ok_def)

lemma propose_log_law:
  assumes "node_log_ok LS E i s"
  shows "log_law LS s (fst (propose data s))" "log_law LS s (fst (propose_sync data s))"
proof -
  have push: "log_pushed s (fst (propose data s))" "log_pushed s (fst (propose_sync data s))" if "currentRole s = Leader"
    using that by (auto simp: log_pushed_def propose_def propose_sync_def push_proposal_def sync_finish_def Let_def)
  have same: "fst (propose data s) = s" "fst (propose_sync data s) = s" if "currentRole s \<noteq> Leader"
    using that by (simp_all add: propose_def propose_sync_def)
  note same_log_law [OF election_law_refl refl assms]
  then show "log_law LS s (fst (propose data s))" "log_law LS s (fst (propose_sync data s))"
    using pushed_log_law [OF quiet_ops(6) push(1) _ assms] pushed_log_law [OF propose_sync_quiet push(2) _ assms] same
    by (cases "currentRole s = Leader"; simp)+
qed

section \<open>Preservation\<close>

text \<open>Extending the log of the leader of term \<open>T\<close> keeps all logs ever seen matching.\<close>

lemma logs_match_refl [simp]: "logs_match l l"
  by (simp add: logs_match_def)

lemma logs_match_sym: "logs_match l m \<Longrightarrow> logs_match m l"
  unfolding logs_match_def by metis

lemma logs_match_push:
  assumes "logs_match l m" "owns LS (e_term e) l" "m \<in> set LS"
  shows "logs_match (l @ [e]) m"
  unfolding logs_match_def
proof (intro allI impI)
  fix i
  assume i: "i < length (l @ [e])" "i < length m" "e_term ((l @ [e]) ! i) = e_term (m ! i)"
  show "take (Suc i) (l @ [e]) = take (Suc i) m"
  proof (cases "i < length l")
    case True
    with i assms(1) show ?thesis by (simp add: logs_match_def nth_append)
  next
    case False
    with i have "i = length l" "e_term (m ! i) = e_term e" by (auto simp: nth_append)
    with assms(2,3) i(2) show ?thesis by (auto simp: owns_def)
  qed
qed

lemma history_push:
  assumes "history_log_ok LS E" "l \<in> set LS" "terms_below l T" "owns LS T l" "(T, i) \<in> E"
  shows "history_log_ok ((l @ [\<lparr>e_term = T, e_command = data\<rparr>]) # LS) E"
proof -
  let ?n = "l @ [\<lparr>e_term = T, e_command = data\<rparr>]"
  have match: "logs_match ?n m" if "m \<in> set LS" for m
    by (rule logs_match_push) (use assms that in \<open>auto simp: history_log_ok_def\<close>)
  moreover have "sorted_terms ?n" using assms(1-3) by (auto simp: history_log_ok_def sorted_append terms_below_def)
  moreover have "\<forall>e \<in> set ?n. \<exists>j. (e_term e, j) \<in> E" using assms(1,2,5) by (auto simp: history_log_ok_def)
  ultimately show ?thesis using assms(1) logs_match_sym [OF match] by (auto simp: history_log_ok_def)
qed

lemma history_log_ok_mono: "history_log_ok LS E \<Longrightarrow> E \<subseteq> F \<Longrightarrow> history_log_ok LS F"
  unfolding history_log_ok_def by blast

lemma history_known: "history_log_ok LS E \<Longrightarrow> l \<in> set LS \<Longrightarrow> history_log_ok (l # LS) E"
  by (auto simp: history_log_ok_def)

text \<open>
  One step of one node \<open>i\<close> from \<open>s\<close> to \<open>t\<close>: \<open>E\<close> and \<open>F\<close> are the elections before and after.
\<close>

lemma node_log_ok_step:
  assumes ok: "node_log_ok LS E i s" and hist: "history_log_ok LS E" and law: "log_law LS s t"
    and small: "log_size t < 2 ^ 62"
    and F: "F = (if active t \<and> currentRole t = Leader then insert (currentTerm t, i) E else E)"
    and unique: "\<And>T j. (T, i) \<in> F \<Longrightarrow> (T, j) \<in> F \<Longrightarrow> i = j"
  shows "node_log_ok (rlog t # LS) F i t"
proof -
  have mono: "currentTerm s \<le> currentTerm t" using law by (simp add: log_law_def)
  have le: "T \<le> currentTerm t" if "(T, i) \<in> F" for T
    using that mono ok unfolding F by (force simp: node_log_ok_def split: if_splits)
  have below: "terms_below (rlog t) (currentTerm t)"
    using law ok by (auto simp: log_law_def log_pushed_def terms_below_def node_log_ok_def)
  have lead: "owns (rlog t # LS) (currentTerm t) (rlog t) \<and> active t" if L: "currentRole t = Leader"
  proof -
    have act: "active t" using L law ok by (auto simp: log_law_def node_log_ok_def)
    have T: "currentTerm t = currentTerm s" using L law by (auto simp: log_law_def)
    consider (old) "currentRole s = Leader" | (new) "currentRole s = Candidate" "rlog t = rlog s"
      using L law by (auto simp: log_law_def)
    then have "owns LS (currentTerm s) (rlog s)"
    proof cases
      case old
      then show ?thesis using ok by (simp add: node_log_ok_def)
    next
      case new
      have False if m: "m \<in> set LS" "k < length m" "e_term (m ! k) = currentTerm s" for m k
      proof -
        obtain j where "(e_term (m ! k), j) \<in> E" using hist m(1,2) unfolding history_log_ok_def by force
        with m(3) have j: "(currentTerm s, j) \<in> E" by simp
        then have "i = j" using L act T by (intro unique [of "currentTerm s"]) (auto simp: F)
        with j new(1) ok show False by (simp add: node_log_ok_def)
      qed
      then show ?thesis by (auto simp: owns_def)
    qed
    moreover have "k < length (rlog t) \<and> rlog t ! k = rlog s ! k" if "k < length (rlog s)" for k
      using that L law by (auto simp: log_law_def log_pushed_def nth_append)
    ultimately show ?thesis using act T by (fastforce simp: owns_def)
  qed
  have cand: "(currentTerm t, i) \<notin> F" if "currentRole t = Candidate"
  proof -
    have "F = E" using that by (simp add: F)
    moreover have "currentRole s = Candidate \<and> currentTerm t = currentTerm s \<or> currentTerm t = currentTerm s + 1"
      using that law by (auto simp: log_law_def)
    ultimately show ?thesis using ok by (auto simp: node_log_ok_def)
  qed
  show ?thesis
    using law small lead cand le below by (auto simp: node_log_ok_def log_law_def)
qed

text \<open>The other nodes are not disturbed.\<close>

lemma node_log_ok_other:
  assumes "node_log_ok LS E j u" "i \<noteq> j" "log_law LS s t"
    and "F = (if active t \<and> currentRole t = Leader then insert (currentTerm t, i) E else E)"
    and "log_pushed s t \<Longrightarrow> currentRole u = Leader \<Longrightarrow> currentRole s = Leader \<Longrightarrow> currentTerm u \<noteq> currentTerm s"
    and "rlog s \<in> set LS"
  shows "node_log_ok (rlog t # LS) F j u"
proof -
  have "owns (rlog t # LS) (currentTerm u) (rlog u)" if L: "currentRole u = Leader"
  proof -
    have own: "owns LS (currentTerm u) (rlog u)" using assms(1) L by (simp add: node_log_ok_def)
    from assms(3) consider "rlog t \<in> set LS" | (push) "log_pushed s t" "currentRole s = Leader"
      by (auto simp: log_law_def)
    then show ?thesis
    proof cases
      case push
      then obtain data where t: "rlog t = rlog s @ [\<lparr>e_term = currentTerm s, e_command = data\<rparr>]"
        by (auto simp: log_pushed_def)
      have "currentTerm u \<noteq> currentTerm s" using assms(5) push L by blast
      then have "k < length (rlog u) \<and> e_term (rlog u ! k) = currentTerm u"
        if "k < length (rlog t)" "e_term (rlog t ! k) = currentTerm u" for k
        using that own assms(6) unfolding t owns_def by (auto simp: nth_append less_Suc_eq split: if_splits)
      with own show ?thesis by (auto simp: owns_def)
    qed (use own in \<open>auto simp: owns_def\<close>)
  qed
  with assms(1,2,4) show ?thesis by (auto simp: node_log_ok_def)
qed

lemma history_step:
  assumes "node_log_ok LS E i s" "history_log_ok LS E" "log_law LS s t"
    and F: "F = (if active t \<and> currentRole t = Leader then insert (currentTerm t, i) E else E)"
  shows "history_log_ok (rlog t # LS) F"
proof -
  have sub: "E \<subseteq> F" by (auto simp: F)
  from assms(3) consider "rlog t \<in> set LS" | (push) "log_pushed s t" "currentRole s = Leader" "currentRole t = Leader"
    by (auto simp: log_law_def)
  then show ?thesis
  proof cases
    case push
    have T: "currentTerm t = currentTerm s" "active t"
      using assms(1,3) push(2,3) by (auto simp: log_law_def node_log_ok_def)
    with push(3) have "(currentTerm s, i) \<in> F" by (auto simp: F)
    moreover have "history_log_ok LS F" by (rule history_log_ok_mono [OF assms(2) sub])
    ultimately show ?thesis using push(1,2) assms(1)
      by (auto simp: log_pushed_def node_log_ok_def intro!: history_push)
  qed (intro history_known history_log_ok_mono [OF assms(2) sub])
qed

text \<open>What the two election invariants contribute.\<close>

definition elections_ok :: "cluster \<Rightarrow> bool" where
  "elections_ok c \<longleftrightarrow> election_inv c \<and> leaders_recorded c \<and> odd (card (set (members c)))"

lemma elections_unique: "elections_ok c \<Longrightarrow> (T, i) \<in> elected c \<Longrightarrow> (T, j) \<in> elected c \<Longrightarrow> i = j"
  unfolding elections_ok_def by (blast intro: elected_unique)

lemma put_log_inv:
  assumes inv: "log_inv c" and i: "i \<in> set (members c)" and el: "elections_ok c" "elections_ok c'"
    and c': "c' = put_node i t (c\<lparr>calls := cs, elections := n\<rparr>)"
    and law: "log_law (logs c) (nodes c i) t" and small: "log_size t < 2 ^ 62"
    and cs: "\<And>k. k \<in> set cs \<Longrightarrow> call_log_ok (logs c) k"
  shows "log_inv c'"
proof -
  let ?s = "nodes c i"
  have node: "node_log_ok (logs c) (elected c) j (nodes c j)" if "j \<in> set (members c)" for j
    using inv that by (simp add: log_inv_def)
  have hist: "history_log_ok (logs c) (elected c)" using inv by (simp add: log_inv_def)
  have F: "elected c' = (if active t \<and> currentRole t = Leader then insert (currentTerm t, i) (elected c) else elected c)"
    by (simp add: c')
  have "history_log_ok (logs c') (elected c')"
    using history_step [OF node [OF i] hist law F] by (simp add: c')
  moreover have "node_log_ok (logs c') (elected c') i t"
    using node_log_ok_step [OF node [OF i] hist law small F elections_unique [OF el(2)]] by (simp add: c')
  moreover have "node_log_ok (logs c') (elected c') j (nodes c j)" if j: "j \<in> set (members c)" "i \<noteq> j" for j
  proof -
    have recorded: "(currentTerm (nodes c k), k) \<in> elected c"
      if "k \<in> set (members c)" "currentRole (nodes c k) = Leader" for k
      using that el(1) node [of k] by (auto simp: elections_ok_def leaders_recorded_def node_log_ok_def)
    have "currentTerm (nodes c j) \<noteq> currentTerm ?s" if "currentRole (nodes c j) = Leader" "currentRole ?s = Leader"
      using recorded [OF i that(2)] recorded [OF j(1) that(1)] elections_unique [OF el(1)] j(2) by metis
    moreover have "rlog ?s \<in> set (logs c)" using node [OF i] by (simp add: node_log_ok_def)
    ultimately show ?thesis
      using node_log_ok_other [OF node [OF j(1)] j(2) law F] by (simp add: c')
  qed
  moreover have "call_log_ok (logs c') k" if "k \<in> set cs" for k
    using cs [OF that] by (rule call_log_ok_mono) (auto simp: c')
  moreover have "nodes c' = (nodes c)(i := t)" "members c' = members c" "calls c' = cs" by (simp_all add: c')
  ultimately show ?thesis unfolding log_inv_def by auto
qed

text \<open>The requests a send thread builds.\<close>

lemma build_append_request_next_ok:
  assumes "build_append_request target s = Some (r, ctx)"
  shows "next_ok target s"
proof -
  let ?ni = "next_of target s"
  have "?ni > 1 \<Longrightarrow> vec_at (rlog s) (?ni - 2) \<noteq> None"
    "collect_entries (rlog s) (log_size s) (?ni - 1) [] \<noteq> None"
    using assms by (auto simp: build_append_request_def Let_def split: Option.bind_splits if_splits)
  moreover have "?ni - 1 < 0 \<Longrightarrow> collect_entries (rlog s) (log_size s) (?ni - 1) [] = None"
    by (rule collect_entries_negative) (auto simp: log_size_def)
  ultimately have "\<not> ?ni < 1" "1 < ?ni \<Longrightarrow> ?ni - 2 < int (length (rlog s))" by (auto simp: vec_simps)
  then show ?thesis by (cases "1 < ?ni") (simp_all add: next_ok_def log_size_def)
qed

lemma build_append_request_cases:
  assumes "build_append_request target s = Some (r, ctx)"
  shows "next_ok target s" "r = probe_request target s" "ctx = probe_ctx target s"
  using build_append_request_next_ok [OF assms] build_append_request_ok assms by auto

lemma request_from_probe:
  assumes "node_log_ok LS E i s" "next_ok target s"
  shows "request_from LS (probe_request target s)"
proof -
  have "next_of target s - 1 - 1 = next_of target s - 2" by simp
  with assms show ?thesis
    unfolding request_from_def
    by (intro bexI [of _ "rlog s"]) (auto simp: probe_request_def next_ok_def node_log_ok_def log_size_def)
qed

lemma built_request:
  "build_append_request target s = Some (r, ctx) \<Longrightarrow> node_log_ok LS E i s \<Longrightarrow> request_from LS r"
  using build_append_request_cases request_from_probe by blast

lemma thread_log_law:
  assumes "run_thread d th s = Some (t, out)" "node_log_ok LS E i s"
  shows "log_law LS s t" "\<And>k. k \<in> set out \<Longrightarrow> call_log_ok LS k"
proof -
  have "rlog t = rlog s"
    using assms(1) by (cases th) (auto simp: start_election_timer_def start_heartbeat_timer_def start_timer_def
      become_candidate_def request_votes_def spawn_all_eq send_entries_def sync_wakeup_def sync_finish_def Let_def
      split: Option.bind_splits)
  then show "log_law LS s t" by (rule same_log_law [OF run_thread_law [OF assms(1)] _ assms(2)])
  fix k
  assume "k \<in> set out"
  then show "call_log_ok LS k"
    using assms(1) built_request [OF _ assms(2)] by (cases th) (auto split: Option.bind_splits)
qed

text \<open>Every event stores a state its node's operation leads to, under the log contract.\<close>

lemma local_log_law:
  assumes "node_log_ok LS E i s"
  shows "log_law LS s (serving s)" "log_law LS s (stop_server s)" "log_law LS s (kill s)"
    "log_law LS s (run d (connect_peers s))"
    "log_law LS s (fst (reply_vote req s))"
proof -
  note same = same_log_law [OF _ _ assms]
  show "log_law LS s (serving s)" "log_law LS s (stop_server s)" "log_law LS s (kill s)"
    by (rule same [OF same_election_law [OF quiet_ops(7)]], simp add: serving_def)
      (rule same [OF same_election_law [OF quiet_ops(8)]], simp add: stop_server_def,
       rule same [OF same_election_law [OF quiet_ops(9)]], simp add: kill_def)
  show "log_law LS s (run d (connect_peers s))" using assms by (simp add: log_law_def node_log_ok_def)
  show "log_law LS s (fst (reply_vote req s))" by (rule same [OF reply_vote_law]) simp
qed

lemma vote_reply_log_law:
  assumes "node_log_ok LS E i s" "peers s \<noteq> []"
  shows "log_law LS s (handle_vote_reply target et rep s)"
proof (cases "counts_vote et rep s")
  case True
  then show ?thesis by (rule counted_log_law [OF _ assms(2,1)])
next
  case False
  have "rlog (handle_vote_reply target et rep s) = rlog s" by (auto simp: handle_vote_reply_def Let_def)
  then show ?thesis by (rule same_log_law [OF handle_vote_reply_uncounted [OF False] _ assms(1)])
qed

lemma append_reply_log_law:
  assumes "node_log_ok LS E i s" "handle_append_reply target req ctx rep s = Some t"
  shows "log_law LS s t"
proof (rule same_log_law [OF handle_append_reply_law [OF assms(2)] _ assms(1)])
  show "rlog t = rlog s"
    using assms(2)
  proof (cases rule: handle_append_reply_cases)
    case (2 s1)
    have "rlog t = rlog s1" if "backtrack target ctx rep s1 = Some t"
      using that by (auto simp: backtrack_def Let_def split: option.splits Option.bind_splits if_splits)
    moreover have "rlog t = rlog s1" if "advance_commit target req ctx s1 = Some t"
      using that by (auto simp: advance_commit_def Let_def split: Option.bind_splits if_splits
          dest!: apply_entries_frame(1))
    ultimately show ?thesis using 2 by auto
  qed simp
qed

definition log_event :: "cluster \<Rightarrow> cluster \<Rightarrow> bool" where
  "log_event c c' \<longleftrightarrow>
     (\<exists>cs. set cs \<subseteq> set (calls c) \<and> c' = c\<lparr>calls := cs\<rparr>) \<or>
     (\<exists>i t cs n. i \<in> set (members c) \<and> c' = put_node i t (c\<lparr>calls := cs, elections := n\<rparr>) \<and>
        log_law (logs c) (nodes c i) t \<and> (\<forall>k \<in> set cs. call_log_ok (logs c) k))"

lemma log_eventI:
  assumes "i \<in> set (members c)" "c' = put_node i t (c\<lparr>calls := cs, elections := n\<rparr>)"
    "log_law (logs c) (nodes c i) t" "\<And>k. k \<in> set cs \<Longrightarrow> call_log_ok (logs c) k"
  shows "log_event c c'"
  using assms unfolding log_event_def by blast

lemma log_inv_node: "log_inv c \<Longrightarrow> i \<in> set (members c) \<Longrightarrow> node_log_ok (logs c) (elected c) i (nodes c i)"
  by (simp add: log_inv_def)

lemma log_inv_call: "log_inv c \<Longrightarrow> k \<in> set (calls c) \<Longrightarrow> call_log_ok (logs c) k"
  by (simp add: log_inv_def)

lemma local_log_event:
  assumes "log_inv c" "local_op i f c = Some c'"
    and "\<And>s. node_log_ok (logs c) (elected c) i s \<Longrightarrow> log_law (logs c) s (f s)"
  shows "log_event c c'"
  using assms(2)
proof (rule local_opE)
  assume i: "i \<in> set (members c)" and c': "c' = put_node i (f (nodes c i)) c"
  show ?thesis
    by (rule log_eventI [OF i, where cs = "calls c" and n = "elections c"])
      (use c' assms(1,3) i log_inv_node log_inv_call in auto)
qed

lemma set_list_update: "x \<in> set (xs[k := y]) \<Longrightarrow> x = y \<or> x \<in> set xs"
  using set_update_subset_insert [of xs k y] by blast

lemma deliver_log_event:
  assumes inv: "log_inv c" and op: "deliver_op k c = Some c'"
  shows "log_event c c'"
proof (cases "calls c ! k")
  case (VoteReq f t req et)
  obtain s rep where r: "reply_vote req (nodes c t) = (s, rep)" by fastforce
  have t: "t \<in> set (members c)"
    and c': "c' = put_node t s (c\<lparr>calls := (calls c)[k := VoteRep f t rep et], elections := elections c\<rparr>)"
    using op VoteReq r by (auto simp: deliver_op_def service_RequestVote_def split: if_splits)
  have "log_law (logs c) (nodes c t) s" using local_log_law(5) [OF log_inv_node [OF inv t], of req] r by simp
  then show ?thesis
    by (rule log_eventI [OF t c']) (auto dest!: set_list_update intro: log_inv_call [OF inv])
next
  case (AppReq f t req ctx)
  then obtain s rep where k: "k < length (calls c)" and t: "t \<in> set (members c)"
    and a: "append_entries req (nodes c t) = Some (s, rep)"
    and c': "c' = put_node t s (c\<lparr>calls := (calls c)[k := AppRep f t rep req ctx], elections := elections c\<rparr>)"
    using op by (auto simp: deliver_op_def service_AppendEntries_def split: if_splits Option.bind_splits)
  have r: "request_from (logs c) req" using log_inv_call [OF inv nth_mem [OF k]] AppReq by simp
  have "history_log_ok (logs c) (elected c)" using inv by (simp add: log_inv_def)
  from append_entries_log_law [OF a r log_inv_node [OF inv t] this] show ?thesis
    by (rule log_eventI [OF t c']) (use r in \<open>auto dest!: set_list_update intro: log_inv_call [OF inv]\<close>)
qed (use op in \<open>auto simp: deliver_op_def split: if_splits\<close>)

lemma return_log_event:
  assumes inv: "log_inv c" and el: "election_inv c" and op: "return_op k c = Some c'"
  shows "log_event c c'"
proof (cases "calls c ! k")
  case (VoteRep f t reply et)
  then have k: "k < length (calls c)" and f: "f \<in> set (members c)"
    and c': "c' = put_node f (handle_vote_reply t et reply (nodes c f))
        (c\<lparr>calls := remove_nth k (calls c), elections := elections c\<rparr>)"
    using op by (auto simp: return_op_def split: if_splits)
  have "peers (nodes c f) \<noteq> []" using election_inv_call [OF el nth_mem [OF k]] VoteRep by simp
  from vote_reply_log_law [OF log_inv_node [OF inv f] this] show ?thesis
    by (rule log_eventI [OF f c']) (auto dest!: in_set_remove_nthD intro: log_inv_call [OF inv])
next
  case (AppRep f t reply req ctx)
  then obtain s where f: "f \<in> set (members c)"
    and h: "handle_append_reply t req ctx reply (nodes c f) = Some s"
    and c': "c' = put_node f s (c\<lparr>calls := remove_nth k (calls c), elections := elections c\<rparr>)"
    using op by (auto simp: return_op_def split: if_splits Option.bind_splits)
  from append_reply_log_law [OF log_inv_node [OF inv f] h] show ?thesis
    by (rule log_eventI [OF f c']) (auto dest!: in_set_remove_nthD intro: log_inv_call [OF inv])
qed (use op in \<open>auto simp: return_op_def split: if_splits\<close>)

lemma thread_log_event:
  assumes inv: "log_inv c" and op: "thread_op i k d c = Some c'"
  shows "log_event c c'"
  using op
proof (rule thread_opE)
  fix t out
  let ?s = "nodes c i\<lparr>threads := remove_nth k (threads (nodes c i))\<rparr>"
  assume i: "i \<in> set (members c)" and run: "run_thread d (threads (nodes c i) ! k) ?s = Some (t, out)"
    and c': "c' = put_node i t (c\<lparr>calls := calls c @ out, elections :=
       (if threads (nodes c i) ! k = TBecomeCandidate then elections c + 1 else elections c)\<rparr>)"
  have ok: "node_log_ok (logs c) (elected c) i ?s"
    using log_inv_node [OF inv i] by (simp add: node_log_ok_def log_size_def)
  have "log_law (logs c) (nodes c i) t"
    using thread_log_law(1) [OF run ok] by (simp add: log_law_def log_pushed_def)
  then show ?thesis
    by (rule log_eventI [OF i c']) (use thread_log_law(2) [OF run ok] log_inv_call [OF inv] in auto)
qed

lemma exec_log_event:
  assumes inv: "log_inv c" and el: "election_inv c" and ex: "exec ev c = Some c'"
  shows "log_event c c'"
proof (cases ev)
  case (EvFail k)
  then have "c' = c\<lparr>calls := remove_nth k (calls c)\<rparr>" using ex by (auto split: if_splits)
  moreover have "set (remove_nth k (calls c)) \<subseteq> set (calls c)" by (rule set_remove_nth)
  ultimately show ?thesis unfolding log_event_def by metis
next
  case (EvThread i k d)
  then show ?thesis using ex thread_log_event [OF inv] by simp
next
  case (EvDeliver k)
  then show ?thesis using ex deliver_log_event [OF inv] by simp
next
  case (EvReturn k)
  then show ?thesis using ex return_log_event [OF inv el] by simp
qed (use ex in \<open>auto elim!: local_log_event [OF inv] intro: local_log_law propose_log_law split: if_splits\<close>)

section \<open>The invariant holds\<close>

definition cluster_inv :: "cluster \<Rightarrow> bool" where
  "cluster_inv c \<longleftrightarrow> elections_ok c \<and> log_inv c"

lemma log_event_inv:
  assumes "cluster_inv c" "log_event c c'" "elections_ok c'" "\<forall>i \<in> set (members c'). log_size (nodes c' i) < 2 ^ 62"
  shows "log_inv c'"
  using assms(2) unfolding log_event_def
proof (elim disjE exE conjE)
  fix cs
  assume "set cs \<subseteq> set (calls c)" "c' = c\<lparr>calls := cs\<rparr>"
  with assms(1) show ?thesis by (auto simp: cluster_inv_def log_inv_def)
next
  fix i t cs n
  assume i: "i \<in> set (members c)" and c': "c' = put_node i t (c\<lparr>calls := cs, elections := n\<rparr>)"
    and law: "log_law (logs c) (nodes c i) t" and cs: "\<forall>k \<in> set cs. call_log_ok (logs c) k"
  have inv: "log_inv c" "elections_ok c" using assms(1) by (simp_all add: cluster_inv_def)
  have "log_size t < 2 ^ 62" using assms(4) i c' by force
  then show ?thesis using put_log_inv [OF inv(1) i inv(2) assms(3) c' law] cs by blast
qed

lemma exec_members: "exec ev c = Some c' \<Longrightarrow> members c' = members c"
  by (erule exec_shape) simp_all

lemma init_log_inv:
  assumes "wf_configs cfgs" "\<forall>i. garbage i \<noteq> Leader"
  shows "log_inv (init_cluster cfgs garbage)"
  using assms(2)
  by (auto simp: log_inv_def history_log_ok_def node_log_ok_def nodes_init Raft_new_def terms_below_def
      log_size_def split: option.split)

interpretation matching: inductive_invariant "tame_init cfgs" tame_step cluster_inv for cfgs
proof
  fix c
  assume "tame_init cfgs c"
  then obtain garbage where wf: "wf_configs cfgs" "odd (length cfgs)" "\<forall>i. garbage i \<noteq> Leader"
    and c: "c = init_cluster cfgs garbage" by (auto simp: tame_init_def)
  have "reachable cfgs c" using wf(1) c by (auto intro!: reach.start simp: cluster_init_def)
  from reachable_facts [OF this] this wf have "elections_ok c" unfolding elections_ok_def by metis
  then show "cluster_inv c" using init_log_inv [OF wf(1,3)] by (simp add: cluster_inv_def c)
next
  fix c c'
  assume inv: "cluster_inv c" and "tame_step c c'"
  then obtain ev where ev: "exec ev c = Some c'"
    and small: "\<forall>i \<in> set (members c'). log_size (nodes c' i) < 2 ^ 62"
    by (auto simp: tame_step_def cluster_step_iff)
  have el: "election_inv c" "leaders_recorded c" "odd (card (set (members c)))" "log_inv c"
    using inv by (simp_all add: cluster_inv_def elections_ok_def)
  have "elections_ok c'"
    using exec_inv [OF el(1) ev] exec_leaders_recorded [OF el(2) ev] el(3) exec_members [OF ev]
    by (simp add: elections_ok_def)
  with log_event_inv [OF inv exec_log_event [OF el(4,1) ev] _ small] show "cluster_inv c'"
    by (simp add: cluster_inv_def)
qed

text \<open>What the clients of the invariant use.\<close>

lemma tame_log:
  assumes "tame cfgs c" "i \<in> set (members c)"
  shows "rlog (nodes c i) \<in> set (logs c)" "terms_below (rlog (nodes c i)) (currentTerm (nodes c i))"
    "sorted_terms (rlog (nodes c i))"
  using matching.always [OF assms(1)] assms(2)
  by (auto simp: cluster_inv_def log_inv_def node_log_ok_def history_log_ok_def)

lemma tame_match: "tame cfgs c \<Longrightarrow> l \<in> set (logs c) \<Longrightarrow> m \<in> set (logs c) \<Longrightarrow> logs_match l m"
  by (drule matching.always) (simp add: cluster_inv_def log_inv_def history_log_ok_def)

lemma tame_owns:
  assumes "tame cfgs c" "i \<in> set (members c)" "currentRole (nodes c i) = Leader"
  shows "owns (logs c) (currentTerm (nodes c i)) (rlog (nodes c i))"
  using matching.always [OF assms(1)] assms(2,3) by (auto simp: cluster_inv_def log_inv_def node_log_ok_def)

end
