(* ===== verification/TermBound.thy ===== *)
theory TermBound
  imports NodeLaws
begin

text \<open>
  Terms are bounded by the number of elections started: every term in a node or a message is at
  most the number of times some node has become a candidate. The \<^verbatim>\<open>int64_t\<close> terms therefore do not
  overflow before \<open>2 ^ 63\<close> elections.
\<close>

section \<open>Terms in messages\<close>

fun call_term :: "call \<Rightarrow> i64_t" where
  "call_term (VoteReq f t req et) = rv_term req"
| "call_term (VoteRep f t rep et) = rvr_term rep"
| "call_term (AppReq f t req ctx) = ae_term req"
| "call_term (AppRep f t rep req ctx) = aer_term rep"

definition term_ok :: "nat \<Rightarrow> i64_t \<Rightarrow> bool" where
  "term_ok n T \<longleftrightarrow> 0 \<le> T \<and> T \<le> int n"

definition term_inv :: "cluster \<Rightarrow> bool" where
  "term_inv c \<longleftrightarrow>
     (\<forall>i \<in> set (members c). term_ok (elections c) (currentTerm (nodes c i))) \<and>
     (\<forall>k \<in> set (calls c). term_ok (elections c) (call_term k))"

lemma term_ok_mono: "term_ok n T \<Longrightarrow> n \<le> m \<Longrightarrow> term_ok m T"
  by (simp add: term_ok_def)

lemma term_ok_zero [simp]: "term_ok n 0"
  by (simp add: term_ok_def)

section \<open>What the operations do to the term\<close>

lemma run_thread_term:
  assumes "run_thread d th s = Some (t, out)"
  shows "currentTerm t = (if th = TBecomeCandidate then currentTerm s + 1 else currentTerm s)"
    and "\<And>k. k \<in> set out \<Longrightarrow> call_term k = currentTerm s"
proof -
  show "currentTerm t = (if th = TBecomeCandidate then currentTerm s + 1 else currentTerm s)"
    using assms by (cases th) (auto simp: start_election_timer_def start_heartbeat_timer_def start_timer_def
      become_candidate_def request_votes_def spawn_all_eq send_entries_def sync_wakeup_def sync_finish_def Let_def
      split: Option.bind_splits)
  fix k
  assume "k \<in> set out"
  then show "call_term k = currentTerm s"
    using assms by (cases th) (auto simp: build_vote_request_def build_append_request_def Let_def
        split: Option.bind_splits if_splits)
qed

lemma reply_vote_term:
  assumes "term_ok n (currentTerm s)" "term_ok n (rv_term r)"
  shows "term_ok n (currentTerm (fst (reply_vote r s)))" "term_ok n (rvr_term (snd (reply_vote r s)))"
proof -
  have "currentTerm (fst (reply_vote r s)) = currentTerm s \<or> currentTerm (fst (reply_vote r s)) = rv_term r"
    using reply_vote_granted_state(1) [of r s] reply_vote_denied_state [of r s]
    by (cases "grants_vote r s") auto
  moreover have "rvr_term (snd (reply_vote r s)) \<in> {0, currentTerm s, rv_term r}"
    by (auto simp: reply_vote_def Let_def empty_vote_reply_def)
  ultimately show "term_ok n (currentTerm (fst (reply_vote r s)))" "term_ok n (rvr_term (snd (reply_vote r s)))"
    using assms by (force+)
qed

lemma append_entries_term:
  assumes "append_entries r s = Some (t, rep)" "term_ok n (currentTerm s)" "term_ok n (ae_term r)"
  shows "term_ok n (currentTerm t)" "term_ok n (aer_term rep)"
proof -
  have m: "term_ok n (max (currentTerm s) (ae_term r))" using assms(2,3) by (simp add: max_def)
  show "term_ok n (currentTerm t)"
    using assms(1)
    by (cases rule: append_entries_shape)
      (use assms(2) m in \<open>auto dest!: apply_entries_same_election simp: same_election_def\<close>)
  have "aer_term rep \<in> {0, currentTerm s, max (currentTerm s) (ae_term r)}"
    using assms(1) by (auto simp: append_entries_def Let_def empty_append_reply_def
        split: if_splits Option.bind_splits)
  then show "term_ok n (aer_term rep)" using assms(2) m by auto
qed

lemma handle_vote_reply_term:
  "term_ok n (currentTerm s) \<Longrightarrow> term_ok n (rvr_term rep) \<Longrightarrow>
   term_ok n (currentTerm (handle_vote_reply target et rep s))"
proof -
  have "currentTerm (handle_vote_reply target et rep s) \<in> {currentTerm s, rvr_term rep}"
    by (cases "rvr_vote_granted rep"; cases "rvr_term rep > currentTerm s")
      (auto simp: handle_vote_reply_def Let_def)
  then show "term_ok n (currentTerm s) \<Longrightarrow> term_ok n (rvr_term rep) \<Longrightarrow> ?thesis" by auto
qed

lemma handle_append_reply_term:
  assumes "handle_append_reply target req ctx rep s = Some t" "term_ok n (currentTerm s)" "term_ok n (aer_term rep)"
  shows "term_ok n (currentTerm t)"
  using assms(1)
proof (cases rule: handle_append_reply_cases)
  case (2 s1)
  have "currentTerm s1 = currentTerm s" by (simp add: 2(1))
  with 2(2) assms(2,3) show ?thesis
    by (auto dest!: backtrack_same_election advance_commit_same_election simp: same_election_def)
qed (use assms(2) in simp)

section \<open>Preservation\<close>

lemma put_term_inv:
  assumes "term_inv c" "term_ok n (currentTerm t)" "elections c \<le> n"
    and "\<And>k. k \<in> set cs \<Longrightarrow> term_ok n (call_term k)"
  shows "term_inv (put_node i t (c\<lparr>calls := cs, elections := n\<rparr>))"
  using assms term_ok_mono by (auto simp: term_inv_def)

lemma thread_term_inv:
  assumes inv: "term_inv c" and op: "thread_op i k d c = Some c'"
  shows "term_inv c'"
  using op
proof (rule thread_opE)
  fix t out
  let ?s = "nodes c i\<lparr>threads := remove_nth k (threads (nodes c i))\<rparr>" and ?th = "threads (nodes c i) ! k"
  assume i: "i \<in> set (members c)" and run: "run_thread d ?th ?s = Some (t, out)"
    and c': "c' = put_node i t (c\<lparr>calls := calls c @ out, elections :=
       (if ?th = TBecomeCandidate then elections c + 1 else elections c)\<rparr>)"
  have s: "term_ok (elections c) (currentTerm ?s)" using inv i by (simp add: term_inv_def)
  show ?thesis
    unfolding c'
  proof (rule put_term_inv [OF inv])
    show "term_ok (if ?th = TBecomeCandidate then elections c + 1 else elections c) (currentTerm t)"
      using run_thread_term(1) [OF run] s by (auto simp: term_ok_def)
    fix k
    assume "k \<in> set (calls c @ out)"
    then have "term_ok (elections c) (call_term k)"
      using inv run_thread_term(2) [OF run] s by (auto simp: term_inv_def)
    then show "term_ok (if ?th = TBecomeCandidate then elections c + 1 else elections c) (call_term k)"
      by (rule term_ok_mono) simp
  qed simp
qed

lemma term_inv_node: "term_inv c \<Longrightarrow> i \<in> set (members c) \<Longrightarrow> term_ok (elections c) (currentTerm (nodes c i))"
  by (simp add: term_inv_def)

lemma term_inv_call: "term_inv c \<Longrightarrow> k < length (calls c) \<Longrightarrow> term_ok (elections c) (call_term (calls c ! k))"
  by (simp add: term_inv_def)

lemma deliver_term_inv:
  assumes inv: "term_inv c" and op: "deliver_op k c = Some c'"
  shows "term_inv c'"
proof (cases "calls c ! k")
  case (VoteReq f t req et)
  obtain s rep where r: "reply_vote req (nodes c t) = (s, rep)" by fastforce
  have k: "k < length (calls c)" and t: "t \<in> set (members c)"
    and c': "c' = put_node t s (c\<lparr>calls := (calls c)[k := VoteRep f t rep et], elections := elections c\<rparr>)"
    using op VoteReq r by (auto simp: deliver_op_def service_RequestVote_def split: if_splits)
  have "term_ok (elections c) (currentTerm s)" "term_ok (elections c) (rvr_term rep)"
    using reply_vote_term [OF term_inv_node [OF inv t], of req] term_inv_call [OF inv k] VoteReq r by simp_all
  then show ?thesis unfolding c'
    using inv set_update_subset_insert [of "calls c" k "VoteRep f t rep et"]
    by (intro put_term_inv) (auto simp: term_inv_def)
next
  case (AppReq f t req ctx)
  then obtain s rep where k: "k < length (calls c)" and t: "t \<in> set (members c)"
    and a: "append_entries req (nodes c t) = Some (s, rep)"
    and c': "c' = put_node t s (c\<lparr>calls := (calls c)[k := AppRep f t rep req ctx], elections := elections c\<rparr>)"
    using op by (auto simp: deliver_op_def service_AppendEntries_def split: if_splits Option.bind_splits)
  have "term_ok (elections c) (currentTerm s)" "term_ok (elections c) (aer_term rep)"
    using append_entries_term [OF a term_inv_node [OF inv t]] term_inv_call [OF inv k] AppReq by simp_all
  then show ?thesis unfolding c'
    using inv set_update_subset_insert [of "calls c" k "AppRep f t rep req ctx"]
    by (intro put_term_inv) (auto simp: term_inv_def)
qed (use op in \<open>auto simp: deliver_op_def split: if_splits\<close>)

lemma return_term_inv:
  assumes inv: "term_inv c" and op: "return_op k c = Some c'"
  shows "term_inv c'"
proof (cases "calls c ! k")
  case (VoteRep f t rep et)
  then have k: "k < length (calls c)" and f: "f \<in> set (members c)"
    and c': "c' = put_node f (handle_vote_reply t et rep (nodes c f))
        (c\<lparr>calls := remove_nth k (calls c), elections := elections c\<rparr>)"
    using op by (auto simp: return_op_def split: if_splits)
  have "term_ok (elections c) (rvr_term rep)" using term_inv_call [OF inv k] VoteRep by simp
  then show ?thesis unfolding c'
    using inv handle_vote_reply_term [OF term_inv_node [OF inv f]]
    by (intro put_term_inv) (auto simp: term_inv_def dest!: in_set_remove_nthD)
next
  case (AppRep f t rep req ctx)
  then obtain s where k: "k < length (calls c)" and f: "f \<in> set (members c)"
    and h: "handle_append_reply t req ctx rep (nodes c f) = Some s"
    and c': "c' = put_node f s (c\<lparr>calls := remove_nth k (calls c), elections := elections c\<rparr>)"
    using op by (auto simp: return_op_def split: if_splits Option.bind_splits)
  have "term_ok (elections c) (aer_term rep)" using term_inv_call [OF inv k] AppRep by simp
  then show ?thesis unfolding c'
    using inv handle_append_reply_term [OF h term_inv_node [OF inv f]]
    by (intro put_term_inv) (auto simp: term_inv_def dest!: in_set_remove_nthD)
qed (use op in \<open>auto simp: return_op_def split: if_splits\<close>)

lemma local_term_inv:
  assumes "term_inv c" "local_op i f c = Some c'" "currentTerm (f (nodes c i)) = currentTerm (nodes c i)"
  shows "term_inv c'"
  using assms by (auto simp: local_op_def term_inv_def split: if_splits)

lemma exec_term_inv:
  assumes inv: "term_inv c" and ex: "exec ev c = Some c'"
  shows "term_inv c'"
proof (cases ev)
  case (EvFail k)
  then have "c' = c\<lparr>calls := remove_nth k (calls c)\<rparr>" using ex by (simp split: if_splits)
  with inv show ?thesis by (auto simp: term_inv_def dest!: in_set_remove_nthD)
next
  case (EvThread i k d)
  then show ?thesis using ex thread_term_inv [OF inv] by simp
next
  case (EvDeliver k)
  then show ?thesis using ex deliver_term_inv [OF inv] by simp
next
  case (EvReturn k)
  then show ?thesis using ex return_term_inv [OF inv] by simp
next
  case (EvPropose i data)
  then show ?thesis using ex local_term_inv [OF inv] quiet_ops(6) by (auto simp: same_election_def)
next
  case (EvProposeSync i data)
  then show ?thesis using ex local_term_inv [OF inv] propose_sync_quiet by (auto simp: same_election_def)
qed (use ex in \<open>auto simp: serving_def stop_server_def kill_def split: if_splits elim!: local_term_inv [OF inv]\<close>)

interpretation terms: inductive_invariant "cluster_init cfgs" cluster_step term_inv for cfgs
proof
  fix c
  assume "cluster_init cfgs c"
  then show "term_inv c"
    by (auto simp: cluster_init_def term_inv_def nodes_init Raft_new_def split: option.split)
qed (auto simp: cluster_step_iff intro: exec_term_inv)

end
