(* ===== verification/LeaderLogs.thy ===== *)
theory LeaderLogs
  imports LogMatching TermBound "HOL-Library.Sublist"
begin

section \<open>The history of a fenced execution\<close>

text \<open>
  \<open>g_held\<close>: a node has had this log in this term; \<open>g_lead\<close>: a leader of this term has had this log;
  \<open>g_early\<close>: a node has had this log in this term while the term had no leader.
\<close>

record ghost =
  g_held :: "(u64_t \<times> i64_t \<times> entry list) set"
  g_lead :: "(i64_t \<times> entry list) set"
  g_early :: "(u64_t \<times> i64_t \<times> entry list) set"

text \<open>\<open>p\<close> has been stored by a quorum in the term of its last entry.\<close>

definition chosen :: "u64_t set \<Rightarrow> ghost \<Rightarrow> i64_t \<Rightarrow> entry list \<Rightarrow> bool" where
  "chosen M g T p \<longleftrightarrow>
     p \<noteq> [] \<and> e_term (last p) = T \<and>
     (\<exists>Q. vote_quorum M Q \<and> (\<forall>v \<in> Q. \<exists>l. (v, T, l) \<in> g_held g \<and> prefix p l))"

text \<open>A winner of a term: what its log was then, and whom it was compared with.\<close>

definition won_with :: "u64_t set \<Rightarrow> ghost \<Rightarrow> i64_t \<Rightarrow> entry list \<Rightarrow> u64_t set \<Rightarrow> bool" where
  "won_with M g T m0 Q \<longleftrightarrow>
     vote_quorum M Q \<and> (\<forall>e \<in> set m0. e_term e < T) \<and>
     (\<forall>v \<in> Q. \<exists>lv. (v, T, lv) \<in> g_early g \<and> at_least_as_up_to_date m0 lv) \<and>
     (\<forall>m. (T, m) \<in> g_lead g \<longrightarrow> prefix m0 m)"

text \<open>
  \<open>kept g T U p l\<close>: what was \<open>p\<close> in term \<open>T\<close> is still at the beginning of \<open>l\<close>, or a leader of a term
  from \<open>T\<close> up to \<open>U\<close> has contradicted it.
\<close>

definition kept :: "ghost \<Rightarrow> i64_t \<Rightarrow> i64_t \<Rightarrow> entry list \<Rightarrow> entry list \<Rightarrow> bool" where
  "kept g T U p l \<longleftrightarrow> prefix p l \<or> (\<exists>V m. T \<le> V \<and> V \<le> U \<and> (V, m) \<in> g_lead g \<and> p \<parallel> m)"

definition ghost_ok :: "u64_t set \<Rightarrow> entry list list \<Rightarrow> (i64_t \<times> u64_t) set \<Rightarrow> ghost \<Rightarrow> bool" where
  "ghost_ok M LS E g \<longleftrightarrow>
     (\<forall>T m. (T, m) \<in> g_lead g \<longrightarrow> m \<in> set LS \<and> 0 \<le> T \<and> (\<exists>x. (T, x) \<in> E)) \<and>
     (\<forall>T m1 m2. (T, m1) \<in> g_lead g \<longrightarrow> (T, m2) \<in> g_lead g \<longrightarrow> \<not> m1 \<parallel> m2) \<and>
     (\<forall>l \<in> set LS. \<forall>k < length l. \<exists>m. (e_term (l ! k), m) \<in> g_lead g \<and> prefix (take (Suc k) l) m) \<and>
     (\<forall>v T l. (v, T, l) \<in> g_held g \<longrightarrow> l \<in> set LS) \<and>
     (\<forall>v T l. (v, T, l) \<in> g_early g \<longrightarrow> l \<in> set LS) \<and>
     (\<forall>T x. (T, x) \<in> E \<longrightarrow> (\<exists>m0 Q. m0 \<in> set LS \<and> won_with M g T m0 Q)) \<and>
     (\<forall>v U lv T l p. (v, U, lv) \<in> g_early g \<longrightarrow> (v, T, l) \<in> g_held g \<longrightarrow> T < U \<longrightarrow> prefix p l \<longrightarrow>
        kept g T (U - 1) p lv)"

lemma ghost_okD:
  assumes "ghost_ok M LS E g"
  shows "(T, m) \<in> g_lead g \<Longrightarrow> m \<in> set LS" "(T, m) \<in> g_lead g \<Longrightarrow> 0 \<le> T" "(T, m) \<in> g_lead g \<Longrightarrow> \<exists>x. (T, x) \<in> E"
    "(T, m) \<in> g_lead g \<Longrightarrow> (T, m') \<in> g_lead g \<Longrightarrow> \<not> m \<parallel> m'"
    "l \<in> set LS \<Longrightarrow> k < length l \<Longrightarrow> \<exists>m. (e_term (l ! k), m) \<in> g_lead g \<and> prefix (take (Suc k) l) m"
    "(v, T, l) \<in> g_held g \<Longrightarrow> l \<in> set LS" "(v, T, l) \<in> g_early g \<Longrightarrow> l \<in> set LS"
    "(T, x) \<in> E \<Longrightarrow> \<exists>m0 Q. m0 \<in> set LS \<and> won_with M g T m0 Q"
    "(v, U, lv) \<in> g_early g \<Longrightarrow> (v, T, l) \<in> g_held g \<Longrightarrow> T < U \<Longrightarrow> prefix p l \<Longrightarrow> kept g T (U - 1) p lv"
proof -
  note D = assms [unfolded ghost_ok_def]
  note D1 = D [THEN conjunct1, rule_format]
  show "(T, m) \<in> g_lead g \<Longrightarrow> m \<in> set LS" by (rule D1 [THEN conjunct1])
  show "(T, m) \<in> g_lead g \<Longrightarrow> 0 \<le> T" by (rule D1 [THEN conjunct2, THEN conjunct1])
  show "(T, m) \<in> g_lead g \<Longrightarrow> \<exists>x. (T, x) \<in> E" by (rule D1 [THEN conjunct2, THEN conjunct2])
  show "(T, m) \<in> g_lead g \<Longrightarrow> (T, m') \<in> g_lead g \<Longrightarrow> \<not> m \<parallel> m'" using D by blast
  show "l \<in> set LS \<Longrightarrow> k < length l \<Longrightarrow> \<exists>m. (e_term (l ! k), m) \<in> g_lead g \<and> prefix (take (Suc k) l) m"
    using D by blast
  show "(v, T, l) \<in> g_held g \<Longrightarrow> l \<in> set LS" "(v, T, l) \<in> g_early g \<Longrightarrow> l \<in> set LS" using D by blast+
  show "(T, x) \<in> E \<Longrightarrow> \<exists>m0 Q. m0 \<in> set LS \<and> won_with M g T m0 Q" using D by blast
  show "(v, U, lv) \<in> g_early g \<Longrightarrow> (v, T, l) \<in> g_held g \<Longrightarrow> T < U \<Longrightarrow> prefix p l \<Longrightarrow> kept g T (U - 1) p lv"
    using D by blast
qed

section \<open>Prefixes\<close>

lemma not_parallel: "\<not> p \<parallel> m \<longleftrightarrow> prefix p m \<or> prefix m p"
  by (auto simp: parallel_def)

lemma prefixes_comparable: "prefix p l \<Longrightarrow> prefix q l \<Longrightarrow> \<not> p \<parallel> q"
  unfolding not_parallel by (rule prefix_same_cases)

lemma shorter_prefix: "\<not> p \<parallel> q \<Longrightarrow> length p \<le> length q \<Longrightarrow> prefix p q"
  unfolding not_parallel by (metis le_antisym prefix_length_le prefix_order.order_refl prefix_length_prefix)

text \<open>The last entry of a log names a leader whose log continues it.\<close>

lemma last_from_leader:
  assumes ok: "ghost_ok M LS E g" and l: "l \<in> set LS" "l \<noteq> []"
  obtains m where "(e_term (last l), m) \<in> g_lead g" "prefix l m"
  using ghost_okD(5) [OF ok l(1), of "length l - 1"] l(2) that by (auto simp: last_conv_nth)

lemma prefix_from_leader:
  assumes ok: "ghost_ok M LS E g" and l: "l \<in> set LS" "p \<noteq> []" "prefix p l"
  obtains m where "(e_term (last p), m) \<in> g_lead g" "prefix p m"
proof -
  let ?k = "length p - 1"
  have len: "length p \<le> length l" "p = take (length p) l"
    using l(3) by (auto simp: prefix_def)
  have k: "?k < length l" "Suc ?k = length p" using len(1) l(2) by (cases p; simp)+
  have "last p = p ! ?k" using l(2) by (rule last_conv_nth)
  also have "\<dots> = l ! ?k" using k by (subst len(2)) simp
  finally have "last p = l ! ?k" .
  moreover have "take (Suc ?k) l = p" using k(2) len(2) by simp
  ultimately show ?thesis using ghost_okD(5) [OF ok l(1) k(1)] that by auto
qed

lemma chosen_from_leader:
  assumes ok: "ghost_ok M LS E g" and ch: "chosen M g T p" and ne: "M \<noteq> {}"
  obtains m where "(T, m) \<in> g_lead g" "prefix p m"
proof -
  obtain Q where Q: "vote_quorum M Q" "\<And>v. v \<in> Q \<Longrightarrow> \<exists>l. (v, T, l) \<in> g_held g \<and> prefix p l"
    and p: "p \<noteq> []" "e_term (last p) = T"
    using ch by (auto simp: chosen_def)
  have "Q \<noteq> {}" using Q(1) by (auto simp: vote_quorum_def)
  then obtain v l where "(v, T, l) \<in> g_held g" "prefix p l" using Q(2) by blast
  from prefix_from_leader [OF ok ghost_okD(6) [OF ok this(1)] p(1) this(2)] p(2) that show ?thesis by metis
qed

section \<open>Leader completeness\<close>

text \<open>
  The step of the argument that compares logs: a log at least as up to date as one that begins with
  \<open>p\<close> begins with \<open>p\<close> itself, if the leaders between the term of \<open>p\<close> and its own do.
\<close>

lemma up_to_date_keeps:
  assumes ok: "ghost_ok M LS E g" and sorted: "\<And>l. l \<in> set LS \<Longrightarrow> sorted_terms l"
    and p: "p \<noteq> []" "e_term (last p) = T" "0 \<le> T"
    and lv: "lv \<in> set LS" "prefix p lv" and m0: "m0 \<in> set LS" "at_least_as_up_to_date m0 lv"
    and between: "\<And>V m. T < V \<Longrightarrow> (V, m) \<in> g_lead g \<Longrightarrow> m0 \<noteq> [] \<Longrightarrow> V = e_term (last m0) \<Longrightarrow> prefix p m"
  shows "prefix p m0"
proof -
  have lv_ne: "lv \<noteq> []" using p(1) lv(2) by auto
  have lt: "T \<le> last_log_term lv"
  proof -
    obtain r where r: "lv = p @ r" using lv(2) by (auto simp: prefix_def)
    have "sorted_terms (p @ r)" using sorted [OF lv(1)] r by simp
    then have "r \<noteq> [] \<Longrightarrow> e_term (last p) \<le> e_term (last r)"
      using p(1) by (auto simp: sorted_append)
    with p r lv_ne show ?thesis by (cases "r = []") (auto simp: last_log_term_def)
  qed
  have "m0 \<noteq> []"
    using m0(2) lt lv_ne p(3)
    by (auto simp: at_least_as_up_to_date_def candidate_up_to_date_iff last_log_term_def last_log_index_def)
  obtain m where m: "(e_term (last m0), m) \<in> g_lead g" "prefix m0 m"
    by (rule last_from_leader [OF ok m0(1) \<open>m0 \<noteq> []\<close>])
  have lltm: "last_log_term m0 = e_term (last m0)" using \<open>m0 \<noteq> []\<close> by (simp add: last_log_term_def)
  from m0(2) consider (later) "last_log_term lv < e_term (last m0)"
    | (same) "last_log_term lv = e_term (last m0)" "length lv \<le> length m0"
    by (auto simp: at_least_as_up_to_date_def candidate_up_to_date_iff lltm)
  then show ?thesis
  proof cases
    case same
    obtain n where n: "(e_term (last lv), n) \<in> g_lead g" "prefix lv n"
      by (rule last_from_leader [OF ok lv(1) lv_ne])
    have "\<not> n \<parallel> m" using ghost_okD(4) [OF ok n(1)] m(1) same(1) lv_ne by (simp add: last_log_term_def)
    then obtain w where "prefix lv w" "prefix m0 w"
      unfolding not_parallel using n(2) m(2) prefix_order.trans by metis
    then have "prefix lv m0" using same(2) by (meson prefixes_comparable shorter_prefix)
    with lv(2) show ?thesis by (rule prefix_order.trans)
  next
    case later
    have T: "T < e_term (last m0)" using lt later by simp
    have pm: "prefix p m" using between [OF T m(1) \<open>m0 \<noteq> []\<close> refl] .
    show ?thesis
    proof (cases "length p \<le> length m0")
      case True
      then show ?thesis using prefixes_comparable [OF pm m(2)] by (rule_tac shorter_prefix)
    next
      case False
      then have "prefix m0 p" using prefixes_comparable [OF m(2) pm] by (intro shorter_prefix) auto
      then obtain r where r: "p = m0 @ r" by (auto simp: prefix_def)
      have "sorted_terms p"
        using sorted [OF lv(1)] lv(2) by (auto simp: prefix_def sorted_append)
      then have "e_term (last m0) \<le> T"
        using r False p \<open>m0 \<noteq> []\<close> by (auto simp: sorted_append)
      with T show ?thesis by simp
    qed
  qed
qed

theorem leader_complete:
  assumes ok: "ghost_ok M LS E g" and sorted: "\<And>l. l \<in> set LS \<Longrightarrow> sorted_terms l"
    and ch: "chosen M g T p"
  shows "(U, m) \<in> g_lead g \<Longrightarrow> T < U \<Longrightarrow> prefix p m"
proof (induction "nat (U - T)" arbitrary: U m rule: less_induct)
  case less
  note IH = less(1) and m = less(2) and TU = less(3)
  obtain Q where Q: "vote_quorum M Q" "\<And>v. v \<in> Q \<Longrightarrow> \<exists>l. (v, T, l) \<in> g_held g \<and> prefix p l"
    and p: "p \<noteq> []" "e_term (last p) = T"
    using ch by (auto simp: chosen_def)
  obtain x where "(U, x) \<in> E" using ghost_okD(3) [OF ok m] by blast
  then obtain m0 R where m0: "m0 \<in> set LS" and R: "won_with M g U m0 R" using ghost_okD(8) [OF ok] by blast
  then have "vote_quorum M R" by (simp add: won_with_def)
  with Q(1) obtain v where v: "v \<in> Q" "v \<in> R" by (rule vq.common_member)
  obtain l where l: "(v, T, l) \<in> g_held g" "prefix p l" using Q(2) [OF v(1)] by blast
  obtain lv where lv: "(v, U, lv) \<in> g_early g" "at_least_as_up_to_date m0 lv"
    using R v(2) unfolding won_with_def by blast
  obtain m1 where m1: "(T, m1) \<in> g_lead g" "prefix p m1"
    using prefix_from_leader [OF ok ghost_okD(6) [OF ok l(1)] p(1) l(2)] p(2) by metis
  have "\<not> p \<parallel> n" if "T \<le> V" "V \<le> U - 1" "(V, n) \<in> g_lead g" for V n
  proof (cases "V = T")
    case True
    then have "\<not> m1 \<parallel> n" using ghost_okD(4) [OF ok m1(1)] that(3) by simp
    then show ?thesis
      unfolding not_parallel using m1(2) prefix_order.trans prefix_same_cases by metis
  next
    case False
    then have "prefix p n" using IH [OF _ that(3)] that(1,2) TU by simp
    then show ?thesis by (simp add: not_parallel)
  qed
  then have lvp: "prefix p lv" using ghost_okD(9) [OF ok lv(1) l(1) TU l(2)] by (auto simp: kept_def)
  have "prefix p m0"
  proof (rule up_to_date_keeps [OF ok sorted p _ ghost_okD(7) [OF ok lv(1)] lvp m0 lv(2)])
    fix V n
    assume V: "T < V" "(V, n) \<in> g_lead g" "m0 \<noteq> []" "V = e_term (last m0)"
    then have "V < U" using R V(3,4) by (auto simp: won_with_def)
    then show "prefix p n" using IH [OF _ V(2)] V(1) by simp
  qed (use ghost_okD(2) [OF ok m1(1)] in simp_all)
  moreover have "prefix m0 m" using R m by (simp add: won_with_def)
  ultimately show ?case by (rule prefix_order.trans)
qed

text \<open>Prefixes that have been chosen never contradict each other.\<close>

lemma chosen_comparable:
  assumes ok: "ghost_ok M LS E g" and sorted: "\<And>l. l \<in> set LS \<Longrightarrow> sorted_terms l" and ne: "M \<noteq> {}"
    and ch: "chosen M g T p" and lead: "(U, m) \<in> g_lead g" "T \<le> U"
  shows "\<not> p \<parallel> m"
proof (cases "T = U")
  case False
  then have "prefix p m" using leader_complete [OF ok sorted ch lead(1)] lead(2) by simp
  then show ?thesis by (simp add: not_parallel)
next
  case True
  obtain n where n: "(T, n) \<in> g_lead g" "prefix p n" by (rule chosen_from_leader [OF ok ch ne])
  have "\<not> n \<parallel> m" using ghost_okD(4) [OF ok n(1)] lead(1) True by simp
  then show ?thesis unfolding not_parallel using n(2) prefix_order.trans prefix_same_cases by metis
qed

lemma chosen_agree:
  assumes ok: "ghost_ok M LS E g" and sorted: "\<And>l. l \<in> set LS \<Longrightarrow> sorted_terms l" and ne: "M \<noteq> {}"
    and ch: "chosen M g T p" "chosen M g U q"
  shows "\<not> p \<parallel> q"
proof -
  have wlog: "\<not> p \<parallel> q" if ch: "chosen M g T p" "chosen M g U q" and "T \<le> U" for T U p q
  proof -
    obtain n where n: "(U, n) \<in> g_lead g" "prefix q n" by (rule chosen_from_leader [OF ok ch(2) ne])
    have "\<not> p \<parallel> n" by (rule chosen_comparable [OF ok sorted ne ch(1) n(1) that(3)])
    then show ?thesis unfolding not_parallel using n(2) prefix_order.trans prefix_same_cases by metis
  qed
  show ?thesis
    using wlog [OF ch] wlog [OF ch(2,1)] by (cases "T \<le> U") (auto simp: parallel_commute)
qed

end
