(* ===== verification/CommitSafety.thy ===== *)
theory CommitSafety
  imports LeaderLogs
begin

section \<open>What a node and a message know\<close>

definition committed :: "u64_t set \<Rightarrow> ghost \<Rightarrow> i64_t \<Rightarrow> entry list \<Rightarrow> bool" where
  "committed M g T q \<longleftrightarrow> q = [] \<or> (\<exists>U p. U \<le> T \<and> chosen M g U p \<and> prefix q p)"

text \<open>\<open>k\<close> has stored the first \<open>n\<close> entries of \<open>l\<close> in term \<open>T\<close>.\<close>

definition acked :: "ghost \<Rightarrow> i64_t \<Rightarrow> entry list \<Rightarrow> u64_t \<Rightarrow> i64_t \<Rightarrow> bool" where
  "acked g T l k n \<longleftrightarrow> n \<le> int (length l) \<and> (0 < n \<longrightarrow> (\<exists>m. (k, T, m) \<in> g_held g \<and> prefix (take (nat n) l) m))"

definition supports :: "ghost \<Rightarrow> i64_t \<Rightarrow> entry list \<Rightarrow> u64_t \<Rightarrow> bool" where
  "supports g T l v \<longleftrightarrow> (\<exists>lv. (v, T, lv) \<in> g_early g \<and> at_least_as_up_to_date l lv)"

definition applied_ok :: "raft \<Rightarrow> bool" where
  "applied_ok s \<longleftrightarrow>
     0 \<le> lastApplied s \<and> lastApplied s \<le> commitIndex s \<and>
     map ar_data (ready_queue s) = map e_command (take (nat (lastApplied s)) (rlog s))"

definition node_safe :: "u64_t set \<Rightarrow> (i64_t \<times> u64_t) set \<Rightarrow> ghost \<Rightarrow> u64_t \<Rightarrow> raft \<Rightarrow> bool" where
  "node_safe M E g i s \<longleftrightarrow>
     (i, currentTerm s, rlog s) \<in> g_held g \<and>
     ((\<forall>x. (currentTerm s, x) \<notin> E) \<longrightarrow> (i, currentTerm s, rlog s) \<in> g_early g) \<and>
     (\<forall>T l. (i, T, l) \<in> g_held g \<longrightarrow> T \<le> currentTerm s \<and> (\<forall>p. prefix p l \<longrightarrow> kept g T (currentTerm s) p (rlog s))) \<and>
     (\<forall>T l. (i, T, l) \<in> g_early g \<longrightarrow> T \<le> currentTerm s) \<and>
     (currentRole s = Leader \<longrightarrow>
        (currentTerm s, rlog s) \<in> g_lead g \<and>
        (\<forall>m. (currentTerm s, m) \<in> g_lead g \<longrightarrow> prefix m (rlog s)) \<and>
        peers s \<noteq> [] \<and> (\<forall>k \<in> set (peers s). acked g (currentTerm s) (rlog s) k (match_of k s))) \<and>
     (currentRole s = Candidate \<longrightarrow> (\<forall>x. (currentTerm s, x) \<notin> E) \<longrightarrow>
        (\<forall>v \<in> votes s. supports g (currentTerm s) (rlog s) v)) \<and>
     0 \<le> commitIndex s \<and> commitIndex s \<le> log_size s \<and>
     committed M g (currentTerm s) (take (nat (commitIndex s)) (rlog s)) \<and>
     applied_ok s"

lemma node_safeD:
  assumes "node_safe M E g i s"
  shows "(i, currentTerm s, rlog s) \<in> g_held g"
    "(\<And>x. (currentTerm s, x) \<notin> E) \<Longrightarrow> (i, currentTerm s, rlog s) \<in> g_early g"
    "(i, T, l) \<in> g_held g \<Longrightarrow> T \<le> currentTerm s"
    "(i, T, l) \<in> g_held g \<Longrightarrow> prefix p l \<Longrightarrow> kept g T (currentTerm s) p (rlog s)"
    "(i, T, l) \<in> g_early g \<Longrightarrow> T \<le> currentTerm s"
    "currentRole s = Leader \<Longrightarrow> (currentTerm s, rlog s) \<in> g_lead g"
    "currentRole s = Leader \<Longrightarrow> (currentTerm s, m) \<in> g_lead g \<Longrightarrow> prefix m (rlog s)"
    "currentRole s = Leader \<Longrightarrow> peers s \<noteq> []"
    "currentRole s = Leader \<Longrightarrow> k \<in> set (peers s) \<Longrightarrow> acked g (currentTerm s) (rlog s) k (match_of k s)"
    "currentRole s = Candidate \<Longrightarrow> (\<And>x. (currentTerm s, x) \<notin> E) \<Longrightarrow> v \<in> votes s \<Longrightarrow>
      supports g (currentTerm s) (rlog s) v"
    "0 \<le> commitIndex s" "commitIndex s \<le> log_size s"
    "committed M g (currentTerm s) (take (nat (commitIndex s)) (rlog s))" "applied_ok s"
  using assms unfolding node_safe_def by (simp_all, blast)

text \<open>A request carries the rest of a leader's log; its commit index is committed in that log.\<close>

definition sent_by_leader :: "u64_t set \<Rightarrow> ghost \<Rightarrow> append_entries_request \<Rightarrow> send_ctx \<Rightarrow> entry list \<Rightarrow> bool" where
  "sent_by_leader M g r ctx m \<longleftrightarrow>
     (ae_term r, m) \<in> g_lead g \<and> int (length m) < 2 ^ 62 \<and>
     0 \<le> ae_prev_log_index r \<and> ae_prev_log_index r \<le> int (length m) \<and>
     ae_entries r = drop (nat (ae_prev_log_index r)) m \<and>
     (ae_prev_log_index r > 0 \<longrightarrow> ae_prev_log_term r = e_term (m ! nat (ae_prev_log_index r - 1))) \<and>
     sc_next_index ctx = ae_prev_log_index r + 1 \<and>
     0 \<le> ae_leader_commit r \<and> ae_leader_commit r \<le> int (length m) \<and>
     committed M g (ae_term r) (take (nat (ae_leader_commit r)) m)"

fun call_safe :: "u64_t set \<Rightarrow> (i64_t \<times> u64_t) set \<Rightarrow> ghost \<Rightarrow> (u64_t \<Rightarrow> raft) \<Rightarrow> call \<Rightarrow> bool" where
  "call_safe M E g N (VoteReq f t req et) \<longleftrightarrow>
     (currentRole (N f) = Candidate \<longrightarrow> currentTerm (N f) = et \<longrightarrow>
        rv_last_log_term req = last_log_term (rlog (N f)) \<and> rv_last_log_index req = last_log_index (rlog (N f)))"
| "call_safe M E g N (VoteRep f t rep et) \<longleftrightarrow>
     (rvr_vote_granted rep \<longrightarrow> currentRole (N f) = Candidate \<longrightarrow> currentTerm (N f) = et \<longrightarrow>
        (\<forall>x. (et, x) \<notin> E) \<longrightarrow> supports g et (rlog (N f)) t)"
| "call_safe M E g N (AppReq f t r ctx) \<longleftrightarrow> (\<exists>m. sent_by_leader M g r ctx m)"
| "call_safe M E g N (AppRep f t rep r ctx) \<longleftrightarrow>
     t \<in> M \<and>
     (\<exists>m. sent_by_leader M g r ctx m \<and>
        (aer_success rep \<longrightarrow> (\<exists>l. (t, ae_term r, l) \<in> g_held g \<and> prefix m l)))"

section \<open>Growing history\<close>

definition ghost_le :: "ghost \<Rightarrow> ghost \<Rightarrow> bool" where
  "ghost_le g h \<longleftrightarrow> g_held g \<subseteq> g_held h \<and> g_lead g \<subseteq> g_lead h \<and> g_early g \<subseteq> g_early h"

lemma kept_mono: "kept g T U p l \<Longrightarrow> ghost_le g h \<Longrightarrow> U \<le> V \<Longrightarrow> kept h T V p l"
  unfolding kept_def ghost_le_def by (meson order_trans subsetD)

lemma chosen_mono:
  assumes "chosen M g T p" "ghost_le g h"
  shows "chosen M h T p"
proof -
  obtain Q where "vote_quorum M Q" "\<forall>v \<in> Q. \<exists>l. (v, T, l) \<in> g_held g \<and> prefix p l"
    "p \<noteq> []" "e_term (last p) = T" using assms(1) by (auto simp: chosen_def)
  then show ?thesis using assms(2) unfolding chosen_def ghost_le_def by (meson subsetD)
qed

lemma committed_mono: "committed M g T q \<Longrightarrow> ghost_le g h \<Longrightarrow> T \<le> U \<Longrightarrow> committed M h U q"
  unfolding committed_def by (meson chosen_mono order_trans)

lemma acked_mono: "acked g T l k n \<Longrightarrow> ghost_le g h \<Longrightarrow> acked h T l k n"
  unfolding acked_def ghost_le_def by (meson subsetD)

lemma acked_longer: "acked g T l k n \<Longrightarrow> acked g T (l @ r) k n"
  by (auto simp: acked_def)

lemma supports_mono: "supports g T l v \<Longrightarrow> ghost_le g h \<Longrightarrow> supports h T l v"
  unfolding supports_def ghost_le_def by blast

lemma sent_mono: "sent_by_leader M g r ctx m \<Longrightarrow> ghost_le g h \<Longrightarrow> sent_by_leader M h r ctx m"
  unfolding sent_by_leader_def using committed_mono [of M g "ae_term r" _ h "ae_term r"]
  by (auto simp: ghost_le_def)

section \<open>One step of one node\<close>

text \<open>What happens to the log in a step of a node: nothing, a leader appends, or a follower takes the log of a leader.\<close>

definition log_move :: "ghost \<Rightarrow> raft \<Rightarrow> raft \<Rightarrow> bool" where
  "log_move g s t \<longleftrightarrow>
     rlog t = rlog s \<or>
     log_pushed s t \<and> currentRole s = Leader \<and> currentRole t = Leader \<or>
     currentRole t = Follower \<and> (currentTerm t, rlog t) \<in> g_lead g \<and> \<not> strict_prefix (rlog t) (rlog s)"

lemma log_move_kept:
  assumes "log_move g s t" "kept g T (currentTerm s) p (rlog s)" "currentTerm s \<le> currentTerm t" "T \<le> currentTerm t"
  shows "kept g T (currentTerm t) p (rlog t)"
proof (cases "prefix p (rlog s)")
  case False
  then show ?thesis using assms(2,3) unfolding kept_def by (meson order_trans)
next
  case True
  from assms(1) consider "prefix (rlog s) (rlog t)"
    | (lead) "(currentTerm t, rlog t) \<in> g_lead g" "\<not> strict_prefix (rlog t) (rlog s)"
    by (auto simp: log_move_def log_pushed_def)
  then show ?thesis
  proof cases
    case 1
    then show ?thesis using True unfolding kept_def by (meson prefix_order.trans)
  next
    case lead
    then have "prefix p (rlog t) \<or> p \<parallel> rlog t"
      using True by (metis not_parallel prefix_order.dual_order.strict_trans1 prefix_order.le_less)
    then show ?thesis unfolding kept_def using lead(1) assms(4) by blast
  qed
qed

lemma log_move_committed:
  assumes mv: "log_move g s t" and ok: "ghost_ok M LS E g" and sorted: "\<And>l. l \<in> set LS \<Longrightarrow> sorted_terms l"
    and ne: "M \<noteq> {}" and q: "committed M g (currentTerm s) q" "prefix q (rlog s)" and T: "currentTerm s \<le> currentTerm t"
  shows "prefix q (rlog t)"
proof -
  from mv consider "prefix (rlog s) (rlog t)"
    | (lead) "(currentTerm t, rlog t) \<in> g_lead g" "\<not> strict_prefix (rlog t) (rlog s)"
    by (auto simp: log_move_def log_pushed_def)
  then show ?thesis
  proof cases
    case 1
    with q(2) show ?thesis by (rule prefix_order.trans)
  next
    case lead
    show ?thesis
    proof (cases "q = []")
      case False
      then obtain U p where p: "U \<le> currentTerm s" "chosen M g U p" "prefix q p" using q(1) by (auto simp: committed_def)
      have "\<not> p \<parallel> rlog t" using chosen_comparable [OF ok sorted ne p(2) lead(1)] p(1) T by simp
      then have "\<not> q \<parallel> rlog t" unfolding not_parallel using p(3) prefix_order.trans prefix_same_cases by metis
      then show ?thesis
        using q(2) lead(2) by (metis not_parallel prefix_order.dual_order.strict_trans1 prefix_order.le_less)
    qed simp
  qed
qed

text \<open>
  What a step of node \<open>i\<close> from \<open>s\<close> to \<open>t\<close> has to provide: to stay or become a leader, to ask for
  votes, to move the commit index and to hand over results. \<open>E\<close> are the elections before the step,
  \<open>h\<close> is the history after it.
\<close>

definition leads_on :: "u64_t set \<Rightarrow> (i64_t \<times> u64_t) set \<Rightarrow> ghost \<Rightarrow> raft \<Rightarrow> raft \<Rightarrow> bool" where
  "leads_on M E g s t \<longleftrightarrow>
     currentTerm t = currentTerm s \<and> peers t \<noteq> [] \<and>
     (currentRole s = Leader \<or>
        currentRole s = Candidate \<and> rlog t = rlog s \<and> vote_quorum M (votes t) \<and>
        ((\<forall>x. (currentTerm t, x) \<notin> E) \<longrightarrow> (\<forall>v \<in> votes t. supports g (currentTerm t) (rlog t) v))) \<and>
     (\<forall>k \<in> set (peers t). acked g (currentTerm t) (rlog t) k (match_of k t))"

definition stands :: "(i64_t \<times> u64_t) set \<Rightarrow> ghost \<Rightarrow> u64_t \<Rightarrow> raft \<Rightarrow> raft \<Rightarrow> bool" where
  "stands E g i s t \<longleftrightarrow>
     (currentTerm s < currentTerm t \<or>
        currentRole s = Candidate \<and> currentTerm t = currentTerm s \<and> rlog t = rlog s) \<and>
     ((\<forall>x. (currentTerm t, x) \<notin> E) \<longrightarrow> (\<forall>v \<in> votes t. v = i \<or> supports g (currentTerm t) (rlog t) v))"

definition commits :: "u64_t set \<Rightarrow> ghost \<Rightarrow> raft \<Rightarrow> raft \<Rightarrow> bool" where
  "commits M h s t \<longleftrightarrow>
     commitIndex t = commitIndex s \<or>
     commitIndex s \<le> commitIndex t \<and> commitIndex t \<le> log_size t \<and>
       committed M h (currentTerm t) (take (nat (commitIndex t)) (rlog t))"

definition hands_over :: "raft \<Rightarrow> raft \<Rightarrow> bool" where
  "hands_over s t \<longleftrightarrow>
     lastApplied t = lastApplied s \<and> ready_queue t = ready_queue s \<or>
     lastApplied t = commitIndex t \<and> lastApplied s \<le> commitIndex t \<and>
       map ar_data (ready_queue t) = map ar_data (ready_queue s) @
         map e_command (drop (nat (lastApplied s)) (take (nat (commitIndex t)) (rlog t)))"

definition safe_move :: "u64_t set \<Rightarrow> (i64_t \<times> u64_t) set \<Rightarrow> ghost \<Rightarrow> ghost \<Rightarrow> u64_t \<Rightarrow> raft \<Rightarrow> raft \<Rightarrow> bool" where
  "safe_move M E g h i s t \<longleftrightarrow>
     currentTerm s \<le> currentTerm t \<and> log_move g s t \<and>
     (currentRole t = Leader \<longrightarrow> leads_on M E g s t) \<and>
     (currentRole t = Candidate \<longrightarrow> stands E g i s t) \<and>
     commits M h s t \<and> hands_over s t"

text \<open>The history after the step.\<close>

definition noted :: "(i64_t \<times> u64_t) set \<Rightarrow> u64_t \<Rightarrow> raft \<Rightarrow> ghost \<Rightarrow> ghost" where
  "noted F i t g =
     \<lparr>g_held = insert (i, currentTerm t, rlog t) (g_held g),
      g_lead = (if currentRole t = Leader then insert (currentTerm t, rlog t) (g_lead g) else g_lead g),
      g_early = (if \<forall>x. (currentTerm t, x) \<notin> F then insert (i, currentTerm t, rlog t) (g_early g) else g_early g)\<rparr>"

lemma noted_le: "ghost_le g (noted F i t g)"
  by (auto simp: ghost_le_def noted_def)

text \<open>What the election and the log invariants say of the node before the step.\<close>

definition recorded_node :: "u64_t set \<Rightarrow> entry list list \<Rightarrow> (i64_t \<times> u64_t) set \<Rightarrow> u64_t \<Rightarrow> raft \<Rightarrow> bool" where
  "recorded_node M LS E i s \<longleftrightarrow>
     i \<in> M \<and> rlog s \<in> set LS \<and> 0 \<le> currentTerm s \<and> terms_below (rlog s) (currentTerm s) \<and>
     (currentRole s = Leader \<longrightarrow> (currentTerm s, i) \<in> E) \<and>
     (currentRole s = Candidate \<longrightarrow> (currentTerm s, i) \<notin> E)"

definition one_step ::
  "u64_t set \<Rightarrow> entry list list \<Rightarrow> (i64_t \<times> u64_t) set \<Rightarrow> (i64_t \<times> u64_t) set \<Rightarrow> ghost \<Rightarrow> ghost \<Rightarrow> u64_t \<Rightarrow> raft \<Rightarrow> raft \<Rightarrow> bool"
where
  "one_step M LS E F g h i s t \<longleftrightarrow>
     ghost_ok M LS E g \<and> (\<forall>l \<in> set LS. sorted_terms l) \<and> recorded_node M LS E i s \<and>
     node_safe M E g i s \<and> safe_move M E g h i s t \<and> h = noted F i t g \<and>
     F = (if currentRole t = Leader then insert (currentTerm t, i) E else E) \<and>
     (\<forall>T x y. (T, x) \<in> F \<longrightarrow> (T, y) \<in> F \<longrightarrow> x = y)"

lemma one_stepD:
  assumes "one_step M LS E F g h i s t"
  shows "ghost_ok M LS E g" "l \<in> set LS \<Longrightarrow> sorted_terms l" "i \<in> M" "node_safe M E g i s" "rlog s \<in> set LS"
    "0 \<le> currentTerm s" "terms_below (rlog s) (currentTerm s)" "currentRole s = Leader \<Longrightarrow> (currentTerm s, i) \<in> E"
    "currentRole s = Candidate \<Longrightarrow> (currentTerm s, i) \<notin> E"
    "safe_move M E g h i s t" "h = noted F i t g"
    "F = (if currentRole t = Leader then insert (currentTerm t, i) E else E)"
proof -
  have "recorded_node M LS E i s" using assms unfolding one_step_def by blast
  then show "i \<in> M" "rlog s \<in> set LS" "0 \<le> currentTerm s" "terms_below (rlog s) (currentTerm s)"
    "currentRole s = Leader \<Longrightarrow> (currentTerm s, i) \<in> E" "currentRole s = Candidate \<Longrightarrow> (currentTerm s, i) \<notin> E"
    by (simp_all add: recorded_node_def)
  show "ghost_ok M LS E g" "l \<in> set LS \<Longrightarrow> sorted_terms l" "node_safe M E g i s" "safe_move M E g h i s t"
    "h = noted F i t g" "F = (if currentRole t = Leader then insert (currentTerm t, i) E else E)"
    using assms unfolding one_step_def by (fast, fast, fast, fast, fast, fast)
qed

lemma one_step_unique:
  "one_step M LS E F g h i s t \<Longrightarrow> (T, x) \<in> F \<Longrightarrow> (T, y) \<in> F \<Longrightarrow> x = y"
  unfolding one_step_def by fast

lemma one_step_moves:
  assumes "one_step M LS E F g h i s t"
  shows "currentTerm s \<le> currentTerm t" "log_move g s t" "ghost_le g h" "E \<subseteq> F"
    "currentRole t = Leader \<Longrightarrow> leads_on M E g s t" "currentRole t = Candidate \<Longrightarrow> stands E g i s t"
    "commits M h s t" "hands_over s t"
  using one_stepD(10) [OF assms] noted_le one_stepD(11,12) [OF assms] by (auto simp: safe_move_def)

text \<open>What is new in the history.\<close>

lemma one_step_new:
  assumes "one_step M LS E F g h i s t"
  shows "(T, m) \<in> g_lead h \<Longrightarrow> (T, m) \<in> g_lead g \<or> currentRole t = Leader \<and> T = currentTerm t \<and> m = rlog t"
    "(v, T, l) \<in> g_held h \<Longrightarrow> (v, T, l) \<in> g_held g \<or> v = i \<and> T = currentTerm t \<and> l = rlog t"
    "(v, T, l) \<in> g_early h \<Longrightarrow>
       (v, T, l) \<in> g_early g \<or> v = i \<and> T = currentTerm t \<and> l = rlog t \<and> (\<forall>x. (currentTerm t, x) \<notin> F)"
  unfolding one_stepD(11) [OF assms] noted_def by (auto split: if_splits)

text \<open>A node that leads after the step continues every log a leader of its term has had.\<close>

lemma leader_extends:
  assumes st: "one_step M LS E F g h i s t" and L: "currentRole t = Leader" and m: "(currentTerm t, m) \<in> g_lead g"
  shows "prefix m (rlog t)"
proof -
  have T: "currentTerm t = currentTerm s" and or: "currentRole s = Leader \<or> currentRole s = Candidate"
    using one_step_moves(5) [OF st L] by (auto simp: leads_on_def)
  show ?thesis
  proof (cases "currentRole s = Leader")
    case True
    have "prefix m (rlog s)" using node_safeD(7) [OF one_stepD(4) [OF st] True] m T by simp
    moreover have "prefix (rlog s) (rlog t)"
      using one_step_moves(2) [OF st] L by (auto simp: log_move_def log_pushed_def)
    ultimately show ?thesis by (rule prefix_order.trans)
  next
    case False
    then have C: "currentRole s = Candidate" using or by simp
    obtain x where x: "(currentTerm t, x) \<in> E" using ghost_okD(3) [OF one_stepD(1) [OF st] m] by blast
    then have "(currentTerm t, x) \<in> F" using one_step_moves(4) [OF st] by blast
    moreover have "(currentTerm t, i) \<in> F" using one_stepD(12) [OF st] L by simp
    ultimately have "x = i" by (rule one_step_unique [OF st])
    with x one_stepD(9) [OF st C] T show ?thesis by simp
  qed
qed

section \<open>The history stays consistent\<close>

lemma log_seen:
  assumes st: "one_step M LS E F g h i s t" and l: "l \<in> set (rlog t # LS)" "k < length l"
  shows "\<exists>m. (e_term (l ! k), m) \<in> g_lead h \<and> prefix (take (Suc k) l) m"
proof -
  note ok = one_stepD(1) [OF st] and known = one_stepD(5) [OF st]
  have old: "\<exists>m. (e_term (l ! k), m) \<in> g_lead h \<and> prefix (take (Suc k) l) m" if "l \<in> set LS" "k < length l" for l k
    using ghost_okD(5) [OF ok that] one_step_moves(3) [OF st] by (auto simp: ghost_le_def)
  show ?thesis
  proof (cases "l \<in> set LS")
    case True
    then show ?thesis using l(2) by (rule old)
  next
    case False
    then have eq: "l = rlog t" "rlog t \<notin> set LS" using l(1) by auto
    then have push: "log_pushed s t" "currentRole t = Leader"
      using one_step_moves(2) [OF st] known ghost_okD(1) [OF ok] by (auto simp: log_move_def)
    then obtain e where t: "rlog t = rlog s @ [e]" "e_term e = currentTerm t"
      using one_step_moves(5) [OF st] by (auto simp: log_pushed_def leads_on_def)
    show ?thesis
    proof (cases "k < length (rlog s)")
      case True
      then show ?thesis using old [OF known True] by (simp add: eq t nth_append)
    next
      case False
      then have "k = length (rlog s)" using l(2) by (simp add: eq t)
      moreover have "(currentTerm t, rlog t) \<in> g_lead h" using push(2) one_stepD(11) [OF st] by (simp add: noted_def)
      ultimately show ?thesis using t by (intro exI [of _ "rlog t"]) (simp add: eq)
    qed
  qed
qed

lemma winner_stays:
  assumes st: "one_step M LS E F g h i s t" and E: "(T, x) \<in> E" and w: "won_with M g T m0 Q"
  shows "won_with M h T m0 Q"
proof -
  have "prefix m0 m" if "(T, m) \<in> g_lead h" for m
    using one_step_new(1) [OF st that]
  proof
    assume "(T, m) \<in> g_lead g"
    then show ?thesis using w by (simp add: won_with_def)
  next
    assume l: "currentRole t = Leader \<and> T = currentTerm t \<and> m = rlog t"
    then have L: "currentRole t = Leader" by simp
    have "(T, i) \<in> F" using l one_stepD(12) [OF st] by simp
    moreover have "(T, x) \<in> F" using E one_step_moves(4) [OF st] by blast
    ultimately have "x = i" using one_step_unique [OF st] by metis
    then have "currentRole s = Leader"
      using E l one_stepD(9) [OF st] one_step_moves(5) [OF st L] by (auto simp: leads_on_def)
    from node_safeD(6) [OF one_stepD(4) [OF st] this] have s: "(currentTerm t, rlog s) \<in> g_lead g"
      using one_step_moves(5) [OF st L] by (simp add: leads_on_def)
    then have "prefix m0 (rlog s)" using w l by (simp add: won_with_def)
    moreover have "prefix (rlog s) m" using leader_extends [OF st L s] l by simp
    ultimately show ?thesis by (rule prefix_order.trans)
  qed
  then show ?thesis using w one_step_moves(3) [OF st] unfolding won_with_def ghost_le_def by (meson subsetD)
qed

lemma new_winner:
  assumes st: "one_step M LS E F g h i s t" and L: "currentRole t = Leader" and new: "(currentTerm t, i) \<notin> E"
  shows "won_with M h (currentTerm t) (rlog t) (votes t)" "rlog t \<in> set LS"
proof -
  note ok = one_stepD(1) [OF st] and known = one_stepD(5) [OF st]
  have T: "currentTerm t = currentTerm s" using one_step_moves(5) [OF st L] by (simp add: leads_on_def)
  then have "currentRole s \<noteq> Leader" using one_stepD(8) [OF st] new by auto
  then have s: "rlog t = rlog s" "vote_quorum M (votes t)"
    "(\<forall>x. (currentTerm t, x) \<notin> E) \<Longrightarrow> v \<in> votes t \<Longrightarrow> supports g (currentTerm t) (rlog t) v" for v
    using one_step_moves(5) [OF st L] by (auto simp: leads_on_def)
  have none: "(currentTerm t, x) \<notin> E" for x
  proof
    assume x: "(currentTerm t, x) \<in> E"
    then have "(currentTerm t, x) \<in> F" using one_step_moves(4) [OF st] by blast
    moreover have "(currentTerm t, i) \<in> F" using one_stepD(12) [OF st] L by simp
    ultimately have "x = i" by (rule one_step_unique [OF st])
    with x new show False by simp
  qed
  show "rlog t \<in> set LS" using known s(1) by simp
  have "e_term e < currentTerm t" if e: "e \<in> set (rlog t)" for e
  proof -
    obtain k where "k < length (rlog s)" "rlog s ! k = e" using e s(1) by (auto simp: in_set_conv_nth)
    then obtain m where "(e_term e, m) \<in> g_lead g" using ghost_okD(5) [OF ok known] by metis
    then have "e_term e \<noteq> currentTerm t" using ghost_okD(3) [OF ok] none by metis
    with e s(1) T one_stepD(7) [OF st] show ?thesis by (force simp: terms_below_def)
  qed
  moreover have "\<forall>v \<in> votes t. \<exists>lv. (v, currentTerm t, lv) \<in> g_early h \<and> at_least_as_up_to_date (rlog t) lv"
    using supports_mono [OF s(3) one_step_moves(3) [OF st]] none unfolding supports_def by blast
  moreover have "m = rlog t" if "(currentTerm t, m) \<in> g_lead h" for m
    using one_step_new(1) [OF st that] ghost_okD(3) [OF ok] none by blast
  ultimately show "won_with M h (currentTerm t) (rlog t) (votes t)" using s(2) by (auto simp: won_with_def)
qed

lemma early_keeps:
  assumes st: "one_step M LS E F g h i s t"
    and v: "(v, U, lv) \<in> g_early h" and l: "(v, T, l) \<in> g_held h" and TU: "T < U" and p: "prefix p l"
  shows "kept h T (U - 1) p lv"
  using one_step_new(3) [OF st v]
proof
  assume old: "(v, U, lv) \<in> g_early g"
  from one_step_new(2) [OF st l] show ?thesis
  proof
    assume "(v, T, l) \<in> g_held g"
    from ghost_okD(9) [OF one_stepD(1) [OF st] old this TU p] show ?thesis
      by (rule kept_mono [OF _ one_step_moves(3) [OF st]]) simp
  next
    assume "v = i \<and> T = currentTerm t \<and> l = rlog t"
    then have "U \<le> currentTerm t"
      using old node_safeD(5) [OF one_stepD(4) [OF st]] one_step_moves(1) [OF st] by fastforce
    with TU \<open>v = i \<and> _\<close> show ?thesis by simp
  qed
next
  assume new: "v = i \<and> U = currentTerm t \<and> lv = rlog t \<and> (\<forall>x. (currentTerm t, x) \<notin> F)"
  then have held: "(i, T, l) \<in> g_held g" using one_step_new(2) [OF st l] TU by auto
  have "kept g T (currentTerm t) p (rlog t)"
    by (rule log_move_kept [OF one_step_moves(2) [OF st] node_safeD(4) [OF one_stepD(4) [OF st] held p]
        one_step_moves(1) [OF st]]) (use TU new in simp)
  then have "kept h T (currentTerm t) p (rlog t)" by (rule kept_mono [OF _ one_step_moves(3) [OF st]]) simp
  moreover have "V \<noteq> currentTerm t" if V: "(V, m) \<in> g_lead h" for V m
  proof -
    have "\<exists>x. (V, x) \<in> F"
      using one_step_new(1) [OF st V]
    proof
      assume "(V, m) \<in> g_lead g"
      then show ?thesis using ghost_okD(3) [OF one_stepD(1) [OF st]] one_step_moves(4) [OF st] by blast
    qed (use one_stepD(12) [OF st] in auto)
    with new show ?thesis by auto
  qed
  ultimately have "prefix p (rlog t) \<or>
      (\<exists>V m. T \<le> V \<and> V \<le> currentTerm t \<and> V \<noteq> currentTerm t \<and> (V, m) \<in> g_lead h \<and> p \<parallel> m)"
    unfolding kept_def by blast
  moreover have "V \<le> currentTerm t \<and> V \<noteq> currentTerm t \<longleftrightarrow> V \<le> U - 1" for V using new by auto
  ultimately show ?thesis using new unfolding kept_def by blast
qed

lemma leaders_agree:
  assumes st: "one_step M LS E F g h i s t" and m: "(T, m) \<in> g_lead h" "(T, m') \<in> g_lead h"
  shows "\<not> m \<parallel> m'"
proof -
  have new: "\<not> rlog t \<parallel> n" if "currentRole t = Leader" "(currentTerm t, n) \<in> g_lead g" for n
    using leader_extends [OF st that] by (simp add: not_parallel)
  from one_step_new(1) [OF st m(1)] one_step_new(1) [OF st m(2)] show ?thesis
  proof (elim disjE)
    assume "(T, m) \<in> g_lead g" "(T, m') \<in> g_lead g"
    then show ?thesis by (rule ghost_okD(4) [OF one_stepD(1) [OF st]])
  qed (use new in \<open>auto simp: parallel_commute\<close>)
qed

lemma winners_kept:
  assumes st: "one_step M LS E F g h i s t" and T: "(T, x) \<in> F"
  shows "\<exists>m0 Q. m0 \<in> set (rlog t # LS) \<and> won_with M h T m0 Q"
proof (cases "(T, x) \<in> E")
  case True
  then obtain m0 Q where "m0 \<in> set LS" "won_with M g T m0 Q" using ghost_okD(8) [OF one_stepD(1) [OF st]] by blast
  with winner_stays [OF st True] show ?thesis by force
next
  case False
  then have "currentRole t = Leader" "T = currentTerm t" "(currentTerm t, i) \<notin> E"
    using T one_stepD(12) [OF st] by (auto split: if_splits)
  then show ?thesis using new_winner [OF st] by auto
qed

lemma history_safe:
  assumes st: "one_step M LS E F g h i s t"
  shows "ghost_ok M (rlog t # LS) F h"
  unfolding ghost_ok_def
proof (intro conjI allI impI ballI)
  note ok = one_stepD(1) [OF st] and new = one_step_new [OF st]
  fix T m
  assume m: "(T, m) \<in> g_lead h"
  from new(1) [OF m] show "m \<in> set (rlog t # LS)" using ghost_okD(1) [OF ok] by auto
  from new(1) [OF m] show "0 \<le> T"
    using ghost_okD(2) [OF ok] one_stepD(6) [OF st] one_step_moves(1) [OF st] by auto
  from new(1) [OF m] show "\<exists>x. (T, x) \<in> F"
    using ghost_okD(3) [OF ok] one_step_moves(4) [OF st] one_stepD(12) [OF st] by (metis insertI1 subsetD)
next
  fix v T l
  assume "(v, T, l) \<in> g_held h"
  from one_step_new(2) [OF st this] show "l \<in> set (rlog t # LS)" using ghost_okD(6) [OF one_stepD(1) [OF st]] by auto
next
  fix v T l
  assume "(v, T, l) \<in> g_early h"
  from one_step_new(3) [OF st this] show "l \<in> set (rlog t # LS)" using ghost_okD(7) [OF one_stepD(1) [OF st]] by auto
qed (use leaders_agree [OF st] log_seen [OF st] winners_kept [OF st] early_keeps [OF st] in blast)+

section \<open>The nodes stay safe\<close>

lemma commit_kept:
  assumes st: "one_step M LS E F g h i s t"
  shows "take (nat (commitIndex s)) (rlog t) = take (nat (commitIndex s)) (rlog s)"
    "commitIndex s \<le> log_size t"
proof -
  let ?q = "take (nat (commitIndex s)) (rlog s)"
  note safe = one_stepD(4) [OF st]
  have "M \<noteq> {}" using one_stepD(3) [OF st] by auto
  from log_move_committed [OF one_step_moves(2) [OF st] one_stepD(1,2) [OF st] this node_safeD(13) [OF safe] _
      one_step_moves(1) [OF st]]
  have pre: "prefix ?q (rlog t)" by (simp add: take_is_prefix)
  moreover have len: "length ?q = nat (commitIndex s)" using node_safeD(11,12) [OF safe] by (simp add: log_size_def)
  ultimately show "take (nat (commitIndex s)) (rlog t) = ?q" by (metis append_eq_conv_conj prefix_def)
  show "commitIndex s \<le> log_size t" using prefix_length_le [OF pre] len by (simp add: log_size_def)
qed

lemma applied_step:
  assumes st: "one_step M LS E F g h i s t"
  shows "applied_ok t"
proof -
  have a: "0 \<le> lastApplied s" "lastApplied s \<le> commitIndex s"
    "map ar_data (ready_queue s) = map e_command (take (nat (lastApplied s)) (rlog s))"
    using node_safeD(14) [OF one_stepD(4) [OF st]] by (auto simp: applied_ok_def)
  have keep: "take (nat (lastApplied s)) (rlog t) = take (nat (lastApplied s)) (rlog s)"
    using arg_cong [OF commit_kept(1) [OF st], of "take (nat (lastApplied s))"] a(2) by (simp add: min_absorb1 nat_mono)
  have ci: "commitIndex s \<le> commitIndex t" using one_step_moves(7) [OF st] by (auto simp: commits_def)
  from one_step_moves(8) [OF st] consider "lastApplied t = lastApplied s" "ready_queue t = ready_queue s"
    | (more) "lastApplied t = commitIndex t" "lastApplied s \<le> commitIndex t"
      "map ar_data (ready_queue t) = map ar_data (ready_queue s) @
          map e_command (drop (nat (lastApplied s)) (take (nat (commitIndex t)) (rlog t)))"
    unfolding hands_over_def by blast
  then show ?thesis
  proof cases
    case 1
    then show ?thesis using a keep ci by (simp add: applied_ok_def)
  next
    case more
    have "take (nat (lastApplied s)) (rlog t) = take (nat (lastApplied s)) (take (nat (commitIndex t)) (rlog t))"
      using more(2) by (simp add: min_absorb1 nat_mono)
    then have "map ar_data (ready_queue t) = map e_command (take (nat (commitIndex t)) (rlog t))"
      unfolding more(3) a(3) keep [symmetric] by (metis append_take_drop_id map_append)
    with more(1,2) a(1) show ?thesis by (simp add: applied_ok_def)
  qed
qed

lemma commit_step:
  assumes st: "one_step M LS E F g h i s t"
  shows "0 \<le> commitIndex t" "commitIndex t \<le> log_size t"
    "committed M h (currentTerm t) (take (nat (commitIndex t)) (rlog t))"
proof -
  note safe = one_stepD(4) [OF st] and ci = one_step_moves(7) [OF st, unfolded commits_def]
  show "0 \<le> commitIndex t" "commitIndex t \<le> log_size t"
    using ci node_safeD(11) [OF safe] commit_kept(2) [OF st] by auto
  have "committed M h (currentTerm t) (take (nat (commitIndex s)) (rlog t))"
    unfolding commit_kept(1) [OF st]
    by (rule committed_mono [OF node_safeD(13) [OF safe] one_step_moves(3,1) [OF st]])
  then show "committed M h (currentTerm t) (take (nat (commitIndex t)) (rlog t))" using ci by metis
qed

lemma moved_safe:
  assumes st: "one_step M LS E F g h i s t"
  shows "node_safe M F h i t"
  unfolding node_safe_def
proof (intro conjI allI impI ballI)
  note safe = one_stepD(4) [OF st] and h = one_stepD(11) [OF st]
  show "(i, currentTerm t, rlog t) \<in> g_held h" by (simp add: h noted_def)
  show "(i, currentTerm t, rlog t) \<in> g_early h" if "\<forall>x. (currentTerm t, x) \<notin> F" using that by (simp add: h noted_def)
  fix T l
  assume "(i, T, l) \<in> g_held h"
  note new = one_step_new(2) [OF st this]
  then show T: "T \<le> currentTerm t" using node_safeD(3) [OF safe] one_step_moves(1) [OF st] by fastforce
  fix p
  assume p: "prefix p l"
  from new show "kept h T (currentTerm t) p (rlog t)"
  proof
    assume "(i, T, l) \<in> g_held g"
    from log_move_kept [OF one_step_moves(2) [OF st] node_safeD(4) [OF safe this p] one_step_moves(1) [OF st] T]
    show ?thesis by (rule kept_mono [OF _ one_step_moves(3) [OF st]]) simp
  qed (use p in \<open>simp add: kept_def\<close>)
next
  fix T l
  assume "(i, T, l) \<in> g_early h"
  from one_step_new(3) [OF st this] show "T \<le> currentTerm t"
    using node_safeD(5) [OF one_stepD(4) [OF st]] one_step_moves(1) [OF st] by fastforce
next
  assume L: "currentRole t = Leader"
  note lead = one_step_moves(5) [OF st L, unfolded leads_on_def]
  show "(currentTerm t, rlog t) \<in> g_lead h" using L one_stepD(11) [OF st] by (simp add: noted_def)
  show "peers t \<noteq> []" using lead by blast
  show "prefix m (rlog t)" if "(currentTerm t, m) \<in> g_lead h" for m
    using one_step_new(1) [OF st that] leader_extends [OF st L] by auto
  show "acked h (currentTerm t) (rlog t) k (match_of k t)" if "k \<in> set (peers t)" for k
    using lead that acked_mono [OF _ one_step_moves(3) [OF st]] by blast
next
  fix v
  assume C: "currentRole t = Candidate" and none: "\<forall>x. (currentTerm t, x) \<notin> F" and v: "v \<in> votes t"
  have "v = i \<or> supports g (currentTerm t) (rlog t) v"
    using one_step_moves(6) [OF st C, unfolded stands_def] none v one_step_moves(4) [OF st] by blast
  moreover have "(i, currentTerm t, rlog t) \<in> g_early h" using none one_stepD(11) [OF st] by (simp add: noted_def)
  then have "supports h (currentTerm t) (rlog t) i"
    unfolding supports_def by (intro exI [of _ "rlog t"]) (simp add: at_least_as_up_to_date_def candidate_up_to_date_iff)
  ultimately show "supports h (currentTerm t) (rlog t) v"
    using supports_mono [OF _ one_step_moves(3) [OF st]] by blast
qed (use commit_step [OF st] applied_step [OF st] in simp_all)

lemma other_safe:
  assumes st: "one_step M LS E F g h i s t" and u: "node_safe M E g j u" and j: "j \<noteq> i"
    and lead: "currentRole u = Leader \<Longrightarrow> (currentTerm u, j) \<in> E"
  shows "node_safe M F h j u"
  unfolding node_safe_def
proof (intro conjI allI impI ballI)
  note grows = one_step_moves(3) [OF st] and E = one_step_moves(4) [OF st]
  show "(j, currentTerm u, rlog u) \<in> g_held h" using node_safeD(1) [OF u] grows by (auto simp: ghost_le_def)
  show "(j, currentTerm u, rlog u) \<in> g_early h" if "\<forall>x. (currentTerm u, x) \<notin> F"
    using node_safeD(2) [OF u] that E grows unfolding ghost_le_def by blast
  show "committed M h (currentTerm u) (take (nat (commitIndex u)) (rlog u))"
    using node_safeD(13) [OF u] grows by (rule committed_mono) simp
  fix T l
  assume "(j, T, l) \<in> g_held h"
  then have old: "(j, T, l) \<in> g_held g" using one_step_new(2) [OF st] j by blast
  then show "T \<le> currentTerm u" by (rule node_safeD(3) [OF u])
  show "kept h T (currentTerm u) p (rlog u)" if "prefix p l" for p
    using node_safeD(4) [OF u old that] grows by (rule kept_mono) simp
next
  fix T l
  assume "(j, T, l) \<in> g_early h"
  then have "(j, T, l) \<in> g_early g" using one_step_new(3) [OF st] j by blast
  then show "T \<le> currentTerm u" by (rule node_safeD(5) [OF u])
next
  assume L: "currentRole u = Leader"
  show "(currentTerm u, rlog u) \<in> g_lead h"
    using node_safeD(6) [OF u L] one_step_moves(3) [OF st] by (auto simp: ghost_le_def)
  show "prefix m (rlog u)" if m: "(currentTerm u, m) \<in> g_lead h" for m
    using one_step_new(1) [OF st m]
  proof
    assume "currentRole t = Leader \<and> currentTerm u = currentTerm t \<and> m = rlog t"
    then have "(currentTerm u, i) \<in> F" using one_stepD(12) [OF st] by simp
    moreover have "(currentTerm u, j) \<in> F" using lead [OF L] one_step_moves(4) [OF st] by blast
    ultimately have "i = j" by (rule one_step_unique [OF st])
    with j show ?thesis by simp
  qed (rule node_safeD(7) [OF u L])
  show "peers u \<noteq> []" by (rule node_safeD(8) [OF u L])
  show "acked h (currentTerm u) (rlog u) k (match_of k u)" if "k \<in> set (peers u)" for k
    using node_safeD(9) [OF u L that] one_step_moves(3) [OF st] by (rule acked_mono)
next
  fix v
  assume "currentRole u = Candidate" "\<forall>x. (currentTerm u, x) \<notin> F" "v \<in> votes u"
  then show "supports h (currentTerm u) (rlog u) v"
    using node_safeD(10) [OF u] one_step_moves(4) [OF st] supports_mono [OF _ one_step_moves(3) [OF st]] by blast
qed (use node_safeD(11,12,14) [OF u] in simp_all)

end
