(* ===== verification/SafeMoves.thy ===== *)
theory SafeMoves
  imports CommitSafety
begin

text \<open>
  Every operation of class \<^verbatim>\<open>Raft\<close> makes a safe move: the cases of \<open>safe_move\<close> for the
  operations that leave log and commit index alone, for counting a vote, proposing, accepting the
  request of a leader and committing on its acknowledgement.
\<close>

section \<open>Operations that move neither log nor commit index\<close>

definition same_store :: "raft \<Rightarrow> raft \<Rightarrow> bool" where
  "same_store s t \<longleftrightarrow>
     rlog t = rlog s \<and> commitIndex t = commitIndex s \<and> lastApplied t = lastApplied s \<and>
     ready_queue t = ready_queue s \<and> matchIndex t = matchIndex s"

named_theorems same_store_intros \<open>operations that leave log, commit index and results alone\<close>

lemma same_store_refl [simp]: "same_store s s"
  by (simp add: same_store_def)

lemma same_store_trans: "same_store s t \<Longrightarrow> same_store t u \<Longrightarrow> same_store s u"
  by (simp add: same_store_def)

lemma same_store_local [same_store_intros]:
  "same_store s (serving s)" "same_store s (stop_server s)" "same_store s (kill s)"
  by (simp_all add: same_store_def serving_def stop_server_def kill_def)

lemma same_store_run [same_store_intros]: "same_store s (run d (connect_peers s))"
  by (simp add: same_store_def run_def become_follower_def start_election_timer_def connect_peers_def Let_def)

lemma same_store_step_down [same_store_intros]: "same_store s (step_down T s)"
  by (simp add: same_store_def)

lemma same_store_accept [same_store_intros]: "same_store s (accept_leader r s)"
  by (simp add: same_store_def)

lemma same_store_reply_vote [same_store_intros]: "same_store s (fst (reply_vote r s))"
  by (auto simp: same_store_def reply_vote_def Let_def)

lemma same_store_vote_reply [same_store_intros]:
  "\<not> counts_vote et rep s \<Longrightarrow> same_store s (handle_vote_reply target et rep s)"
  by (auto simp: same_store_def counts_vote_def handle_vote_reply_def Let_def)

lemma same_store_backtrack [same_store_intros]: "backtrack target ctx rep s = Some t \<Longrightarrow> same_store s t"
  by (auto simp: same_store_def backtrack_def Let_def split: option.splits Option.bind_splits if_splits)

lemma same_store_thread [same_store_intros]: "run_thread d th s = Some (t, out) \<Longrightarrow> same_store s t"
  by (cases th) (auto simp: same_store_def start_election_timer_def start_heartbeat_timer_def start_timer_def
      become_candidate_def request_votes_def spawn_all_eq send_entries_def sync_wakeup_def sync_finish_def Let_def
      split: Option.bind_splits)

text \<open>Such an operation, with one of the role changes it may make, is safe.\<close>

definition role_moves :: "u64_t \<Rightarrow> raft \<Rightarrow> raft \<Rightarrow> bool" where
  "role_moves i s t \<longleftrightarrow>
     currentTerm s \<le> currentTerm t \<and>
     (currentRole t = Follower \<or>
      currentRole t = currentRole s \<and> currentTerm t = currentTerm s \<and> votes t = votes s \<and> peers t = peers s \<or>
      currentRole t = Candidate \<and> currentTerm s < currentTerm t \<and> votes t = {i})"

lemma role_moves_law:
  assumes "election_law s t" "i64 (rid s) = i"
  shows "role_moves i s t"
proof -
  have "currentTerm s \<le> currentTerm t" "peers t = peers s"
    "currentRole t = Follower \<or>
      currentRole t = currentRole s \<and> currentTerm t = currentTerm s \<and> votes t = votes s \<or>
      currentRole t = Candidate \<and> currentTerm t = currentTerm s + 1 \<and> votes t = {i}"
    using assms unfolding election_law_def vote_step_def by blast+
  then show ?thesis unfolding role_moves_def by (elim disjE) simp_all
qed

lemma idle_move:
  assumes safe: "node_safe M E g i s" and role: "role_moves i s t" and store: "same_store s t"
  shows "safe_move M E g h i s t"
  unfolding safe_move_def
proof (intro conjI impI)
  show "currentTerm s \<le> currentTerm t" using role by (simp add: role_moves_def)
  show "log_move g s t" "commits M h s t" "hands_over s t"
    using store by (simp_all add: same_store_def log_move_def commits_def hands_over_def)
  show "leads_on M E g s t" if L: "currentRole t = Leader"
  proof -
    have "currentRole s = Leader" "currentTerm t = currentTerm s" "peers t = peers s"
      using role L by (auto simp: role_moves_def)
    then show ?thesis
      using store node_safeD(8,9) [OF safe] by (simp add: leads_on_def same_store_def)
  qed
  show "stands E g i s t" if C: "currentRole t = Candidate"
  proof -
    from role C consider "currentRole s = Candidate" "currentTerm t = currentTerm s" "votes t = votes s"
      | "currentTerm s < currentTerm t" "votes t = {i}" by (auto simp: role_moves_def)
    then show ?thesis
      using store node_safeD(10) [OF safe] by cases (auto simp: stands_def same_store_def)
  qed
qed

section \<open>Counting votes and proposing\<close>

lemma become_leader_match: "k \<in> set (peers s) \<Longrightarrow> match_of k (become_leader s) = 0"
proof -
  have "map_get (fold (\<lambda>t m. m(i64 t \<mapsto> 0)) ps m) (i64 k) = (if i64 k \<in> i64 ` set ps then 0 else map_get m (i64 k))"
    for ps m
    by (induction ps arbitrary: m) auto
  then show "k \<in> set (peers s) \<Longrightarrow> match_of k (become_leader s) = 0" by (simp add: become_leader_eq)
qed

lemma counted_move:
  assumes safe: "node_safe M E g i s" and node: "node_ok M G i s" and M: "odd (card M)" "finite M" "i \<in> M"
    and target: "i64 target = target" "target \<in> M" "peers s \<noteq> []"
    and counted: "counts_vote et rep s"
    and supp: "(\<forall>x. (et, x) \<notin> E) \<Longrightarrow> supports g et (rlog s) target"
  shows "safe_move M E g h i s (handle_vote_reply target et rep s)"
proof -
  let ?t = "handle_vote_reply target et rep s"
  have C: "currentRole s = Candidate" "currentTerm s = et" using counted by (simp_all add: counts_vote_def)
  have all: "supports g et (rlog s) v" if "\<forall>x. (et, x) \<notin> E" "v \<in> insert target (votes s)" for v
    using that supp node_safeD(10) [OF safe C(1)] C(2) by auto
  have eq: "?t = (if card (insert target (votes s)) > length (peers s) div 2
      then become_leader (s\<lparr>votes := insert target (votes s)\<rparr>) else s\<lparr>votes := insert target (votes s)\<rparr>)"
    using handle_vote_reply_counted [OF counted, of target] target(1) by simp
  have frame: "currentTerm ?t = currentTerm s" "rlog ?t = rlog s" "peers ?t = peers s" "commitIndex ?t = commitIndex s"
    "lastApplied ?t = lastApplied s" "ready_queue ?t = ready_queue s" "votes ?t = insert target (votes s)"
    by (simp_all add: eq)
  have len: "length (peers s) = card M - 1"
    using node target M unfolding node_ok_def by (metis List.finite_set card_Diff_singleton distinct_card)
  show ?thesis
    unfolding safe_move_def
  proof (intro conjI impI)
    show "log_move g s ?t" "commits M h s ?t" "hands_over s ?t"
      by (simp_all add: log_move_def commits_def hands_over_def frame)
    show "stands E g i s ?t" if "currentRole ?t = Candidate"
      using C all by (simp add: stands_def frame)
    assume "currentRole ?t = Leader"
    then have win: "card (insert target (votes s)) > length (peers s) div 2"
      and t: "?t = become_leader (s\<lparr>votes := insert target (votes s)\<rparr>)"
      using C(1) by (auto simp: eq split: if_splits)
    have "match_of k ?t = 0" if "k \<in> set (peers s)" for k
      unfolding t by (rule become_leader_match) (use that in simp)
    then have "acked g (currentTerm s) (rlog s) k (match_of k ?t)" if "k \<in> set (peers s)" for k
      using that by (simp add: acked_def)
    moreover have "vote_quorum M (insert target (votes s))"
      using node C(1) win len M target(2) by (auto simp: vote_quorum_def node_ok_def)
    ultimately show "leads_on M E g s ?t"
      using C all target(3) by (simp add: leads_on_def frame)
  qed (simp add: frame)
qed

lemma propose_move:
  assumes safe: "node_safe M E g i s"
  shows "safe_move M E g h i s (fst (propose data s))" "safe_move M E g h i s (fst (propose_sync data s))"
proof -
  have push: "safe_move M E g h i s t"
    if L: "currentRole s = Leader" and t: "log_pushed s t" "same_election s t"
      "same_store (s\<lparr>rlog := rlog t\<rparr>) t" for t
  proof -
    obtain e where e: "rlog t = rlog s @ [e]" using t(1) by (auto simp: log_pushed_def)
    have "acked g (currentTerm s) (rlog t) k (match_of k t)" if "k \<in> set (peers s)" for k
      using acked_longer [OF node_safeD(9) [OF safe L that]] t(3) e by (simp add: same_store_def)
    then show ?thesis
      using L t node_safeD(8) [OF safe L]
      by (simp add: safe_move_def log_move_def leads_on_def commits_def hands_over_def same_store_def same_election_def)
  qed
  have idle: "safe_move M E g h i s s" by (rule idle_move [OF safe]) (simp_all add: role_moves_def)
  have "log_pushed s (fst (propose data s))" "log_pushed s (fst (propose_sync data s))"
    "same_store (s\<lparr>rlog := rlog (fst (propose data s))\<rparr>) (fst (propose data s))"
    "same_store (s\<lparr>rlog := rlog (fst (propose_sync data s))\<rparr>) (fst (propose_sync data s))"
    if "currentRole s = Leader"
    using that by (auto simp: log_pushed_def propose_def propose_sync_def push_proposal_def sync_finish_def
        Let_def same_store_def)
  moreover have "fst (propose data s) = s" "fst (propose_sync data s) = s" if "currentRole s \<noteq> Leader"
    using that by (simp_all add: propose_def propose_sync_def)
  ultimately show "safe_move M E g h i s (fst (propose data s))" "safe_move M E g h i s (fst (propose_sync data s))"
    using push quiet_ops(6) propose_sync_quiet idle by (cases "currentRole s = Leader"; simp)+
qed

section \<open>Applying entries\<close>

lemma results_of_data:
  assumes "0 \<le> a" "a \<le> b" "b \<le> int (length l)"
  shows "map ar_data (results_of l (a + 1) b) = map e_command (drop (nat a) (take (nat b) l))"
proof (rule nth_equalityI)
  show len: "length (map ar_data (results_of l (a + 1) b)) = length (map e_command (drop (nat a) (take (nat b) l)))"
    using assms by (simp add: results_of_def nat_diff_distrib min_absorb2)
  fix k
  assume k: "k < length (map ar_data (results_of l (a + 1) b))"
  then have "k < nat (b - a)" by (simp add: results_of_def)
  then have "nat a + k < length l" "a + 1 + int k \<le> b" "nat (a + int k) = nat a + k"
    "nat a + k < nat b" using assms by auto
  then show "map ar_data (results_of l (a + 1) b) ! k = map e_command (drop (nat a) (take (nat b) l)) ! k"
    using k len by (simp add: results_of_def nth_upto)
qed

lemma apply_hands_over:
  assumes t: "apply_entries s = Some t" and a: "0 \<le> lastApplied s" "lastApplied s \<le> commitIndex s"
    and c: "commitIndex s < 2 ^ 62" "log_size s < 2 ^ 62"
  shows "hands_over s t"
proof -
  obtain x y z where frame: "t = s\<lparr>lastApplied := x, ready_queue := y, threads := z\<rparr>"
    using apply_entries_frame(1) [OF t] by blast
  have "in_i64 (commitIndex s)" "log_size s < 2 ^ 63" using a c by (auto simp: in_i64_def)
  from apply_entries_correct [OF a(1) this] t a c consider "t = s"
    | "lastApplied t = commitIndex s" "commitIndex s \<le> log_size s"
      "ready_queue t = ready_queue s @ results_of (rlog s) (lastApplied s + 1) (commitIndex s)"
    by (auto split: if_splits)
  then show ?thesis
  proof cases
    case 2
    have "map ar_data (results_of (rlog s) (lastApplied s + 1) (commitIndex s)) =
        map e_command (drop (nat (lastApplied s)) (take (nat (commitIndex s)) (rlog s)))"
      by (rule results_of_data) (use a 2(2) in \<open>simp_all add: log_size_def\<close>)
    with 2 a show ?thesis by (simp add: hands_over_def frame)
  qed (simp add: hands_over_def)
qed

text \<open>\<open>hands_over\<close> looks at the results before and at the log and commit index after.\<close>

lemma hands_over_from:
  "hands_over s t \<Longrightarrow> lastApplied r = lastApplied s \<Longrightarrow> ready_queue r = ready_queue s \<Longrightarrow> hands_over r t"
  by (simp add: hands_over_def)

section \<open>Taking the log of a leader\<close>

lemma request_positions:
  assumes "sent_by_leader M g r ctx m"
  obtains n where "ae_prev_log_index r = int n" "n \<le> length m" "ae_entries r = drop n m"
    "n > 0 \<Longrightarrow> ae_prev_log_term r = e_term (m ! (n - 1))"
proof (rule that [of "nat (ae_prev_log_index r)"])
  have "nat (ae_prev_log_index r - 1) = nat (ae_prev_log_index r) - 1" by simp
  then show "0 < nat (ae_prev_log_index r) \<Longrightarrow> ae_prev_log_term r = e_term (m ! (nat (ae_prev_log_index r) - 1))"
    using assms unfolding sent_by_leader_def by (metis zero_less_nat_eq)
qed (use assms in \<open>simp_all add: sent_by_leader_def nat_le_iff\<close>)

lemma accepted_from_leader:
  assumes r: "sent_by_leader M g r ctx m" and pa: "prev_agrees r fl" and match: "logs_match m fl"
  shows "accepted_log r fl = m \<or> accepted_log r fl = fl" "prefix m (accepted_log r fl)"
    "prefix m fl \<Longrightarrow> accepted_log r fl = fl"
proof -
  obtain n where n: "ae_prev_log_index r = int n" "n \<le> length m" "ae_entries r = drop n m"
    "n > 0 \<Longrightarrow> ae_prev_log_term r = e_term (m ! (n - 1))"
    using request_positions [OF r] by blast
  have pre: "n \<le> length fl" "take n m = take n fl"
    using prev_agrees_prefix [OF pa n(1,2) _ match] n(4) by auto
  have acc: "accepted_log r fl = take n fl @ merge_suffix (drop n fl) (drop n m)"
    using n(1,3) by (simp add: accepted_log_def merge_log_def)
  show either: "accepted_log r fl = m \<or> accepted_log r fl = fl"
    by (rule accepted_log_known [OF match pa]) (use r in \<open>auto simp: sent_by_leader_def\<close>)
  have "take (length (drop n m)) (merge_suffix (drop n fl) (drop n m)) = drop n m"
  proof (rule merge_suffix_same)
    fix k
    assume "k < length (drop n fl)" "k < length (drop n m)" "e_term (drop n fl ! k) = e_term (drop n m ! k)"
    then have "take (Suc k) (drop n fl) = take (Suc k) (drop n m)" by (rule logs_match_drop [OF match n(2) pre(1)])
    then show "drop n fl ! k = drop n m ! k" by (rule nth_take_eq) simp
  qed
  then have "take (length m) (accepted_log r fl) = take n m @ drop n m"
    unfolding acc using n(2) pre by simp
  then show "prefix m (accepted_log r fl)" by (metis append_take_drop_id take_is_prefix)
  assume "prefix m fl"
  then obtain xs where xs: "fl = m @ xs" by (auto simp: prefix_def)
  have "merge_suffix (drop n fl) (drop n m) = drop n fl"
    by (rule merge_suffix_keep) (use n(2) in \<open>auto simp: xs nth_append\<close>)
  then show "accepted_log r fl = fl" unfolding acc by simp
qed

text \<open>Accepting: the follower's log, its commit index and the results it hands over.\<close>

lemma accepted_move:
  assumes safe: "node_safe M E g i s" and r: "sent_by_leader M g r ctx m"
    and match: "logs_match m (rlog s)" and grow: "ghost_le g h"
    and go: "active s" "currentTerm s \<le> ae_term r" "prev_agrees r (rlog s)"
    and small: "log_size s < 2 ^ 62" "log_size t < 2 ^ 62"
    and ae: "append_entries r s = Some (t, rep)"
  shows "safe_move M E g h i s t" "currentTerm t = ae_term r" "prefix m (rlog t)"
proof -
  have ci: "0 \<le> commitIndex s" "commitIndex s \<le> log_size s" and
    la: "0 \<le> lastApplied s" "lastApplied s \<le> commitIndex s"
    using node_safeD(11,12,14) [OF safe] by (auto simp: applied_ok_def)
  have lc: "0 \<le> ae_leader_commit r" "ae_leader_commit r \<le> int (length m)" "int (length m) < 2 ^ 62"
    and com: "committed M g (ae_term r) (take (nat (ae_leader_commit r)) m)"
    and lead: "(ae_term r, m) \<in> g_lead g"
    using r by (auto simp: sent_by_leader_def)
  have sane: "node_sane s" "request_sane r s"
    using ci la small r by (auto simp: node_sane_def request_sane_def sent_by_leader_def in_i64_def)
  obtain u where u: "append_entries r s = Some (u, \<lparr>aer_term = ae_term r, aer_success = True, aer_conflict_info = None\<rparr>)"
    "currentTerm u = ae_term r" "currentRole u = Follower" "rlog u = accepted_log r (rlog s)"
    "commitIndex u = (if ae_leader_commit r > commitIndex s then min (ae_leader_commit r) (log_size u) else commitIndex s)"
    using append_entries_accept [OF go sane] by blast
  with ae have t: "currentTerm t = ae_term r" "currentRole t = Follower" "rlog t = accepted_log r (rlog s)"
    "commitIndex t = (if ae_leader_commit r > commitIndex s then min (ae_leader_commit r) (log_size t) else commitIndex s)"
    by auto
  note acc = accepted_from_leader [OF r go(3) match, folded t(3)]
  have len: "int (length m) \<le> log_size t" using prefix_length_le [OF acc(2)] by (simp add: log_size_def)
  have move: "log_move g s t"
  proof (cases "rlog t = rlog s")
    case False
    then have "rlog t = m" "\<not> prefix m (rlog s)" using acc by auto
    with t lead show ?thesis by (simp add: log_move_def strict_prefix_def)
  qed (simp add: log_move_def)
  have take: "take (nat (ae_leader_commit r)) (rlog t) = take (nat (ae_leader_commit r)) m"
    using acc(2) lc by (auto simp: prefix_def)
  have com': "commits M h s t"
    using t(1,4) len lc committed_mono [OF com grow] take by (auto simp: commits_def min_def)
  have "hands_over s t"
    using ae
  proof (cases rule: append_entries_shape)
    case (3 l c)
    let ?a = "(accept_leader r s)\<lparr>rlog := l, commitIndex := c\<rparr>"
    obtain x y z where "t = ?a\<lparr>lastApplied := x, ready_queue := y, threads := z\<rparr>"
      using apply_entries_frame(1) [OF 3(1)] by blast
    then have "rlog t = l" "commitIndex t = c" "log_size ?a = log_size t" by (simp_all add: log_size_def)
    moreover have "commitIndex s \<le> commitIndex t" "commitIndex t < 2 ^ 62"
      using t(4) len lc ci small by auto
    ultimately have "hands_over ?a t" using la small by (intro apply_hands_over [OF 3(1)]) auto
    then show ?thesis by (rule hands_over_from) simp_all
  qed (simp_all add: hands_over_def)
  with move com' t(1,2) go(2) show "safe_move M E g h i s t" by (simp add: safe_move_def)
  show "currentTerm t = ae_term r" "prefix m (rlog t)" by (fact t(1) acc(2))+
qed

lemma append_entries_move:
  assumes safe: "node_safe M E g i s" and r: "sent_by_leader M g r ctx m"
    and match: "logs_match m (rlog s)" and grow: "ghost_le g h" and i: "i64 (rid s) = i"
    and small: "log_size s < 2 ^ 62" "log_size t < 2 ^ 62"
    and ae: "append_entries r s = Some (t, rep)"
  shows "safe_move M E g h i s t" "aer_success rep \<Longrightarrow> currentTerm t = ae_term r \<and> prefix m (rlog t)"
proof -
  have idle: "safe_move M E g h i s t" if "same_store s t"
    by (rule idle_move [OF safe role_moves_law [OF append_entries_law [OF ae] i] that])
  have "safe_move M E g h i s t \<and> (aer_success rep \<longrightarrow> currentTerm t = ae_term r \<and> prefix m (rlog t))"
  proof (cases "active s \<and> currentTerm s \<le> ae_term r")
    case False
    then have "t = s" "\<not> aer_success rep"
      using ae by (auto simp: append_entries_def empty_append_reply_def split: if_splits)
    with idle show ?thesis by simp
  next
    case go: True
    show ?thesis
    proof (cases "prev_agrees r (rlog s)")
      case True
      with accepted_move [OF safe r match grow _ _ _ small ae] go show ?thesis by simp
    next
      case False
      have "in_i64 (ae_prev_log_index r)" using r by (auto simp: sent_by_leader_def in_i64_def)
      then have "t = accept_leader r s" "\<not> aer_success rep"
        using append_entries_reject [of s r] go False ae by auto
      with idle same_store_accept show ?thesis by simp
    qed
  qed
  then show "safe_move M E g h i s t" "aer_success rep \<Longrightarrow> currentTerm t = ae_term r \<and> prefix m (rlog t)" by blast+
qed

section \<open>Committing\<close>

lemma count_match_card:
  assumes "distinct ps" "\<And>k. k \<in> set ps \<Longrightarrow> i64 k = k"
  shows "count_match ps m n = 1 + int (card {k \<in> set ps. n \<le> map_get m k})"
proof -
  have "filter (\<lambda>p. n \<le> map_get m (i64 p)) ps = filter (\<lambda>p. n \<le> map_get m p) ps"
    by (rule filter_cong [OF refl]) (simp add: assms(2))
  moreover have "length (filter (\<lambda>p. n \<le> map_get m p) ps) = card {k \<in> set ps. n \<le> map_get m k}"
    using assms(1) distinct_card [of "filter (\<lambda>p. n \<le> map_get m p) ps"] by simp
  ultimately show ?thesis by (simp add: count_match_eq)
qed

text \<open>An index the commit rule accepts holds a chosen prefix of the leader's log.\<close>

lemma committable_chosen:
  assumes com: "committable l T ps mi n" and n: "0 < n" "n \<le> int (length l)"
    and ps: "distinct ps" "set ps = M - {i}" "\<And>k. k \<in> set ps \<Longrightarrow> i64 k = k"
    and M: "i \<in> M" "finite M" "odd (card M)"
    and self: "(i, T, l) \<in> g_held g" and peers: "\<And>k. k \<in> set ps \<Longrightarrow> acked g T l k (map_get mi k)"
  shows "chosen M g T (take (nat n) l)"
proof -
  let ?p = "take (nat n) l" and ?K = "{k \<in> set ps. n \<le> map_get mi k}"
  have len: "length ?p = nat n" using n by simp
  then have ne: "?p \<noteq> []" using n(1) by auto
  have "last ?p = l ! nat (n - 1)"
    using n ne len by (simp add: last_conv_nth nat_diff_distrib)
  then have at: "e_term (last ?p) = T" using com by (simp add: committable_def)
  have "i \<notin> ?K" using ps(2) by simp
  then have card: "card (insert i ?K) = Suc (card ?K)" by simp
  have cM: "length ps = card M - 1" using distinct_card [OF ps(1)] card_Diff_singleton [OF M(1)] ps(2) by simp
  have "2 * (1 + int (card ?K)) > int (length ps) + 1"
    using com count_match_card [OF ps(1,3)] by (simp add: committable_def)
  then have "card (insert i ?K) > (card M - 1) div 2" unfolding card cM by simp
  then have quorum: "vote_quorum M (insert i ?K)" using M ps(2) by (auto simp: vote_quorum_def)
  have "\<exists>m. (v, T, m) \<in> g_held g \<and> prefix ?p m" if "v \<in> insert i ?K" for v
  proof (cases "v = i")
    case True
    with self take_is_prefix show ?thesis by blast
  next
    case False
    then have v: "v \<in> set ps" "n \<le> map_get mi v" using that by auto
    then obtain m where "(v, T, m) \<in> g_held g" "prefix (take (nat (map_get mi v)) l) m"
      using peers [OF v(1)] n(1) by (auto simp: acked_def)
    moreover have "prefix ?p (take (nat (map_get mi v)) l)"
      using v(2) by (metis min_absorb1 nat_mono take_is_prefix take_take)
    ultimately show ?thesis using prefix_order.trans by blast
  qed
  with quorum ne at show ?thesis unfolding chosen_def by blast
qed

lemma advance_commit_hands_over:
  assumes "advance_commit target req ctx s = Some t" "0 \<le> lastApplied s" "lastApplied s \<le> commitIndex s"
    and "commitIndex t < 2 ^ 62" "log_size s < 2 ^ 62"
  shows "hands_over s t"
proof -
  define lst where "lst = sc_next_index ctx + int (length (ae_entries req)) - 1"
  define u where "u = s\<lparr>matchIndex := (matchIndex s)(i64 target \<mapsto> lst), nextIndex := (nextIndex s)(i64 target \<mapsto> lst + 1)\<rparr>"
  have u: "lastApplied u = lastApplied s" "ready_queue u = ready_queue s" "rlog u = rlog s"
    "commitIndex u = commitIndex s" by (simp_all add: u_def)
  have "t = u \<or> (\<exists>ci. apply_entries (u\<lparr>commitIndex := ci\<rparr>) = Some t \<and> commitIndex u < ci)"
    using assms(1) unfolding advance_commit_def Let_def lst_def [symmetric] u_def [symmetric]
    by (auto split: Option.bind_splits if_splits)
  then consider "t = u" | (handed) ci where "apply_entries (u\<lparr>commitIndex := ci\<rparr>) = Some t" "commitIndex s < ci"
    unfolding u(4) by blast
  then show ?thesis
  proof cases
    case handed
    have "commitIndex t = ci" using apply_entries_frame(1) [OF handed(1)] by auto
    then have "hands_over (u\<lparr>commitIndex := ci\<rparr>) t"
      using assms handed(2) u by (intro apply_hands_over [OF handed(1)]) (auto simp: log_size_def)
    then show ?thesis by (rule hands_over_from) (simp_all add: u)
  qed (simp add: hands_over_def u)
qed

lemma advance_commit_move:
  assumes safe: "node_safe M E g i s" and node: "node_ok M G i s" and L: "currentRole s = Leader"
    and M: "i \<in> M" "finite M" "odd (card M)" "\<And>k. k \<in> M \<Longrightarrow> i64 k = k" and count: "int (card M) < 2 ^ 63"
    and r: "sent_by_leader M g r ctx m" "ae_term r = currentTerm s"
    and held: "target \<in> M" "(target, ae_term r, l) \<in> g_held g" "prefix m l"
    and grow: "ghost_le g h" and small: "log_size s < 2 ^ 62"
    and adv: "advance_commit target r ctx s = Some t"
  shows "safe_move M E g h i s t"
proof -
  define lst where "lst = sc_next_index ctx + int (length (ae_entries r)) - 1"
  define mi where "mi = (matchIndex s)(i64 target \<mapsto> lst)"
  have pm: "prefix m (rlog s)" using node_safeD(7) [OF safe L] r by (simp add: sent_by_leader_def)
  have lst: "lst = int (length m)" using r(1) by (auto simp: lst_def sent_by_leader_def)
  then have le: "lst \<le> log_size s" using prefix_length_le [OF pm] by (simp add: log_size_def)
  have peers: "set (peers s) = M - {i}" "distinct (peers s)" "peers s \<noteq> []"
    using node node_safeD(8) [OF safe L] by (auto simp: node_ok_def)
  have len: "int (length (peers s)) < 2 ^ 63"
    using distinct_card [OF peers(2)] card_Diff_singleton [OF M(1)] peers(1) count by simp
  have sane: "node_sane s"
    using node_safeD(11,12,14) [OF safe] small by (auto simp: node_sane_def applied_ok_def in_i64_def)
  from advance_commit_correct [where target = target, OF sane len lst_def le mi_def] adv obtain ci la rq th where
    t: "t = s\<lparr>matchIndex := mi, nextIndex := (nextIndex s)(i64 target \<mapsto> lst + 1),
          commitIndex := ci, lastApplied := la, ready_queue := rq, threads := th\<rparr>"
    and rule: "commit_rule (rlog s) (currentTerm s) (peers s) mi lst (commitIndex s) ci" by auto
  have ack: "acked g (currentTerm s) (rlog s) k (map_get mi k)" if k: "k \<in> set (peers s)" for k
  proof (cases "i64 target = k")
    case True
    then have "k = target" "map_get mi k = lst" using M(4) [OF held(1)] by (simp_all add: mi_def)
    moreover have "take (nat lst) (rlog s) = m" using pm lst by (auto simp: prefix_def)
    ultimately show ?thesis using le held r(2) by (auto simp: acked_def log_size_def)
  next
    case False
    then have "map_get mi k = match_of k s" using M(4) k peers(1) by (simp add: mi_def)
    then show ?thesis using node_safeD(9) [OF safe L k] by simp
  qed
  have ci: "commitIndex s \<le> ci" "ci \<le> log_size s" using rule le node_safeD(12) [OF safe] by (auto simp: commit_rule_def)
  have "commits M h s t"
  proof (cases "ci = commitIndex s")
    case False
    then have "committable (rlog s) (currentTerm s) (peers s) mi ci" "0 < ci"
      using rule node_safeD(11) [OF safe] by (auto simp: commit_rule_def)
    then have "chosen M g (currentTerm s) (take (nat ci) (rlog s))"
      by (rule committable_chosen [OF _ _ _ peers(2,1) _ M(1-3) node_safeD(1) [OF safe] ack])
        (use ci peers(1) M(4) in \<open>auto simp: log_size_def\<close>)
    then have "committed M h (currentTerm s) (take (nat ci) (rlog s))"
      using chosen_mono [OF _ grow] unfolding committed_def by blast
    then show ?thesis using ci by (simp add: commits_def t log_size_def)
  qed (simp add: commits_def t)
  moreover have "hands_over s t"
    by (rule advance_commit_hands_over [OF adv]) (use sane small ci node_safeD(14) [OF safe] in
      \<open>auto simp: t node_sane_def applied_ok_def\<close>)
  moreover have "leads_on M E g s t"
    using ack M(4) peers(1,3) L by (simp add: leads_on_def t)
  ultimately show ?thesis using L by (simp add: safe_move_def log_move_def t)
qed

end
