(* ===== verification/FencedSafety.thy ===== *)
theory FencedSafety
  imports SafeMoves
begin

text \<open>
  State machine safety of fenced executions: those in which no send thread builds its request after
  its node has lost leadership. \<^verbatim>\<open>send_entries\<close> reads the term, the log and \<^verbatim>\<open>nextIndex\<close> in the
  send thread, without looking at the role again, so a thread started by a leader may run on a
  follower of a later term; a fenced execution is one where this race does not happen.
\<close>

section \<open>Fenced executions\<close>

fun fenced_event :: "event \<Rightarrow> cluster \<Rightarrow> bool" where
  "fenced_event (EvThread i k d) c =
     (case threads (nodes c i) ! k of TAppendSend target \<Rightarrow> currentRole (nodes c i) = Leader | _ \<Rightarrow> True)"
| "fenced_event ev c = True"

definition fenced_step :: "cluster \<Rightarrow> cluster \<Rightarrow> bool" where
  "fenced_step c c' \<longleftrightarrow>
     (\<exists>ev. exec ev c = Some c' \<and> fenced_event ev c) \<and>
     (\<forall>i \<in> set (members c'). log_size (nodes c' i) < 2 ^ 62)"

abbreviation fenced :: "config list \<Rightarrow> cluster \<Rightarrow> bool" where
  "fenced cfgs \<equiv> reach (tame_init cfgs) fenced_step"

lemma fenced_tame: "fenced cfgs c \<Longrightarrow> tame cfgs c"
proof (induction rule: reach.induct)
  case (step c d)
  from step(2) have "tame_step c d"
    unfolding fenced_step_def tame_step_def cluster_step_iff by blast
  with step(3) show ?case by (rule reach.step)
qed (rule reach.start)

section \<open>The invariant\<close>

definition safe_with :: "cluster \<Rightarrow> ghost \<Rightarrow> bool" where
  "safe_with c g \<longleftrightarrow>
     ghost_ok (set (members c)) (logs c) (elected c) g \<and>
     (\<forall>i \<in> set (members c). node_safe (set (members c)) (elected c) g i (nodes c i)) \<and>
     (\<forall>k \<in> set (calls c). call_safe (set (members c)) (elected c) g (nodes c) k)"

definition safe_inv :: "cluster \<Rightarrow> bool" where
  "safe_inv c \<longleftrightarrow> cluster_inv c \<and> term_inv c \<and> (\<exists>g. safe_with c g)"

text \<open>A call stays safe when one node makes a safe move.\<close>

lemma call_safe_step:
  assumes st: "one_step M LS E F g h i (N i) t" and ok: "call_ok M G N k" and safe: "call_safe M E g N k"
  shows "call_safe M F h (N(i := t)) k"
proof -
  note grow = one_step_moves(3) [OF st] and E = one_step_moves(4) [OF st]
  have cand: "currentRole (N i) = Candidate \<and> currentTerm (N i) = et \<and> rlog t = rlog (N i)"
    if "currentRole t = Candidate" "currentTerm t = et" "et \<le> currentTerm (N i)" for et
    using one_step_moves(6) [OF st that(1)] that by (auto simp: stands_def)
  show ?thesis
  proof (cases k)
    case (VoteReq f a req et)
    then have "et \<le> currentTerm (N f)" using ok by simp
    then show ?thesis using VoteReq safe cand [of et] by (cases "f = i") auto
  next
    case (VoteRep f a rep et)
    have "supports h et (rlog ((N(i := t)) f)) a"
      if granted: "rvr_vote_granted rep" and C: "currentRole ((N(i := t)) f) = Candidate" "currentTerm ((N(i := t)) f) = et"
        and none: "\<forall>x. (et, x) \<notin> F"
    proof -
      have "et \<le> currentTerm (N f)" using ok VoteRep granted by auto
      then have "currentRole (N f) = Candidate" "currentTerm (N f) = et" "rlog ((N(i := t)) f) = rlog (N f)"
        using C cand [of et] by (cases "f = i"; simp)+
      moreover have "\<forall>x. (et, x) \<notin> E" using none E by blast
      ultimately have "supports g et (rlog ((N(i := t)) f)) a" using safe VoteRep granted by simp
      then show ?thesis using grow by (rule supports_mono)
    qed
    with VoteRep show ?thesis by simp
  next
    case (AppReq f a r ctx)
    then obtain m where "sent_by_leader M g r ctx m" using safe by auto
    from sent_mono [OF this grow] AppReq show ?thesis by auto
  next
    case (AppRep f a rep r ctx)
    then obtain m where "a \<in> M" "sent_by_leader M g r ctx m"
      and ack: "aer_success rep \<Longrightarrow> \<exists>l. (a, ae_term r, l) \<in> g_held g \<and> prefix m l" using safe by auto
    moreover have "aer_success rep \<Longrightarrow> \<exists>l. (a, ae_term r, l) \<in> g_held h \<and> prefix m l"
      using ack grow unfolding ghost_le_def by blast
    ultimately show ?thesis using AppRep sent_mono [OF _ grow] by (metis call_safe.simps(4))
  qed
qed

text \<open>What the election, log and term invariants give.\<close>

lemma inv_parts:
  assumes "cluster_inv c"
  shows "elections_ok c" "election_inv c" "log_inv c" "leaders_recorded c" "odd (card (set (members c)))"
  using assms by (simp_all add: cluster_inv_def elections_ok_def)

lemma inv_recorded:
  assumes inv: "cluster_inv c" "term_inv c" and i: "i \<in> set (members c)"
  shows "recorded_node (set (members c)) (logs c) (elected c) i (nodes c i)"
proof -
  have ok: "node_log_ok (logs c) (elected c) i (nodes c i)" using log_inv_node [OF inv_parts(3) [OF inv(1)] i] .
  have "(currentTerm (nodes c i), i) \<in> elected c" if "currentRole (nodes c i) = Leader"
    using inv_parts(4) [OF inv(1)] ok i that by (auto simp: leaders_recorded_def node_log_ok_def)
  then show ?thesis
    using ok i term_inv_node [OF inv(2) i] unfolding recorded_node_def node_log_ok_def term_ok_def by blast
qed

lemma inv_ids:
  assumes "cluster_inv c"
  shows "i \<in> set (members c) \<Longrightarrow> i64 i = i" "int (card (set (members c))) < 2 ^ 63"
proof -
  note range = election_inv_node [OF inv_parts(2) [OF assms]]
  then show "i \<in> set (members c) \<Longrightarrow> i64 i = i" by (blast intro: id_i64)
  have "set (members c) \<subseteq> {0..<2 ^ 63}" using range by auto
  then have "card (set (members c)) \<le> 2 ^ 63" using card_mono [of "{0..<2 ^ 63 :: int}"] by simp
  moreover have "odd (card (set (members c)))" by (rule inv_parts(5) [OF assms])
  then have "card (set (members c)) \<noteq> 2 ^ 63" by (intro notI) simp
  ultimately have "card (set (members c)) < 2 ^ 63" by (rule le_neq_implies_less)
  then show "int (card (set (members c))) < 2 ^ 63" by simp
qed

lemma inv_sorted: "cluster_inv c \<Longrightarrow> l \<in> set (logs c) \<Longrightarrow> sorted_terms l"
  using inv_parts(3) by (auto simp: log_inv_def history_log_ok_def)

lemma inv_match: "cluster_inv c \<Longrightarrow> l \<in> set (logs c) \<Longrightarrow> m \<in> set (logs c) \<Longrightarrow> logs_match l m"
  using inv_parts(3) by (auto simp: log_inv_def history_log_ok_def)

lemma inv_small: "cluster_inv c \<Longrightarrow> i \<in> set (members c) \<Longrightarrow> log_size (nodes c i) < 2 ^ 62"
  using log_inv_node [OF inv_parts(3)] by (auto simp: node_log_ok_def)

lemma safe_parts:
  assumes "safe_with c g"
  shows "ghost_ok (set (members c)) (logs c) (elected c) g"
    "i \<in> set (members c) \<Longrightarrow> node_safe (set (members c)) (elected c) g i (nodes c i)"
    "k \<in> set (calls c) \<Longrightarrow> call_safe (set (members c)) (elected c) g (nodes c) k"
  using assms by (simp_all add: safe_with_def)

text \<open>A node that makes a safe move, and new calls that are safe, keep the invariant.\<close>

lemma put_safe:
  assumes inv: "cluster_inv c" "term_inv c" "safe_with c g" "cluster_inv c'" and i: "i \<in> set (members c)"
    and c': "c' = put_node i t (c\<lparr>calls := cs, elections := n\<rparr>)" and h: "h = noted (elected c') i t g"
    and move: "safe_move (set (members c)) (elected c) g h i (nodes c i) t"
    and calls: "\<And>k. k \<in> set cs \<Longrightarrow> k \<in> set (calls c) \<or>
      call_safe (set (members c)) (elected c') h ((nodes c)(i := t)) k"
  shows "safe_with c' h"
proof -
  let ?M = "set (members c)" and ?E = "elected c" and ?F = "elected c'"
  have sim: "members c' = members c" "nodes c' = (nodes c)(i := t)" "logs c' = rlog t # logs c" "calls c' = cs"
    by (simp_all add: c')
  have "currentRole t = Leader \<Longrightarrow> active t"
    using log_inv_node [OF inv_parts(3) [OF inv(4)], of i] i by (simp add: sim node_log_ok_def)
  then have F: "?F = (if currentRole t = Leader then insert (currentTerm t, i) ?E else ?E)" by (auto simp: c')
  have st: "one_step ?M (logs c) ?E ?F g h i (nodes c i) t"
    unfolding one_step_def
    using safe_parts(1,2) [OF inv(3)] inv_sorted [OF inv(1)] inv_recorded [OF inv(1,2) i] i move h F
      elections_unique [OF inv_parts(1) [OF inv(4)]] by (intro conjI) blast+
  have "node_safe ?M ?F h j (nodes c' j)" if j: "j \<in> ?M" for j
  proof (cases "j = i")
    case True
    then show ?thesis using moved_safe [OF st] by (simp add: sim)
  next
    case False
    have "currentRole (nodes c j) = Leader \<Longrightarrow> (currentTerm (nodes c j), j) \<in> ?E"
      using inv_recorded [OF inv(1,2) j] by (simp add: recorded_node_def)
    from other_safe [OF st safe_parts(2) [OF inv(3) j] False this] False show ?thesis by (simp add: sim)
  qed
  moreover have "call_safe ?M ?F h (nodes c') k" if k: "k \<in> set cs" for k
    using calls [OF k]
  proof
    assume k: "k \<in> set (calls c)"
    from call_safe_step [OF st election_inv_call [OF inv_parts(2) [OF inv(1)] k] safe_parts(3) [OF inv(3) k]]
    show ?thesis by (simp add: sim)
  qed (simp add: sim)
  ultimately show ?thesis using history_safe [OF st] by (simp add: safe_with_def sim)
qed

section \<open>Every event keeps it\<close>

lemma idle_node:
  assumes inv: "cluster_inv c" "safe_with c g" and i: "i \<in> set (members c)"
    and law: "election_law (nodes c i) t" and store: "same_store (nodes c i) t"
  shows "safe_move (set (members c)) (elected c) g h i (nodes c i) t"
proof (rule idle_move [OF safe_parts(2) [OF inv(2) i] role_moves_law [OF law] store])
  show "i64 (rid (nodes c i)) = i"
    using election_inv_node(3) [OF inv_parts(2) [OF inv(1)] i] inv_ids(1) [OF inv(1) i] by (simp add: node_ok_def)
qed

lemma local_safe:
  assumes inv: "cluster_inv c" "term_inv c" "safe_with c g" "cluster_inv c'" and op: "local_op i f c = Some c'"
    and move: "\<And>h. i \<in> set (members c) \<Longrightarrow>
      safe_move (set (members c)) (elected c) g h i (nodes c i) (f (nodes c i))"
  shows "\<exists>h. safe_with c' h"
  using op
proof (rule local_opE)
  assume i: "i \<in> set (members c)" and c': "c' = put_node i (f (nodes c i)) c"
  from c' have "c' = put_node i (f (nodes c i)) (c\<lparr>calls := calls c, elections := elections c\<rparr>)" by simp
  from put_safe [OF inv i this refl move [OF i]] show ?thesis by blast
qed

text \<open>A send thread of a leader builds a request of that leader.\<close>

lemma built_by_leader:
  assumes build: "build_append_request target s = Some (r, ctx)" and safe: "node_safe M E g i s"
    and L: "currentRole s = Leader" and small: "log_size s < 2 ^ 62"
  shows "sent_by_leader M g r ctx (rlog s)"
proof -
  note b = build_append_request_cases [OF build]
  have n: "1 \<le> next_of target s" "next_of target s \<le> int (length (rlog s)) + 1"
    using b(1) by (simp_all add: next_ok_def log_size_def)
  have "e_term (rlog s ! nat (next_of target s - 1 - 1)) = e_term (rlog s ! nat (next_of target s - 2))" by simp
  then show ?thesis
    using node_safeD(6) [OF safe L] node_safeD(11-13) [OF safe] small n
    unfolding sent_by_leader_def b(2,3) by (simp add: probe_request_def probe_ctx_def log_size_def)
qed

lemma thread_safe:
  assumes inv: "cluster_inv c" "term_inv c" "safe_with c g" "cluster_inv c'" and op: "thread_op i k d c = Some c'"
    and fence: "\<And>target. threads (nodes c i) ! k = TAppendSend target \<Longrightarrow> currentRole (nodes c i) = Leader"
  shows "\<exists>h. safe_with c' h"
  using op
proof (rule thread_opE)
  fix t out
  let ?M = "set (members c)" and ?s = "nodes c i" and ?th = "threads (nodes c i) ! k"
  let ?q = "?s\<lparr>threads := remove_nth k (threads ?s)\<rparr>"
  define h where "h = noted (elected c') i t g"
  assume i: "i \<in> set (members c)" and run: "run_thread d ?th ?q = Some (t, out)"
    and c': "c' = put_node i t (c\<lparr>calls := calls c @ out, elections :=
       (if ?th = TBecomeCandidate then elections c + 1 else elections c)\<rparr>)"
  have quiet: "same_election ?s ?q" "same_store ?s ?q" by (simp_all add: same_election_def same_store_def)
  have law: "election_law ?s t" using quiet_election_law [OF quiet(1) run_thread_law [OF run]] .
  have store: "same_store ?s t" using same_store_trans [OF quiet(2) same_store_thread [OF run]] .
  have safe0: "node_safe ?M (elected c) g i ?q"
    using safe_parts(2) [OF inv(3) i] by (simp add: node_safe_def applied_ok_def log_size_def)
  have rid: "rid ?s = i" using election_inv_node(3) [OF inv_parts(2) [OF inv(1)] i] by (simp add: node_ok_def)
  have "call_safe ?M (elected c') h ((nodes c)(i := t)) x" if x: "x \<in> set out" for x
  proof (cases ?th)
    case (TVoteSend target et)
    then have "x = VoteReq i target (build_vote_request ?q) et" "t = ?q" using run x rid by auto
    then show ?thesis by (simp add: build_vote_request_def)
  next
    case (TAppendSend target)
    then obtain r ctx where r: "build_append_request target ?q = Some (r, ctx)" "x = AppReq i target r ctx"
      using run x rid by (auto split: Option.bind_splits)
    have "sent_by_leader ?M g r ctx (rlog ?q)"
      by (rule built_by_leader [OF r(1) safe0])
        (use fence [OF TAppendSend] inv_small [OF inv(1) i] in \<open>simp_all add: log_size_def\<close>)
    then have "sent_by_leader ?M h r ctx (rlog ?q)" unfolding h_def by (rule sent_mono [OF _ noted_le])
    then show ?thesis unfolding r(2) call_safe.simps by blast
  qed (use run x in auto)
  from put_safe [OF inv i c' h_def idle_node [OF inv(1,3) i law store]] this show ?thesis by auto
qed

text \<open>A voter supports the candidate it votes for.\<close>

lemma vote_safe:
  assumes call: "call_ok M G N (VoteReq f a req et)" "call_safe M E g N (VoteReq f a req et)"
    and t: "t = fst (reply_vote req (N a))" and h: "h = noted F a t g"
  shows "call_safe M F h (N(a := t)) (VoteRep f a (snd (reply_vote req (N a))) et)"
proof -
  have "supports h et (rlog (N f)) a \<and> f \<noteq> a"
    if granted: "rvr_vote_granted (snd (reply_vote req (N a)))"
      and C: "currentRole ((N(a := t)) f) = Candidate" "currentTerm ((N(a := t)) f) = et"
      and none: "\<forall>x. (et, x) \<notin> F"
  proof -
    have gr: "grants_vote req (N a)" using granted by (simp add: reply_vote_granted_iff)
    note st = reply_vote_granted_state [OF gr, folded t]
    have fa: "f \<noteq> a" using C st(3) by auto
    then have N: "currentRole (N f) = Candidate" "currentTerm (N f) = et" using C by simp_all
    then have T: "rv_term req = et" using call(1) by auto
    have "at_least_as_up_to_date (rlog (N f)) (rlog t)"
      using gr call(2) N by (simp add: grants_vote_def at_least_as_up_to_date_def t)
    moreover have "(a, et, rlog t) \<in> g_early h" using none st(1) T by (simp add: h noted_def)
    ultimately show ?thesis using fa by (auto simp: supports_def)
  qed
  then show ?thesis by auto
qed

lemma deliver_safe:
  assumes inv: "cluster_inv c" "term_inv c" "safe_with c g" "cluster_inv c'" and op: "deliver_op k c = Some c'"
  shows "\<exists>h. safe_with c' h"
proof (cases "calls c ! k")
  case (VoteReq f a req et)
  let ?M = "set (members c)"
  define t where "t = fst (reply_vote req (nodes c a))"
  define h where "h = noted (elected c') a t g"
  obtain rep where rep: "rep = snd (reply_vote req (nodes c a))" by blast
  have k: "k < length (calls c)" and a: "a \<in> ?M"
    and c': "c' = put_node a t (c\<lparr>calls := (calls c)[k := VoteRep f a rep et], elections := elections c\<rparr>)"
    using op VoteReq unfolding t_def rep
    by (auto simp: deliver_op_def service_RequestVote_def split: if_splits prod.splits)
  have "VoteReq f a req et \<in> set (calls c)" using k VoteReq by (metis nth_mem)
  note call = election_inv_call [OF inv_parts(2) [OF inv(1)] this] safe_parts(3) [OF inv(3) this]
  have "call_safe ?M (elected c') h ((nodes c)(a := t)) (VoteRep f a rep et)"
    unfolding rep by (rule vote_safe [OF call t_def h_def])
  moreover have "safe_move ?M (elected c) g h a (nodes c a) t"
    unfolding t_def by (rule idle_node [OF inv(1,3) a reply_vote_law same_store_reply_vote])
  ultimately show ?thesis using put_safe [OF inv a c' h_def] by (blast dest: set_list_update)
next
  case (AppReq f a r ctx)
  let ?M = "set (members c)"
  obtain t rep where k: "k < length (calls c)" and a: "a \<in> ?M"
    and ae: "append_entries r (nodes c a) = Some (t, rep)"
    and c': "c' = put_node a t (c\<lparr>calls := (calls c)[k := AppRep f a rep r ctx], elections := elections c\<rparr>)"
    using op AppReq by (auto simp: deliver_op_def service_AppendEntries_def split: if_splits Option.bind_splits)
  define h where "h = noted (elected c') a t g"
  have "AppReq f a r ctx \<in> set (calls c)" using k AppReq by (metis nth_mem)
  then obtain m where m: "sent_by_leader ?M g r ctx m" using safe_parts(3) [OF inv(3)] by fastforce
  have grow: "ghost_le g h" unfolding h_def by (rule noted_le)
  have "(ae_term r, m) \<in> g_lead g" using m by (simp add: sent_by_leader_def)
  then have "m \<in> set (logs c)" by (rule ghost_okD(1) [OF safe_parts(1) [OF inv(3)]])
  moreover have "rlog (nodes c a) \<in> set (logs c)" using inv_recorded [OF inv(1,2) a] by (simp add: recorded_node_def)
  ultimately have match: "logs_match m (rlog (nodes c a))" by (rule inv_match [OF inv(1)])
  have id: "i64 (rid (nodes c a)) = a"
    using election_inv_node(3) [OF inv_parts(2) [OF inv(1)] a] inv_ids(1) [OF inv(1) a] by (simp add: node_ok_def)
  have small: "log_size t < 2 ^ 62" using inv_small [OF inv(4), of a] a by (simp add: c')
  note move = append_entries_move [OF safe_parts(2) [OF inv(3) a] m match grow id inv_small [OF inv(1) a] small ae]
  have "\<exists>l. (a, ae_term r, l) \<in> g_held h \<and> prefix m l" if "aer_success rep"
    using move(2) [OF that] by (auto simp: h_def noted_def)
  then have "call_safe ?M (elected c') h ((nodes c)(a := t)) (AppRep f a rep r ctx)"
    using a sent_mono [OF m grow] by auto
  then show ?thesis using put_safe [OF inv a c' h_def move(1)] by (blast dest: set_list_update)
qed (use op in \<open>auto simp: deliver_op_def split: if_splits\<close>)

lemma handle_append_reply_moves:
  assumes "handle_append_reply a r ctx rep s = Some t"
  shows "same_store s t \<or> aer_success rep \<and> currentRole s = Leader \<and> ae_term r = currentTerm s \<and>
    advance_commit a r ctx (s\<lparr>replyCounter := (replyCounter s)(i64 a \<mapsto> sc_reply_counter ctx)\<rparr>) = Some t"
proof -
  define q where "q = s\<lparr>replyCounter := (replyCounter s)(i64 a \<mapsto> sc_reply_counter ctx)\<rparr>"
  have q: "same_store s q" "currentRole q = currentRole s" "currentTerm q = currentTerm s"
    by (simp_all add: q_def same_store_def)
  have "t = s \<or> t = q \<or> t = step_down (aer_term rep) q \<or> backtrack a ctx rep q = Some t \<or>
      aer_success rep \<and> currentRole q = Leader \<and> ae_term r = currentTerm q \<and> advance_commit a r ctx q = Some t"
    using assms unfolding handle_append_reply_def Let_def q_def [symmetric] by (auto split: if_splits)
  then show ?thesis
    unfolding q_def [symmetric]
    using q same_store_trans [OF q(1) same_store_step_down] same_store_trans [OF q(1) same_store_backtrack] by auto
qed

lemma safe_move_counter: "safe_move M E g h i (s\<lparr>replyCounter := x\<rparr>) t = safe_move M E g h i s t"
  by (simp add: safe_move_def log_move_def log_pushed_def leads_on_def stands_def commits_def hands_over_def)

text \<open>The reply to a request: nothing moves but bookkeeping, or the leader commits.\<close>

lemma append_reply_move:
  assumes inv: "cluster_inv c" "safe_with c g" and f: "f \<in> set (members c)"
    and am: "a \<in> set (members c)" "sent_by_leader (set (members c)) g r ctx m"
    and ack: "aer_success rep \<Longrightarrow> \<exists>l. (a, ae_term r, l) \<in> g_held g \<and> prefix m l" and grow: "ghost_le g h"
    and ap: "handle_append_reply a r ctx rep (nodes c f) = Some t"
  shows "safe_move (set (members c)) (elected c) g h f (nodes c f) t"
proof -
  let ?M = "set (members c)" and ?s = "nodes c f"
  let ?q = "?s\<lparr>replyCounter := (replyCounter ?s)(i64 a \<mapsto> sc_reply_counter ctx)\<rparr>"
  have idle: "safe_move ?M (elected c) g h f ?s t" if "same_store ?s t"
    by (rule idle_node [OF inv f handle_append_reply_law [OF ap] that])
  have q: "same_store ?s ?q" by (simp add: same_store_def)
  from handle_append_reply_moves [OF ap] consider "same_store ?s t"
    | (commit) "aer_success rep" "currentRole ?s = Leader" "ae_term r = currentTerm ?s"
        "advance_commit a r ctx ?q = Some t" by blast
  then show ?thesis
  proof cases
    case commit
    obtain l where l: "(a, ae_term r, l) \<in> g_held g" "prefix m l" using ack [OF commit(1)] by blast
    have safe: "node_safe ?M (elected c) g f ?q"
      using safe_parts(2) [OF inv(2) f] by (simp add: node_safe_def applied_ok_def log_size_def)
    have node: "node_ok ?M (granted c) f ?q"
      using election_inv_node(3) [OF inv_parts(2) [OF inv(1)] f] by (simp add: node_ok_def vote_sends_threads)
    have "safe_move ?M (elected c) g h f ?q t"
      by (rule advance_commit_move [OF safe node _ f _ inv_parts(5) [OF inv(1)] _ inv_ids(2) [OF inv(1)] am(2) _ am(1) l grow
            _ commit(4)]) (use commit inv_ids(1) [OF inv(1)] inv_small [OF inv(1) f] in \<open>simp_all add: log_size_def\<close>)
    then show ?thesis by (simp only: safe_move_counter)
  qed (rule idle)
qed

lemma return_safe:
  assumes inv: "cluster_inv c" "term_inv c" "safe_with c g" "cluster_inv c'" and op: "return_op k c = Some c'"
  shows "\<exists>h. safe_with c' h"
proof (cases "calls c ! k")
  case (VoteRep f a rep et)
  let ?M = "set (members c)" and ?s = "nodes c f"
  define t where "t = handle_vote_reply a et rep ?s"
  define h where "h = noted (elected c') f t g"
  have k: "k < length (calls c)" and f: "f \<in> ?M"
    and c': "c' = put_node f t (c\<lparr>calls := remove_nth k (calls c), elections := elections c\<rparr>)"
    using op VoteRep by (auto simp: return_op_def t_def split: if_splits)
  have "VoteRep f a rep et \<in> set (calls c)" using k VoteRep by (metis nth_mem)
  note call = election_inv_call [OF inv_parts(2) [OF inv(1)] this] safe_parts(3) [OF inv(3) this]
  have "safe_move ?M (elected c) g h f ?s t"
  proof (cases "counts_vote et rep ?s")
    case False
    show ?thesis
      unfolding t_def by (rule idle_node [OF inv(1,3) f handle_vote_reply_uncounted same_store_vote_reply]) (fact False)+
  next
    case True
    then have "(\<forall>x. (et, x) \<notin> elected c) \<Longrightarrow> supports g et (rlog ?s) a"
      using call(2) by (simp add: counts_vote_def)
    then show ?thesis
      unfolding t_def
      by (intro counted_move [OF safe_parts(2) [OF inv(3) f] election_inv_node(3) [OF inv_parts(2) [OF inv(1)] f]
          inv_parts(5) [OF inv(1)] _ f _ _ _ True]) (use call(1) inv_ids(1) [OF inv(1)] in auto)
  qed
  then show ?thesis using put_safe [OF inv f c' h_def] by (blast dest: in_set_remove_nthD)
next
  case (AppRep f a rep r ctx)
  let ?M = "set (members c)" and ?s = "nodes c f"
  obtain t where k: "k < length (calls c)" and f: "f \<in> ?M" and ap: "handle_append_reply a r ctx rep ?s = Some t"
    and c': "c' = put_node f t (c\<lparr>calls := remove_nth k (calls c), elections := elections c\<rparr>)"
    using op AppRep by (auto simp: return_op_def split: if_splits Option.bind_splits)
  define h where "h = noted (elected c') f t g"
  have "AppRep f a rep r ctx \<in> set (calls c)" using k AppRep by (metis nth_mem)
  from safe_parts(3) [OF inv(3) this] obtain m where am: "a \<in> ?M" "sent_by_leader ?M g r ctx m"
    and ack: "aer_success rep \<Longrightarrow> \<exists>l. (a, ae_term r, l) \<in> g_held g \<and> prefix m l" by auto
  have "safe_move ?M (elected c) g h f ?s t"
    by (rule append_reply_move [OF inv(1) inv(3) f am ack noted_le [of g "elected c'" f t, folded h_def] ap])
  then show ?thesis using put_safe [OF inv f c' h_def] by (blast dest: in_set_remove_nthD)
qed (use op in \<open>auto simp: return_op_def split: if_splits\<close>)

lemma drop_call_safe:
  assumes "safe_with c g" "set cs \<subseteq> set (calls c)"
  shows "safe_with (c\<lparr>calls := cs\<rparr>) g"
  using assms by (auto simp: safe_with_def)

lemma exec_safe:
  assumes inv: "cluster_inv c" "term_inv c" "safe_with c g" "cluster_inv c'"
    and ex: "exec ev c = Some c'" and fence: "fenced_event ev c"
  shows "\<exists>h. safe_with c' h"
proof -
  note local = local_safe [OF inv] and idle = idle_node [OF inv(1,3)]
  show ?thesis
  proof (cases ev)
    case (EvStartServer i)
    then show ?thesis
      using ex by (intro local [of i serving]) (auto intro: idle same_election_law quiet_ops same_store_local)
  next
    case (EvStopServer i)
    then show ?thesis
      using ex by (intro local [of i stop_server]) (auto intro: idle same_election_law quiet_ops same_store_local)
  next
    case (EvKill i)
    then show ?thesis
      using ex by (intro local [of i kill]) (auto intro: idle same_election_law quiet_ops same_store_local)
  next
    case (EvRun i d)
    then have "local_op i (\<lambda>s. run d (connect_peers s)) c = Some c'" using ex by (auto split: if_splits)
    then show ?thesis
      by (rule local) (auto intro!: idle_move [OF safe_parts(2) [OF inv(3)]] same_store_run simp: role_moves_def)
  next
    case (EvPropose i data)
    then show ?thesis using ex by (intro local) (auto intro: propose_move safe_parts(2) [OF inv(3)])
  next
    case (EvProposeSync i data)
    then show ?thesis using ex by (intro local) (auto intro: propose_move safe_parts(2) [OF inv(3)])
  next
    case (EvThread i k d)
    then show ?thesis using ex fence by (intro thread_safe [OF inv, of i k d]) simp_all
  next
    case (EvDeliver k)
    then show ?thesis using ex deliver_safe [OF inv] by simp
  next
    case (EvReturn k)
    then show ?thesis using ex return_safe [OF inv] by simp
  next
    case (EvFail k)
    then have "c' = c\<lparr>calls := remove_nth k (calls c)\<rparr>" using ex by (auto split: if_splits)
    then show ?thesis using drop_call_safe [OF inv(3) set_remove_nth] by blast
  qed
qed

text \<open>Initially every node has the empty log, in term 0.\<close>

lemma init_safe:
  assumes "\<forall>i. garbage i \<noteq> Leader"
  shows "\<exists>g. safe_with (init_cluster cfgs garbage) g"
proof -
  let ?c = "init_cluster cfgs garbage" and ?M = "cfg_id ` set cfgs"
  define g where "g = \<lparr>g_held = ?M \<times> {(0, [])}, g_lead = {}, g_early = ?M \<times> {(0, [])}\<rparr>"
  have node: "rlog (nodes ?c i) = []" "currentTerm (nodes ?c i) = 0" "currentRole (nodes ?c i) \<noteq> Leader"
    "votes (nodes ?c i) = {}" "commitIndex (nodes ?c i) = 0" "lastApplied (nodes ?c i) = 0"
    "ready_queue (nodes ?c i) = []" for i
    using assms by (simp_all add: nodes_init Raft_new_def split: option.split)
  have "node_safe ?M {} g i (nodes ?c i)" if "i \<in> ?M" for i
    using that unfolding node_safe_def node
    by (auto simp: g_def kept_def committed_def applied_ok_def log_size_def node)
  moreover have "ghost_ok ?M [[]] {} g" by (auto simp: ghost_ok_def g_def)
  ultimately have "safe_with ?c g" by (simp add: safe_with_def)
  then show ?thesis by blast
qed

interpretation fence: inductive_invariant "tame_init cfgs" fenced_step safe_inv for cfgs
proof
  fix c
  assume init: "tame_init cfgs c"
  then obtain garbage where g: "\<forall>i. garbage i \<noteq> Leader" "c = init_cluster cfgs garbage" "wf_configs cfgs"
    by (auto simp: tame_init_def)
  have "cluster_init cfgs c" using g by (auto simp: cluster_init_def)
  then show "safe_inv c"
    using matching.init_inv [OF init] terms.init_inv init_safe [OF g(1)] g(2) by (auto simp: safe_inv_def)
next
  fix c c'
  assume inv: "safe_inv c" and st: "fenced_step c c'"
  from st obtain ev where ev: "exec ev c = Some c'" "fenced_event ev c" by (auto simp: fenced_step_def)
  have c': "tame_step c c'" "cluster_step c c'" using st ev(1)
    by (auto simp: fenced_step_def tame_step_def cluster_step_iff)
  have "cluster_inv c'" "term_inv c'"
    using inv matching.step_inv [OF _ c'(1)] terms.step_inv [OF _ c'(2)] by (simp_all add: safe_inv_def)
  then show "safe_inv c'" using inv exec_safe [OF _ _ _ _ ev] by (auto simp: safe_inv_def)
qed

section \<open>What follows\<close>

text \<open>A node's committed entries are in the log of every leader of its term or a later one.\<close>

lemma fenced_leader_complete:
  assumes "fenced cfgs c" "i \<in> set (members c)" "j \<in> set (members c)"
    and L: "currentRole (nodes c j) = Leader" and T: "currentTerm (nodes c i) \<le> currentTerm (nodes c j)"
  shows "prefix (take (nat (commitIndex (nodes c i))) (rlog (nodes c i))) (rlog (nodes c j))" (is "prefix ?q ?l")
proof (cases "?q = []")
  case False
  have inv: "safe_inv c" using assms(1) by (rule fence.always)
  then obtain g where cl: "cluster_inv c" and g: "safe_with c g" by (auto simp: safe_inv_def)
  note ok = safe_parts(1) [OF g] and sorted = inv_sorted [OF cl] and lead = safe_parts(2) [OF g assms(3)]
  have ne: "set (members c) \<noteq> {}" using assms(2) by auto
  obtain U p where p: "U \<le> currentTerm (nodes c i)" "chosen (set (members c)) g U p" "prefix ?q p"
    using node_safeD(13) [OF safe_parts(2) [OF g assms(2)]] False by (auto simp: committed_def)
  have m: "(currentTerm (nodes c j), ?l) \<in> g_lead g" by (rule node_safeD(6) [OF lead L])
  have "prefix p ?l"
  proof (cases "U = currentTerm (nodes c j)")
    case True
    obtain n where "(U, n) \<in> g_lead g" "prefix p n" by (rule chosen_from_leader [OF ok p(2) ne])
    with node_safeD(7) [OF lead L, of n] True show ?thesis using prefix_order.trans by blast
  next
    case False
    then show ?thesis using leader_complete [OF ok sorted p(2) m] p(1) T by simp
  qed
  with p(3) show ?thesis by (rule prefix_order.trans)
next
  case True
  then show ?thesis by (simp only: Nil_prefix)
qed

lemma prefixes_of_prefixes: "prefix a p \<Longrightarrow> prefix b q \<Longrightarrow> prefix p q \<Longrightarrow> prefix a b \<or> prefix b a"
  using prefix_order.trans [of a p q] prefix_same_cases [of a q b] by blast

text \<open>What two nodes have handed over never conflicts.\<close>

lemma committed_comparable:
  assumes ok: "ghost_ok M LS E g" and sorted: "\<And>l. l \<in> set LS \<Longrightarrow> sorted_terms l" and ne: "M \<noteq> {}"
    and q: "committed M g T q" and r: "committed M g U r"
  shows "\<not> q \<parallel> r"
proof (cases "q = [] \<or> r = []")
  case False
  then obtain V p W s where "chosen M g V p" "prefix q p" "chosen M g W s" "prefix r s"
    using q r by (auto simp: committed_def)
  moreover from this have "\<not> p \<parallel> s" using chosen_agree [OF ok sorted ne] by blast
  ultimately show ?thesis unfolding not_parallel using prefix_order.trans prefix_same_cases by metis
qed (auto simp: not_parallel)

lemma results_prefix:
  assumes s: "applied_in_order s" and t: "applied_in_order t"
    and d: "prefix (map ar_data (ready_queue s)) (map ar_data (ready_queue t))"
  shows "prefix (ready_queue s) (ready_queue t)"
proof -
  let ?a = "ready_queue s" and ?b = "ready_queue t"
  have len: "length ?a \<le> length ?b" using prefix_length_le [OF d] by simp
  have ix: "map ar_index ?a = map u64 [1..lastApplied s]" "map ar_index ?b = map u64 [1..lastApplied t]"
    and valid: "\<And>r. r \<in> set ?a \<union> set ?b \<Longrightarrow> ar_valid r"
    using s t by (auto simp: applied_in_order_def)
  have ns: "length ?a = nat (lastApplied s)" "length ?b = nat (lastApplied t)"
    using arg_cong [OF ix(1), of length] arg_cong [OF ix(2), of length] by simp_all
  have "?a ! k = ?b ! k" if k: "k < length ?a" for k
  proof (rule apply_result.equality)
    have kb: "k < length ?b" using k len by simp
    have "map ar_index ?a ! k = u64 (1 + int k)" "map ar_index ?b ! k = u64 (1 + int k)"
      unfolding ix using k kb ns by (simp_all add: nth_upto)
    then show "ar_index (?a ! k) = ar_index (?b ! k)" using k kb by simp
    obtain xs where "map ar_data ?b = map ar_data ?a @ xs" using d by (auto simp: prefix_def)
    then have "map ar_data ?b ! k = map ar_data ?a ! k" using k by (simp add: nth_append)
    then show "ar_data (?a ! k) = ar_data (?b ! k)" using k kb by simp
    show "ar_valid (?a ! k) = ar_valid (?b ! k)" using valid k kb by simp
  qed simp
  then have "?a = take (length ?a) ?b" using len by (intro nth_equalityI) simp_all
  then show ?thesis by (metis take_is_prefix)
qed

lemma fenced_applied_agree:
  assumes "fenced cfgs c" "i \<in> set (members c)" "j \<in> set (members c)"
  shows "prefix (ready_queue (nodes c i)) (ready_queue (nodes c j)) \<or>
    prefix (ready_queue (nodes c j)) (ready_queue (nodes c i))"
proof -
  have inv: "safe_inv c" using assms(1) by (rule fence.always)
  then obtain g where cl: "cluster_inv c" and g: "safe_with c g" by (auto simp: safe_inv_def)
  have data: "\<exists>q. prefix (map ar_data (ready_queue (nodes c k))) (map e_command q) \<and>
      committed (set (members c)) g (currentTerm (nodes c k)) q" if k: "k \<in> set (members c)" for k
  proof -
    note safe = safe_parts(2) [OF g k]
    have "map ar_data (ready_queue (nodes c k)) =
        map e_command (take (nat (lastApplied (nodes c k))) (take (nat (commitIndex (nodes c k))) (rlog (nodes c k))))"
      using node_safeD(14) [OF safe] by (simp add: applied_ok_def min_absorb1 nat_mono)
    then show ?thesis using node_safeD(13) [OF safe] map_mono_prefix [OF take_is_prefix] by metis
  qed
  obtain p q where p: "prefix (map ar_data (ready_queue (nodes c i))) (map e_command p)"
      "committed (set (members c)) g (currentTerm (nodes c i)) p"
    and q: "prefix (map ar_data (ready_queue (nodes c j))) (map e_command q)"
      "committed (set (members c)) g (currentTerm (nodes c j)) q"
    using data assms(2,3) by meson
  have ne: "set (members c) \<noteq> {}" using assms(2) by auto
  have "\<not> p \<parallel> q" by (rule committed_comparable [OF safe_parts(1) [OF g] inv_sorted [OF cl] ne p(2) q(2)])
  then have "prefix (map e_command p) (map e_command q) \<or> prefix (map e_command q) (map e_command p)"
    unfolding not_parallel using map_mono_prefix by metis
  with p(1) q(1) have "prefix (map ar_data (ready_queue (nodes c i))) (map ar_data (ready_queue (nodes c j))) \<or>
      prefix (map ar_data (ready_queue (nodes c j))) (map ar_data (ready_queue (nodes c i)))"
    using prefixes_of_prefixes [OF p(1) q(1)] prefixes_of_prefixes [OF q(1) p(1)] by blast
  moreover have "applied_in_order (nodes c k)" for k
    by (rule reachable_applied_in_order [OF tame_reachable [OF fenced_tame [OF assms(1)]]])
  ultimately show ?thesis using results_prefix by metis
qed

end
