(* ===== verification/ElectionProgress.thy ===== *)
theory ElectionProgress
  imports FencedSafety
begin

text \<open>
  A cluster never loses the ability to elect a leader. First an invariant of every node: while it runs, a thread
  that restarts its timer, or one that the timer has started, is on its way (\<open>never_idle\<close>). Then schedules that
  exist from every reachable state: a node that becomes a candidate (\<open>can_stand\<close>), one whose term is above
  those of the others (\<open>can_outbid\<close>), one that collects the votes of a majority (\<open>can_win\<close>). The schedules consist of
  steps of the candidate's own threads and of vote requests that are delivered and answered; nothing is lost and
  nothing is replicated on the way, so they are steps of fenced executions too.
\<close>

section \<open>A running node always has a timer on its way\<close>

fun ticks :: "64 word \<Rightarrow> thread \<Rightarrow> bool" where
  "ticks n TStartElectionTimer = True"
| "ticks n TStartHeartbeatTimer = True"
| "ticks n (TTimer c d m) = (c = n)"
| "ticks n TBecomeCandidate = True"
| "ticks n TSendEntries = True"
| "ticks n _ = False"

text \<open>A node that leads has one that does not make it a candidate.\<close>

definition on_its_way :: "raft \<Rightarrow> thread \<Rightarrow> bool" where
  "on_its_way s t \<longleftrightarrow> ticks (timerCounter s) t \<and> (currentRole s = Leader \<longrightarrow> t \<noteq> TBecomeCandidate)"

definition never_idle :: "raft \<Rightarrow> bool" where
  "never_idle s \<longleftrightarrow> (active s \<and> \<not> dead s \<longrightarrow> (\<exists>t \<in> set (active_threads s). on_its_way s t))"

text \<open>An operation that neither touches the timer nor ends a thread keeps this.\<close>

definition keeps_timer :: "raft \<Rightarrow> raft \<Rightarrow> bool" where
  "keeps_timer s t \<longleftrightarrow>
     active t = active s \<and> dead t = dead s \<and> timerCounter t = timerCounter s \<and>
     set (active_threads s) \<subseteq> set (active_threads t) \<and>
     (currentRole t = Leader \<longrightarrow> currentRole s = Leader \<or> TStartHeartbeatTimer \<in> set (active_threads t))"

lemma keeps_timer_idle:
  assumes "never_idle s" "keeps_timer s t"
  shows "never_idle t"
proof (cases "currentRole t = Leader \<and> currentRole s \<noteq> Leader")
  case True
  then have "TStartHeartbeatTimer \<in> set (active_threads t)" using assms(2) by (simp add: keeps_timer_def)
  then show ?thesis unfolding never_idle_def on_its_way_def by force
next
  case False
  then show ?thesis using assms unfolding never_idle_def keeps_timer_def on_its_way_def by auto
qed

lemma keeps_timer_trans: "keeps_timer s t \<Longrightarrow> keeps_timer t u \<Longrightarrow> keeps_timer s u"
  unfolding keeps_timer_def by auto

lemma keeps_timer_upd [simp]:
  "keeps_timer s (s\<lparr>rlog := l\<rparr>)" "keeps_timer s (s\<lparr>commitIndex := ci\<rparr>)" "keeps_timer s (s\<lparr>nextIndex := m\<rparr>)"
  "keeps_timer s (s\<lparr>matchIndex := m\<rparr>)" "keeps_timer s (s\<lparr>replyCounter := m\<rparr>)" "keeps_timer s s"
  by (simp_all add: keeps_timer_def)

lemma keeps_timer_apply: "apply_entries s = Some t \<Longrightarrow> keeps_timer s t"
  using apply_entries_frame [of s t] by (fastforce simp: keeps_timer_def)

lemma keeps_timer_votes:
  "keeps_timer s (step_down T s)" "keeps_timer s (accept_leader r s)" "keeps_timer s (become_leader s)"
  "keeps_timer s (fst (reply_vote request s))" "keeps_timer s (handle_vote_reply target et reply s)"
  by (auto simp: keeps_timer_def step_down_def accept_leader_def become_leader_eq reply_vote_def handle_vote_reply_def
      Let_def)

lemma keeps_timer_local:
  "keeps_timer s (serving s)" "keeps_timer s (stop_server s)" "keeps_timer s (fst (propose data s))"
  "keeps_timer s (fst (propose_sync data s))" "keeps_timer s (fst (sync_wakeup cv i res s))"
  by (auto simp: keeps_timer_def serving_def stop_server_def propose_def propose_sync_def push_proposal_def
      sync_wakeup_def sync_finish_def Let_def active_threads_def)

lemma keeps_timer_append_entries: "append_entries request s = Some (t, reply) \<Longrightarrow> keeps_timer s t"
proof (erule append_entries_shape)
  fix l ci
  assume "apply_entries ((accept_leader request s)\<lparr>rlog := l, commitIndex := ci\<rparr>) = Some t"
  from keeps_timer_apply [OF this] show "keeps_timer s t"
    using keeps_timer_votes(2) [of s request] unfolding keeps_timer_def by simp
qed (use keeps_timer_votes(2) [of s request] in \<open>auto simp: keeps_timer_def\<close>)

lemma keeps_timer_append_reply: "handle_append_reply target req ctx reply s = Some t \<Longrightarrow> keeps_timer s t"
proof (erule handle_append_reply_cases)
  fix s1
  assume s1: "s1 = s\<lparr>replyCounter := (replyCounter s)(i64 target \<mapsto> sc_reply_counter ctx)\<rparr>"
    and t: "t = s1 \<or> t = step_down (aer_term reply) s1 \<and> currentTerm s < aer_term reply \<or>
       currentRole s = Leader \<and> ae_term req = currentTerm s \<and>
         (backtrack target ctx reply s1 = Some t \<or> advance_commit target req ctx s1 = Some t)"
  have "keeps_timer s1 t" if "backtrack target ctx reply s1 = Some t"
    using that by (auto simp: backtrack_def Let_def split: option.splits Option.bind_splits if_splits)
  moreover have "keeps_timer s1 t" if "advance_commit target req ctx s1 = Some t"
    using that by (auto simp: advance_commit_def Let_def keeps_timer_def split: Option.bind_splits if_splits
        dest!: keeps_timer_apply)
  ultimately have "keeps_timer s1 t" using t keeps_timer_votes(1) by auto
  moreover have "keeps_timer s s1" unfolding s1 by simp
  ultimately show "keeps_timer s t" using keeps_timer_trans by blast
qed simp

text \<open>One thread runs: it was not the one that ticks, or it leaves another that does.\<close>

lemma thread_never_idle:
  assumes idle: "never_idle s" and k: "k < length (threads s)"
    and run: "run_thread d (threads s ! k) (s\<lparr>threads := remove_nth k (threads s)\<rparr>) = Some (t, out)"
  shows "never_idle t"
proof -
  let ?th = "threads s ! k"
  define s0 where "s0 = s\<lparr>threads := remove_nth k (threads s)\<rparr>"
  have left: "x = ?th \<or> x \<in> set (active_threads s0)" if "x \<in> set (active_threads s)" for x
    using that mem_remove_nth_or [OF k, of x] by (auto simp: active_threads_def s0_def)
  have same: "active s0 = active s" "dead s0 = dead s" "timerCounter s0 = timerCounter s" "currentRole s0 = currentRole s"
    by (simp_all add: s0_def)
  have rest: "never_idle s0" if "\<not> ticks (timerCounter s) ?th"
  proof -
    have "on_its_way s0 x = on_its_way s x" for x using same by (simp add: on_its_way_def)
    then show ?thesis using idle that left same unfolding never_idle_def by (metis on_its_way_def)
  qed
  note r = run [folded s0_def]
  show ?thesis
  proof (cases ?th)
    case (TTimer c delay mode)
    show ?thesis
    proof (cases "c = timerCounter s \<and> \<not> dead s")
      case True
      then show ?thesis using r TTimer same by (auto simp: start_timer_def never_idle_def on_its_way_def)
    next
      case False
      then have "t = s0" using r TTimer same by (auto simp: start_timer_def)
      moreover have "never_idle s0"
      proof (cases "dead s")
        case dead: True
        then show ?thesis using same by (simp add: never_idle_def)
      next
        case alive: False
        then show ?thesis using rest False TTimer by simp
      qed
      ultimately show ?thesis by simp
    qed
  next
    case (TSyncWait cv i res awake)
    then have "t = fst (sync_wakeup cv i res s0)" using r by simp
    then show ?thesis using rest TSyncWait keeps_timer_idle keeps_timer_local(5) by simp
  next
    case (TAppendSend target)
    then have "t = s0" using r by (auto split: Option.bind_splits)
    then show ?thesis using rest TAppendSend by simp
  qed (use r rest in \<open>auto simp: never_idle_def on_its_way_def start_election_timer_def start_heartbeat_timer_def become_candidate_def
      request_votes_def send_entries_def spawn_all_eq active_threads_def Let_def\<close>)
qed

lemma exec_never_idle:
  assumes "exec ev c = Some c'" "\<forall>i. never_idle (nodes c i)"
  shows "never_idle (nodes c' i)"
proof (cases ev)
  case (EvThread j k d)
  then have "thread_op j k d c = Some c'" using assms(1) by simp
  then show ?thesis using assms(2) by (elim thread_opE) (auto intro: thread_never_idle)
next
  case (EvDeliver k)
  have "keeps_timer (nodes c i) (nodes c' i)"
    using assms(1) EvDeliver keeps_timer_append_entries keeps_timer_votes(4)
    by (auto simp: deliver_op_def service_RequestVote_def service_AppendEntries_def
        split: if_splits call.splits prod.splits Option.bind_splits) (metis fst_conv)+
  then show ?thesis using assms(2) keeps_timer_idle by blast
next
  case (EvReturn k)
  have "keeps_timer (nodes c i) (nodes c' i)"
    using assms(1) EvReturn keeps_timer_append_reply keeps_timer_votes(5)
    by (auto simp: return_op_def split: if_splits call.splits Option.bind_splits)
  then show ?thesis using assms(2) keeps_timer_idle by blast
next
  case (EvRun j d)
  then show ?thesis using assms
    by (auto simp: local_op_def never_idle_def on_its_way_def run_def become_follower_def start_election_timer_def Let_def
        split: if_splits)
next
  case (EvKill j)
  then show ?thesis using assms by (auto simp: local_op_def never_idle_def kill_def split: if_splits)
qed (use assms keeps_timer_local keeps_timer_idle in \<open>fastforce simp: local_op_def split: if_splits\<close>)+

interpretation timers: inductive_invariant "cluster_init cfgs" cluster_step "\<lambda>c. \<forall>i. never_idle (nodes c i)" for cfgs
proof
  fix c
  assume "cluster_init cfgs c"
  then show "\<forall>i. never_idle (nodes c i)"
    by (auto simp: cluster_init_def never_idle_def nodes_init Raft_new_def split: option.splits)
qed (use exec_never_idle in \<open>auto simp: cluster_step_iff\<close>)

section \<open>Steps of an election\<close>

text \<open>A step that builds no append request and changes no log.\<close>

definition election_step :: "cluster \<Rightarrow> cluster \<Rightarrow> bool" where
  "election_step c c' \<longleftrightarrow>
     (\<exists>ev. exec ev c = Some c' \<and> fenced_event ev c) \<and> (\<forall>j. rlog (nodes c' j) = rlog (nodes c j))"

lemma election_stepI:
  "exec ev c = Some c' \<Longrightarrow> fenced_event ev c \<Longrightarrow> (\<And>j. rlog (nodes c' j) = rlog (nodes c j)) \<Longrightarrow> election_step c c'"
  unfolding election_step_def by blast

abbreviation elects :: "cluster \<Rightarrow> cluster \<Rightarrow> bool" where
  "elects \<equiv> election_step\<^sup>*\<^sup>*"

lemma elects_logs: "elects c c' \<Longrightarrow> rlog (nodes c' j) = rlog (nodes c j) \<and> members c' = members c"
  by (induction rule: rtranclp_induct) (auto simp: election_step_def exec_members)

lemma elects_reachable: "elects c c' \<Longrightarrow> reachable cfgs c \<Longrightarrow> reachable cfgs c'"
  by (induction rule: rtranclp_induct) (auto simp: election_step_def intro: reach.step cluster_step.event)

lemma elects_steps: "elects c c' \<Longrightarrow> cluster_step\<^sup>*\<^sup>* c c'"
  by (induction rule: rtranclp_induct) (auto simp: election_step_def intro: rtranclp.rtrancl_into_rtrancl cluster_step.event)

lemma elects_fenced:
  assumes "elects c c'" "fenced cfgs c"
  shows "fenced cfgs c' \<and> fenced_step\<^sup>*\<^sup>* c c'"
  using assms
proof (induction rule: rtranclp_induct)
  case (step d d')
  then have f: "fenced cfgs d" "fenced_step\<^sup>*\<^sup>* c d" by simp_all
  have inv: "cluster_inv d" by (rule matching.always [OF fenced_tame [OF f(1)]])
  have "members d' = members d" using step(2) exec_members by (auto simp: election_step_def)
  then have "fenced_step d d'"
    using step(2) inv_small [OF inv] unfolding election_step_def fenced_step_def log_size_def by auto
  with f show ?case by (auto intro: reach.step rtranclp.rtrancl_into_rtrancl)
qed simp

text \<open>A thread that is there can run.\<close>

lemma thread_steps:
  assumes i: "i \<in> set (members c)" and th: "th \<in> set (threads (nodes c i))" "\<And>target. th \<noteq> TAppendSend target"
    and run: "\<And>ts. (\<And>x. x \<in> set (threads (nodes c i)) \<Longrightarrow> x = th \<or> x \<in> set ts) \<Longrightarrow>
      \<exists>t out. run_thread 150 th (nodes c i\<lparr>threads := ts\<rparr>) = Some (t, out) \<and> rlog t = rlog (nodes c i) \<and> P t out"
  obtains t out n where "P t out" "election_step c (put_node i t (c\<lparr>calls := calls c @ out, elections := n\<rparr>))"
proof -
  let ?s = "nodes c i"
  obtain k where k: "k < length (threads ?s)" "threads ?s ! k = th" using th(1) by (auto simp: in_set_conv_nth)
  have "\<And>x. x \<in> set (threads ?s) \<Longrightarrow> x = th \<or> x \<in> set (remove_nth k (threads ?s))"
    using mem_remove_nth_or [OF k(1)] k(2) by auto
  then obtain t out where r: "run_thread 150 th (?s\<lparr>threads := remove_nth k (threads ?s)\<rparr>) = Some (t, out)"
      "rlog t = rlog ?s" "P t out"
    using run [of "remove_nth k (threads ?s)"] by auto
  define n where "n = (if th = TBecomeCandidate then elections c + 1 else elections c)"
  have "exec (EvThread i k 150) c = Some (put_node i t (c\<lparr>calls := calls c @ out, elections := n\<rparr>))"
    using i k r(1) by (simp add: thread_op_def Let_def election_delay_def n_def)
  moreover have "fenced_event (EvThread i k 150) c" using k(2) th(2) by (cases th) auto
  ultimately have "election_step c (put_node i t (c\<lparr>calls := calls c @ out, elections := n\<rparr>))"
    using r(2) unfolding election_step_def by fastforce
  with r(3) show thesis by (rule that)
qed

section \<open>Standing for election\<close>

text \<open>A node up to its threads and its timer.\<close>

definition core :: "raft \<Rightarrow> raft" where
  "core s = s\<lparr>threads := [], timerCounter := 0\<rparr>"

lemma core_upd [simp]: "core (s\<lparr>threads := ts\<rparr>) = core s" "core (s\<lparr>timerCounter := n\<rparr>) = core s" "core (spawn th s) = core s"
  by (simp_all add: core_def spawn_def)

lemma core_eq_iff:
  "core s = core t \<longleftrightarrow>
     rid s = rid t \<and> listening_addr s = listening_addr t \<and> peer_addrs s = peer_addrs t \<and> dead s = dead t \<and>
     ready_queue s = ready_queue t \<and> peers s = peers t \<and> server_running s = server_running t \<and>
     currentTerm s = currentTerm t \<and> votedFor s = votedFor t \<and> rlog s = rlog t \<and> lastApplied s = lastApplied t \<and>
     commitIndex s = commitIndex t \<and> nextIndex s = nextIndex t \<and> matchIndex s = matchIndex t \<and>
     replyCounter s = replyCounter t \<and> currentRole s = currentRole t \<and> votes s = votes t \<and> active s = active t \<and>
     proposal_cvs s = proposal_cvs t \<and> next_cv s = next_cv t"
  by (cases s; cases t) (auto simp: core_def)

text \<open>The node after becoming a candidate of term \<open>T\<close>.\<close>

definition candidate_at :: "i64_t \<Rightarrow> raft \<Rightarrow> raft \<Rightarrow> bool" where
  "candidate_at T s t \<longleftrightarrow>
     core t = core (s\<lparr>currentRole := Candidate, currentTerm := T, votedFor := i64 (rid s), votes := {i64 (rid s)}\<rparr>)"

definition timer_change :: "raft \<Rightarrow> raft \<Rightarrow> bool" where
  "timer_change s t \<longleftrightarrow> core t = core s"

text \<open>What a step of one node's timer does to the cluster.\<close>

definition only_timer :: "u64_t \<Rightarrow> cluster \<Rightarrow> cluster \<Rightarrow> bool" where
  "only_timer i c c' \<longleftrightarrow> election_step c c' \<and> timer_change (nodes c i) (nodes c' i) \<and> (\<forall>j. j \<noteq> i \<longrightarrow> nodes c' j = nodes c j)"

definition stood :: "u64_t \<Rightarrow> cluster \<Rightarrow> cluster \<Rightarrow> bool" where
  "stood i c c' \<longleftrightarrow>
     elects c c' \<and> candidate_at (currentTerm (nodes c i) + 1) (nodes c i) (nodes c' i) \<and>
     TRequestVotes \<in> set (threads (nodes c' i)) \<and> (\<forall>j. j \<noteq> i \<longrightarrow> nodes c' j = nodes c j)"

lemma stood_later: "only_timer i c d \<Longrightarrow> stood i d c' \<Longrightarrow> stood i c c'"
  unfolding only_timer_def stood_def timer_change_def candidate_at_def core_eq_iff
  by (auto intro: converse_rtranclp_into_rtranclp)

lemma timer_step:
  assumes i: "i \<in> set (members c)" and th: "th \<in> set (threads (nodes c i))" "\<And>target. th \<noteq> TAppendSend target"
    and run: "\<And>ts. \<exists>t. run_thread 150 th (nodes c i\<lparr>threads := ts\<rparr>) = Some (t, []) \<and> timer_change (nodes c i) t \<and> P t"
  obtains d where "only_timer i c d" "P (nodes d i)"
proof -
  obtain t out n where t: "timer_change (nodes c i) t \<and> P t \<and> out = []"
    "election_step c (put_node i t (c\<lparr>calls := calls c @ out, elections := n\<rparr>))"
  proof (rule thread_steps [OF i th, of "\<lambda>t out. timer_change (nodes c i) t \<and> P t \<and> out = []"])
    fix ts
    from run [of ts] show "\<exists>t out. run_thread 150 th (nodes c i\<lparr>threads := ts\<rparr>) = Some (t, out) \<and> rlog t = rlog (nodes c i) \<and>
        timer_change (nodes c i) t \<and> P t \<and> out = []"
      by (auto simp: timer_change_def core_eq_iff)
  qed
  then have "only_timer i c (put_node i t (c\<lparr>calls := calls c @ out, elections := n\<rparr>))"
    by (simp add: only_timer_def)
  with t(1) show thesis by (intro that) auto
qed

lemma stand_now:
  assumes i: "i \<in> set (members c)" and th: "TBecomeCandidate \<in> set (threads (nodes c i))"
  shows "\<exists>c'. stood i c c'"
proof -
  let ?P = "\<lambda>t out. candidate_at (currentTerm (nodes c i) + 1) (nodes c i) t \<and> TRequestVotes \<in> set (threads t) \<and> out = []"
  obtain t out n where t: "?P t out" "election_step c (put_node i t (c\<lparr>calls := calls c @ out, elections := n\<rparr>))"
  proof (rule thread_steps [OF i th, of ?P])
    fix ts
    show "\<exists>t out. run_thread 150 TBecomeCandidate (nodes c i\<lparr>threads := ts\<rparr>) = Some (t, out) \<and> rlog t = rlog (nodes c i) \<and> ?P t out"
      by (simp add: become_candidate_def Let_def candidate_at_def core_eq_iff)
  qed auto
  then have "stood i c (put_node i t (c\<lparr>calls := calls c @ out, elections := n\<rparr>))" by (auto simp: stood_def)
  then show ?thesis ..
qed

text \<open>Whichever of its timer threads is on its way, a node that does not lead ends up as a candidate.\<close>

lemma stand_timer:
  assumes i: "i \<in> set (members c)" and th: "TTimer (timerCounter (nodes c i)) d m \<in> set (threads (nodes c i))"
    and run: "\<not> dead (nodes c i)" "currentRole (nodes c i) \<noteq> Leader"
  shows "\<exists>c'. stood i c c'"
proof -
  obtain d where d: "only_timer i c d" "TBecomeCandidate \<in> set (threads (nodes d i))"
  proof (rule timer_step [OF i th, of "\<lambda>t. TBecomeCandidate \<in> set (threads t)"])
    fix ts
    show "\<exists>t. run_thread 150 (TTimer (timerCounter (nodes c i)) d m) (nodes c i\<lparr>threads := ts\<rparr>) = Some (t, []) \<and>
        timer_change (nodes c i) t \<and> TBecomeCandidate \<in> set (threads t)"
      using run by (cases "currentRole (nodes c i)") (simp_all add: start_timer_def timer_change_def)
  qed auto
  have "i \<in> set (members d)" using i d(1) by (auto simp: only_timer_def election_step_def exec_members)
  from stand_now [OF this d(2)] stood_later [OF d(1)] show ?thesis by blast
qed

text \<open>A thread that restarts the timer does so.\<close>

lemma restart_timer:
  assumes i: "i \<in> set (members c)" and th: "th \<in> set (threads (nodes c i))" "th = TStartElectionTimer \<or> th = TStartHeartbeatTimer"
  obtains d where "only_timer i c d" "i \<in> set (members d)"
    "\<exists>x m. TTimer (timerCounter (nodes d i)) x m \<in> set (threads (nodes d i))"
proof -
  obtain d where d: "only_timer i c d" "\<exists>x m. TTimer (timerCounter (nodes d i)) x m \<in> set (threads (nodes d i))"
  proof (rule timer_step [OF i th(1), of "\<lambda>t. \<exists>x m. TTimer (timerCounter t) x m \<in> set (threads t)"])
    fix ts
    show "\<exists>t. run_thread 150 th (nodes c i\<lparr>threads := ts\<rparr>) = Some (t, []) \<and>
        timer_change (nodes c i) t \<and> (\<exists>x m. TTimer (timerCounter t) x m \<in> set (threads t))"
      using th(2) by (auto simp: start_election_timer_def start_heartbeat_timer_def Let_def timer_change_def) blast+
  qed (use th(2) in auto)
  have "i \<in> set (members d)" using i d(1) by (auto simp: only_timer_def election_step_def exec_members)
  with d show thesis by (intro that)
qed

lemma stand_restart:
  assumes i: "i \<in> set (members c)" and th: "th \<in> set (threads (nodes c i))" "th = TStartElectionTimer \<or> th = TStartHeartbeatTimer"
    and run: "\<not> dead (nodes c i)" "currentRole (nodes c i) \<noteq> Leader"
  shows "\<exists>c'. stood i c c'"
proof -
  obtain d where d: "only_timer i c d" "i \<in> set (members d)"
    "\<exists>x m. TTimer (timerCounter (nodes d i)) x m \<in> set (threads (nodes d i))"
    by (rule restart_timer [OF i th])
  have "\<not> dead (nodes d i)" "currentRole (nodes d i) \<noteq> Leader"
    using run d(1) by (simp_all add: only_timer_def timer_change_def core_eq_iff)
  with d(2,3) show ?thesis using stand_timer stood_later [OF d(1)] by blast
qed

lemma stand_send:
  assumes i: "i \<in> set (members c)" and th: "TSendEntries \<in> set (threads (nodes c i))"
    and run: "\<not> dead (nodes c i)" "currentRole (nodes c i) \<noteq> Leader"
  shows "\<exists>c'. stood i c c'"
proof -
  obtain d where d: "only_timer i c d" "TStartHeartbeatTimer \<in> set (threads (nodes d i))"
  proof (rule timer_step [OF i th, of "\<lambda>t. TStartHeartbeatTimer \<in> set (threads t)"])
    fix ts
    show "\<exists>t. run_thread 150 TSendEntries (nodes c i\<lparr>threads := ts\<rparr>) = Some (t, []) \<and>
        timer_change (nodes c i) t \<and> TStartHeartbeatTimer \<in> set (threads t)"
      by (simp add: send_entries_def spawn_all_eq timer_change_def)
  qed auto
  have "i \<in> set (members d)" using i d(1) by (auto simp: only_timer_def election_step_def exec_members)
  moreover have "\<not> dead (nodes d i)" "currentRole (nodes d i) \<noteq> Leader"
    using run d(1) by (simp_all add: only_timer_def timer_change_def core_eq_iff)
  ultimately show ?thesis using d(2) stand_restart stood_later [OF d(1)] by blast
qed

lemma can_stand:
  assumes r: "reachable cfgs c" and i: "i \<in> set (members c)"
    and run: "active (nodes c i)" "\<not> dead (nodes c i)" "currentRole (nodes c i) \<noteq> Leader"
  shows "\<exists>c'. stood i c c'"
proof -
  have "never_idle (nodes c i)" using timers.always [OF r] by blast
  then obtain th where th: "th \<in> set (threads (nodes c i))" "ticks (timerCounter (nodes c i)) th"
    using run by (auto simp: never_idle_def on_its_way_def active_threads_def)
  show ?thesis
  proof (cases th)
    case (TTimer n x m)
    then show ?thesis using th run i by (auto intro: stand_timer)
  qed (use th run i in \<open>auto intro: stand_now stand_restart stand_send\<close>)
qed

text \<open>Standing again and again takes a node's term above any bound.\<close>

lemma can_outbid:
  assumes "reachable cfgs c" "i \<in> set (members c)"
    and "active (nodes c i)" "\<not> dead (nodes c i)" "currentRole (nodes c i) \<noteq> Leader"
  shows "\<exists>c' T. elects c c' \<and> B < T \<and> candidate_at T (nodes c i) (nodes c' i) \<and>
    TRequestVotes \<in> set (threads (nodes c' i)) \<and> (\<forall>j. j \<noteq> i \<longrightarrow> nodes c' j = nodes c j)"
  using assms
proof (induction "nat (B - currentTerm (nodes c i))" arbitrary: c rule: less_induct)
  case less
  obtain d where d: "stood i c d" using can_stand [OF less.prems] by blast
  then have e: "elects c d" "\<And>j. j \<noteq> i \<Longrightarrow> nodes d j = nodes c j"
    and cand: "candidate_at (currentTerm (nodes c i) + 1) (nodes c i) (nodes d i)"
    and rv: "TRequestVotes \<in> set (threads (nodes d i))" by (simp_all add: stood_def)
  show ?case
  proof (cases "B < currentTerm (nodes c i) + 1")
    case True
    with e cand rv show ?thesis by blast
  next
    case False
    have di: "active (nodes d i)" "\<not> dead (nodes d i)" "currentRole (nodes d i) \<noteq> Leader"
      "currentTerm (nodes d i) = currentTerm (nodes c i) + 1"
      using cand less.prems(3,4) by (simp_all add: candidate_at_def core_eq_iff)
    have "nat (B - currentTerm (nodes d i)) < nat (B - currentTerm (nodes c i))" using False di(4) by simp
    moreover have "i \<in> set (members d)" using elects_logs [OF e(1)] less.prems(2) by simp
    ultimately obtain c' T where c': "elects d c'" "B < T" "candidate_at T (nodes d i) (nodes c' i)"
      "TRequestVotes \<in> set (threads (nodes c' i))" "\<And>j. j \<noteq> i \<Longrightarrow> nodes c' j = nodes d j"
      using less.hyps elects_reachable [OF e(1) less.prems(1)] di by blast
    have "candidate_at T (nodes c i) (nodes c' i)"
      using c'(3) cand by (simp add: candidate_at_def core_eq_iff)
    with c' e show ?thesis by (metis rtranclp_trans)
  qed
qed

section \<open>Collecting votes\<close>

lemma frame_vote_reply [simp]:
  "server_running (fst (reply_vote r s)) = server_running s" "dead (fst (reply_vote r s)) = dead s"
  by (auto simp: reply_vote_def step_down_def Let_def)

text \<open>What the votes of others need to know of a candidate of term \<open>T\<close>, with \<open>V\<close> its votes so far.\<close>

definition collecting :: "u64_t \<Rightarrow> i64_t \<Rightarrow> i64_t set \<Rightarrow> cluster \<Rightarrow> bool" where
  "collecting i T V c \<longleftrightarrow>
     i \<in> set (members c) \<and> rid (nodes c i) = i \<and> i64 i = i \<and> currentRole (nodes c i) = Candidate \<and>
     currentTerm (nodes c i) = T \<and> votes (nodes c i) = V"

definition voter_ready :: "i64_t \<Rightarrow> entry list \<Rightarrow> cluster \<Rightarrow> u64_t \<Rightarrow> bool" where
  "voter_ready T l c j \<longleftrightarrow>
     j \<in> set (members c) \<and> i64 j = j \<and> active (nodes c j) \<and> server_running (nodes c j) \<and>
     currentTerm (nodes c j) < T \<and> at_least_as_up_to_date l (rlog (nodes c j))"

text \<open>The thread that asks \<open>j\<close> for its vote sends the request, which waits in the network.\<close>

lemma ask_vote:
  assumes i: "collecting i T V c" and th: "TVoteSend j T \<in> set (threads (nodes c i))"
  obtains s n where "core s = core (nodes c i)" "\<And>x. x \<in> set (threads (nodes c i)) \<Longrightarrow> x \<noteq> TVoteSend j T \<Longrightarrow> x \<in> set (threads s)"
    "timerCounter s = timerCounter (nodes c i)"
    "election_step c (put_node i s (c\<lparr>calls := calls c @ [VoteReq i j (build_vote_request (nodes c i)) T], elections := n\<rparr>))"
proof -
  let ?P = "\<lambda>t out. core t = core (nodes c i) \<and> timerCounter t = timerCounter (nodes c i) \<and>
    (\<forall>x \<in> set (threads (nodes c i)). x \<noteq> TVoteSend j T \<longrightarrow> x \<in> set (threads t)) \<and>
    out = [VoteReq i j (build_vote_request (nodes c i)) T]"
  have m: "i \<in> set (members c)" "rid (nodes c i) = i" using i by (simp_all add: collecting_def)
  obtain t out n where "?P t out" "election_step c (put_node i t (c\<lparr>calls := calls c @ out, elections := n\<rparr>))"
  proof (rule thread_steps [OF m(1) th, of ?P])
    fix ts
    assume "\<And>x. x \<in> set (threads (nodes c i)) \<Longrightarrow> x = TVoteSend j T \<or> x \<in> set ts"
    then show "\<exists>t out. run_thread 150 (TVoteSend j T) (nodes c i\<lparr>threads := ts\<rparr>) = Some (t, out) \<and>
        rlog t = rlog (nodes c i) \<and> ?P t out"
      using m(2) by (auto simp: build_vote_request_def)
  qed auto
  with that show thesis by blast
qed

text \<open>The server of \<open>j\<close> answers the last request.\<close>

lemma answer_vote:
  assumes "calls c = cs @ [VoteReq i j req T]" "j \<in> set (members c)" "server_running (nodes c j)"
  shows "election_step c (put_node j (fst (reply_vote req (nodes c j)))
    (c\<lparr>calls := cs @ [VoteRep i j (snd (reply_vote req (nodes c j))) T]\<rparr>))"
proof -
  have "exec (EvDeliver (length cs)) c = Some (put_node j (fst (reply_vote req (nodes c j)))
      (c\<lparr>calls := cs @ [VoteRep i j (snd (reply_vote req (nodes c j))) T]\<rparr>))"
    using assms by (simp add: deliver_op_def service_RequestVote_def split: prod.split)
  then show ?thesis by (rule election_stepI) simp_all
qed

text \<open>The candidate takes the last reply.\<close>

lemma rlog_vote_reply [simp]: "rlog (handle_vote_reply target et reply s) = rlog s"
  by (simp add: handle_vote_reply_def Let_def)

lemma take_vote:
  assumes "calls c = cs @ [VoteRep i j rep T]" "i \<in> set (members c)"
  shows "election_step c (put_node i (handle_vote_reply j T rep (nodes c i)) (c\<lparr>calls := cs\<rparr>))"
proof -
  have "exec (EvReturn (length cs)) c = Some (put_node i (handle_vote_reply j T rep (nodes c i)) (c\<lparr>calls := cs\<rparr>))"
    using assms by (simp add: return_op_def remove_nth_def)
  then show ?thesis by (rule election_stepI) simp_all
qed

text \<open>What a schedule of votes leaves alone.\<close>

definition calm :: "i64_t \<Rightarrow> cluster \<Rightarrow> cluster \<Rightarrow> bool" where
  "calm T c c' \<longleftrightarrow>
     elects c c' \<and>
     (\<forall>j. active (nodes c' j) = active (nodes c j) \<and> dead (nodes c' j) = dead (nodes c j) \<and>
       server_running (nodes c' j) = server_running (nodes c j) \<and> peers (nodes c' j) = peers (nodes c j) \<and>
       currentTerm (nodes c' j) \<le> max T (currentTerm (nodes c j)))"

lemma calm_trans:
  assumes "calm T c d" "calm T d e"
  shows "calm T c e"
proof -
  have "elects c e" using assms by (auto simp: calm_def intro: rtranclp_trans)
  moreover have "currentTerm (nodes e j) \<le> max T (currentTerm (nodes c j))" for j
  proof -
    have "currentTerm (nodes e j) \<le> max T (currentTerm (nodes d j))" "currentTerm (nodes d j) \<le> max T (currentTerm (nodes c j))"
      using assms by (simp_all add: calm_def)
    then show ?thesis by linarith
  qed
  ultimately show ?thesis using assms by (simp add: calm_def)
qed

text \<open>One vote: asked for, granted and counted.\<close>

lemma vote_once:
  assumes i: "collecting i T V c" and th: "TVoteSend j T \<in> set (threads (nodes c i))"
    and j: "voter_ready T (rlog (nodes c i)) c j" "j \<noteq> i"
  obtains c' where "calm T c c'" "\<And>k. k \<noteq> i \<Longrightarrow> k \<noteq> j \<Longrightarrow> nodes c' k = nodes c k"
    "if card (insert j V) > length (peers (nodes c i)) div 2
     then currentRole (nodes c' i) = Leader \<and> currentTerm (nodes c' i) = T
     else collecting i T (insert j V) c' \<and>
       (\<forall>x \<in> set (threads (nodes c i)). x \<noteq> TVoteSend j T \<longrightarrow> x \<in> set (threads (nodes c' i)))"
proof -
  let ?req = "build_vote_request (nodes c i)"
  let ?sj = "fst (reply_vote ?req (nodes c j))" and ?rep = "snd (reply_vote ?req (nodes c j))"
  obtain s n where s: "core s = core (nodes c i)"
      "\<And>x. x \<in> set (threads (nodes c i)) \<Longrightarrow> x \<noteq> TVoteSend j T \<Longrightarrow> x \<in> set (threads s)"
    and e1: "election_step c (put_node i s (c\<lparr>calls := calls c @ [VoteReq i j ?req T], elections := n\<rparr>))"
    using ask_vote [OF i th] by metis
  define c1 where "c1 = put_node i s (c\<lparr>calls := calls c @ [VoteReq i j ?req T], elections := n\<rparr>)"
  have c1: "nodes c1 = (nodes c)(i := s)" "calls c1 = calls c @ [VoteReq i j ?req T]" "members c1 = members c"
    by (simp_all add: c1_def)
  define c2 where "c2 = put_node j ?sj (c1\<lparr>calls := calls c @ [VoteRep i j ?rep T]\<rparr>)"
  have jm: "j \<in> set (members c)" "active (nodes c j)" "server_running (nodes c j)" "currentTerm (nodes c j) < T" "i64 j = j"
    "at_least_as_up_to_date (rlog (nodes c i)) (rlog (nodes c j))" using j(1) by (simp_all add: voter_ready_def)
  have e2: "election_step c1 c2"
    using answer_vote [OF c1(2), folded c2_def] c1(1,3) jm(1,3) j(2) by (simp add: c2_def)
  have c2: "nodes c2 = (nodes c)(i := s, j := ?sj)" "calls c2 = calls c @ [VoteRep i j ?rep T]" "members c2 = members c"
    by (simp_all add: c2_def c1 j(2))
  define c3 where "c3 = put_node i (handle_vote_reply j T ?rep s) (c2\<lparr>calls := calls c\<rparr>)"
  have im: "i \<in> set (members c)" "currentRole (nodes c i) = Candidate" "currentTerm (nodes c i) = T" "votes (nodes c i) = V"
    "rid (nodes c i) = i" "i64 i = i" using i by (simp_all add: collecting_def)
  have e3: "election_step c2 c3"
    using take_vote [OF c2(2)] im(1) c2(1,3) j(2) by (simp add: c3_def)
  have req: "rv_term ?req = T" by (simp add: build_vote_request_def im(3))
  have grant: "grants_vote ?req (nodes c j)"
    using jm by (simp add: grants_vote_def build_vote_request_def im(3) at_least_as_up_to_date_def)
  note sj = reply_vote_granted_state [OF grant, unfolded req] and g = grant [folded reply_vote_granted_iff]
  have same: "currentRole s = Candidate" "currentTerm s = T" "votes s = V" "peers s = peers (nodes c i)"
    "active s = active (nodes c i)" "dead s = dead (nodes c i)" "server_running s = server_running (nodes c i)"
    "rid s = i"
    using s(1) im by (simp_all add: core_eq_iff)
  have counted: "handle_vote_reply j T ?rep s =
      (if card (insert j V) > length (peers (nodes c i)) div 2 then become_leader (s\<lparr>votes := insert j V\<rparr>)
       else s\<lparr>votes := insert j V\<rparr>)"
    using handle_vote_reply_counted [of T ?rep s j] g same jm(5) by (simp add: counts_vote_def)
  have c3: "nodes c3 = (nodes c)(j := ?sj, i := handle_vote_reply j T ?rep s)" "members c3 = members c"
    using j(2) by (auto simp: c3_def c2 fun_eq_iff)
  have "elects c c3" using e1 [folded c1_def] e2 e3 by (meson converse_rtranclp_into_rtranclp rtranclp.rtrancl_refl)
  then have calm: "calm T c c3"
    using sj(1) same im jm(4) by (auto simp: calm_def c3(1) counted become_leader_eq)
  show thesis
  proof (rule that [OF calm])
    show "nodes c3 k = nodes c k" if "k \<noteq> i" "k \<noteq> j" for k using that by (simp add: c3(1))
    show "if card (insert j V) > length (peers (nodes c i)) div 2
       then currentRole (nodes c3 i) = Leader \<and> currentTerm (nodes c3 i) = T
       else collecting i T (insert j V) c3 \<and>
         (\<forall>x \<in> set (threads (nodes c i)). x \<noteq> TVoteSend j T \<longrightarrow> x \<in> set (threads (nodes c3 i)))"
      using same im s(2) by (simp add: c3 counted collecting_def)
  qed
qed

lemma can_win:
  assumes "collecting i T V c" "ws \<noteq> []" "i \<notin> set ws" "distinct ws"
    and "\<forall>j \<in> set ws. voter_ready T (rlog (nodes c i)) c j \<and> TVoteSend j T \<in> set (threads (nodes c i))"
    and "card (V \<union> set ws) > length (peers (nodes c i)) div 2"
  shows "\<exists>c'. calm T c c' \<and> currentRole (nodes c' i) = Leader \<and> currentTerm (nodes c' i) = T"
  using assms
proof (induction ws arbitrary: c V)
  case (Cons j ws)
  have j: "TVoteSend j T \<in> set (threads (nodes c i))" "voter_ready T (rlog (nodes c i)) c j" "j \<noteq> i"
    using Cons.prems(3,5) by auto
  obtain d where d: "calm T c d" "\<And>k. k \<noteq> i \<Longrightarrow> k \<noteq> j \<Longrightarrow> nodes d k = nodes c k"
    "if card (insert j V) > length (peers (nodes c i)) div 2
     then currentRole (nodes d i) = Leader \<and> currentTerm (nodes d i) = T
     else collecting i T (insert j V) d \<and>
       (\<forall>x \<in> set (threads (nodes c i)). x \<noteq> TVoteSend j T \<longrightarrow> x \<in> set (threads (nodes d i)))"
    using vote_once [OF Cons.prems(1) j] by metis
  show ?case
  proof (cases "card (insert j V) > length (peers (nodes c i)) div 2")
    case True
    with d show ?thesis by auto
  next
    case False
    have ws: "ws \<noteq> []" using False Cons.prems(6) by auto
    have same: "rlog (nodes d i) = rlog (nodes c i)" "peers (nodes d i) = peers (nodes c i)" "members d = members c"
      using d(1) elects_logs by (auto simp: calm_def)
    have "voter_ready T (rlog (nodes d i)) d k \<and> TVoteSend k T \<in> set (threads (nodes d i))" if k: "k \<in> set ws" for k
    proof -
      have "k \<noteq> i" "k \<noteq> j" using k Cons.prems(3,4) by auto
      with k show ?thesis using Cons.prems(5) d(2) [of k] d(3) False same by (auto simp: voter_ready_def)
    qed
    then have "\<forall>k \<in> set ws. voter_ready T (rlog (nodes d i)) d k \<and> TVoteSend k T \<in> set (threads (nodes d i))" by blast
    moreover have "card (insert j V \<union> set ws) > length (peers (nodes d i)) div 2"
      using Cons.prems(6) same by simp
    ultimately obtain c' where "calm T d c'" "currentRole (nodes c' i) = Leader" "currentTerm (nodes c' i) = T"
      using Cons.IH [of "insert j V" d] ws Cons.prems(3,4) d(3) False by auto
    with calm_trans [OF d(1)] show ?thesis by blast
  qed
qed simp

section \<open>The peers of a running node\<close>

definition connected_ok :: "raft \<Rightarrow> bool" where
  "connected_ok s \<longleftrightarrow>
     set (peers s) \<subseteq> fst ` set (peer_addrs s) \<and> (active s \<longrightarrow> set (peers s) = fst ` set (peer_addrs s))"

definition links_law :: "raft \<Rightarrow> raft \<Rightarrow> bool" where
  "links_law s t \<longleftrightarrow> peer_addrs t = peer_addrs s \<and> (connected_ok s \<longrightarrow> connected_ok t)"

lemma same_links: "peers t = peers s \<Longrightarrow> peer_addrs t = peer_addrs s \<Longrightarrow> active t = active s \<Longrightarrow> links_law s t"
  by (simp add: links_law_def connected_ok_def)

lemma election_links: "election_law s t \<Longrightarrow> links_law s t"
  by (rule same_links) (simp_all add: election_law_def)

lemma run_links: "links_law s (run d (connect_peers s))"
  unfolding links_law_def connected_ok_def by (simp add: connect_peers_set) blast

lemma links_law_trans: "links_law s t \<Longrightarrow> links_law t u \<Longrightarrow> links_law s u"
  by (simp add: links_law_def)

lemma vote_reply_links: "links_law s (handle_vote_reply target et rep s)"
  by (rule same_links) (simp_all add: handle_vote_reply_frame)

interpretation links: step_law links_law
proof
  fix s :: raft and d t s' out
  assume "run_thread d t s = Some (s', out)"
  then show "links_law s s'" by (intro election_links run_thread_law)
qed ((rule links_law_trans; assumption) | rule run_links vote_reply_links | (rule election_links, rule reply_vote_law)
  | (rule election_links, erule append_entries_law) | (rule election_links, erule handle_append_reply_law)
  | (rule election_links, rule same_election_law, rule quiet_ops propose_sync_quiet) | (rule same_links; simp))+

lemma running_peers:
  assumes r: "reachable cfgs c" and i: "i \<in> set (members c)" "active (nodes c i)" and n: "1 < length cfgs"
  shows "set (peers (nodes c i)) = set (members c) - {i}" "length (peers (nodes c i)) = length cfgs - 1"
proof -
  have ok: "node_ok (set (members c)) (granted c) i (nodes c i)"
    by (rule election_inv_node(3) [OF election.always [OF r] i(1)])
  have new: "connected_ok (Raft_new cfg garbage)" for cfg garbage by (simp add: connected_ok_def Raft_new_def)
  have keep: "connected_ok s \<Longrightarrow> links_law s t \<Longrightarrow> connected_ok t" for s t by (simp add: links_law_def)
  have "connected_ok (nodes c i)" by (rule links.reachable_law [of cfgs c connected_ok i, OF r new keep])
  then show peers: "set (peers (nodes c i)) = set (members c) - {i}"
    using ok i(2) by (simp add: connected_ok_def node_ok_def)
  have card: "card (set (members c)) = length cfgs" by (rule card_members [OF r reachable_wf [OF r]])
  have c1: "card (set (members c) - {i}) = length cfgs - 1" using i(1) card by simp
  have "peers (nodes c i) \<noteq> []"
  proof
    assume "peers (nodes c i) = []"
    then have "set (members c) - {i} = {}" using peers by simp
    then have "length cfgs - 1 = 0" using c1 by (metis card.empty)
    with n show False by simp
  qed
  then have "distinct (peers (nodes c i))" using ok by (simp add: node_ok_def)
  then show "length (peers (nodes c i)) = length cfgs - 1" using c1 peers distinct_card by metis
qed

section \<open>A majority can elect a leader\<close>

definition running :: "u64_t set \<Rightarrow> cluster \<Rightarrow> bool" where
  "running Q c \<longleftrightarrow>
     Q \<subseteq> set (members c) \<and> (\<forall>j \<in> Q. active (nodes c j) \<and> server_running (nodes c j) \<and> \<not> dead (nodes c j))"

lemma calm_running: "calm T c c' \<Longrightarrow> running Q c \<Longrightarrow> running Q c'"
  unfolding running_def calm_def using elects_logs by fastforce

lemma candidate_calm:
  "elects c c' \<Longrightarrow> candidate_at T (nodes c i) (nodes c' i) \<Longrightarrow> (\<And>j. j \<noteq> i \<Longrightarrow> nodes c' j = nodes c j) \<Longrightarrow> calm T c c'"
  by (simp add: calm_def candidate_at_def core_eq_iff) (metis max.cobounded1 max.cobounded2)

text \<open>A candidate starts to ask its peers for votes.\<close>

lemma ask_all:
  assumes i: "i \<in> set (members c)" and th: "TRequestVotes \<in> set (threads (nodes c i))"
  obtains c' where "elects c c'" "core (nodes c' i) = core (nodes c i)" "\<And>j. j \<noteq> i \<Longrightarrow> nodes c' j = nodes c j"
    "\<forall>j \<in> set (peers (nodes c i)). TVoteSend j (currentTerm (nodes c i)) \<in> set (threads (nodes c' i))"
proof -
  let ?P = "\<lambda>t out. core t = core (nodes c i) \<and> out = [] \<and>
    (\<forall>j \<in> set (peers (nodes c i)). TVoteSend j (currentTerm (nodes c i)) \<in> set (threads t))"
  obtain t out n where t: "?P t out" "election_step c (put_node i t (c\<lparr>calls := calls c @ out, elections := n\<rparr>))"
  proof (rule thread_steps [OF i th, of ?P])
    fix ts
    show "\<exists>t out. run_thread 150 TRequestVotes (nodes c i\<lparr>threads := ts\<rparr>) = Some (t, out) \<and> rlog t = rlog (nodes c i) \<and> ?P t out"
      by (simp add: request_votes_def spawn_all_eq)
  qed auto
  show thesis by (rule that [OF r_into_rtranclp [of election_step, OF t(2)]]) (use t(1) in auto)
qed

text \<open>A node that does not lead, and whose log is up to date for the majority, can be elected above all of its terms.\<close>

lemma can_be_elected:
  assumes r: "reachable cfgs c" and Q: "running Q c" "length cfgs < 2 * card Q" "1 < length cfgs"
    and i: "i \<in> Q" "currentRole (nodes c i) \<noteq> Leader"
    and log: "\<forall>j \<in> Q. at_least_as_up_to_date (rlog (nodes c i)) (rlog (nodes c j))"
  shows "\<exists>c' T. calm T c c' \<and> currentRole (nodes c' i) = Leader \<and> currentTerm (nodes c' i) = T \<and>
    (\<forall>j \<in> Q. currentTerm (nodes c j) < T)"
proof -
  have m: "Q \<subseteq> set (members c)" "i \<in> set (members c)" "active (nodes c i)" "\<not> dead (nodes c i)"
    using Q(1) i(1) by (auto simp: running_def)
  have fin: "finite Q" using m(1) finite_subset by blast
  define B where "B = Max ((\<lambda>j. currentTerm (nodes c j)) ` Q)"
  have B: "currentTerm (nodes c j) \<le> B" if "j \<in> Q" for j using that fin by (simp add: B_def)
  obtain d T where d: "elects c d" "B < T" "candidate_at T (nodes c i) (nodes d i)"
    "TRequestVotes \<in> set (threads (nodes d i))" "\<And>j. j \<noteq> i \<Longrightarrow> nodes d j = nodes c j"
    using can_outbid [OF r m(2-4) i(2)] by metis
  have dm: "members d = members c" using elects_logs [OF d(1)] by blast
  have di: "currentRole (nodes d i) = Candidate" "currentTerm (nodes d i) = T" "votes (nodes d i) = {i64 (rid (nodes c i))}"
    "rid (nodes d i) = rid (nodes c i)" "peers (nodes d i) = peers (nodes c i)" "rlog (nodes d i) = rlog (nodes c i)"
    using d(3) by (simp_all add: candidate_at_def core_eq_iff)
  obtain e where e: "elects d e" "core (nodes e i) = core (nodes d i)" "\<And>j. j \<noteq> i \<Longrightarrow> nodes e j = nodes d j"
    "\<forall>j \<in> set (peers (nodes d i)). TVoteSend j (currentTerm (nodes d i)) \<in> set (threads (nodes e i))"
    using ask_all [OF _ d(4)] m(2) dm by metis
  have em: "members e = members c" using elects_logs [OF e(1)] dm by simp
  note inv = election_inv_node [OF election.always [OF r]]
  have ids: "i64 j = j" if "j \<in> set (members c)" for j using inv(1,2) [OF that] by (rule id_i64)
  have rid: "rid (nodes c i) = i" using inv(3) [OF m(2)] by (simp add: node_ok_def)
  note peers = running_peers [OF r m(2,3) Q(3)]
  have ei: "currentRole (nodes e i) = Candidate" "currentTerm (nodes e i) = T" "votes (nodes e i) = {i}" "rid (nodes e i) = i"
    "peers (nodes e i) = peers (nodes c i)" "rlog (nodes e i) = rlog (nodes c i)"
    using e(2) di rid ids [OF m(2)] by (simp_all add: core_eq_iff)
  have "calm T c e"
  proof (rule candidate_calm)
    show "elects c e" using d(1) e(1) by (rule rtranclp_trans)
    show "candidate_at T (nodes c i) (nodes e i)" using d(3) e(2) by (simp add: candidate_at_def)
  qed (simp add: d(5) e(3))
  moreover obtain ws where ws: "set ws = Q - {i}" "distinct ws" using finite_distinct_list [of "Q - {i}"] fin by blast
  have "\<exists>c'. calm T e c' \<and> currentRole (nodes c' i) = Leader \<and> currentTerm (nodes c' i) = T"
  proof (rule can_win)
    show "collecting i T {i} e" using ei m(2) em ids by (simp add: collecting_def)
    have "card (Q - {i}) > 0" using Q(2,3) i(1) fin by simp
    then show "ws \<noteq> []" using ws(1) by (metis card.empty less_numeral_extra(3) set_empty)
    show "i \<notin> set ws" "distinct ws" using ws by simp_all
    show "\<forall>j \<in> set ws. voter_ready T (rlog (nodes e i)) e j \<and> TVoteSend j T \<in> set (threads (nodes e i))"
    proof
      fix j
      assume "j \<in> set ws"
      then have j: "j \<in> Q" "j \<noteq> i" "j \<in> set (members c)" using ws(1) m(1) by auto
      then have "nodes e j = nodes c j" using d(5) e(3) by simp
      moreover have "j \<in> set (peers (nodes d i))" using j peers(1) di(5) by simp
      moreover have "currentTerm (nodes c j) < T" using B [OF j(1)] d(2) by simp
      ultimately show "voter_ready T (rlog (nodes e i)) e j \<and> TVoteSend j T \<in> set (threads (nodes e i))"
        using j Q(1) log e(4) di(2) ei(6) em ids by (simp add: voter_ready_def running_def)
    qed
    have "{i} \<union> set ws = Q" using ws(1) i(1) by auto
    then show "length (peers (nodes e i)) div 2 < card ({i} \<union> set ws)" using Q(2) peers(2) ei(5) by simp
  qed
  ultimately obtain c' where "calm T c c'" "currentRole (nodes c' i) = Leader" "currentTerm (nodes c' i) = T"
    using calm_trans by blast
  moreover have "\<forall>j \<in> Q. currentTerm (nodes c j) < T" using B d(2) by fastforce
  ultimately show ?thesis by blast
qed

text \<open>A vote request of a later term ends a leadership, whether the vote is granted or not.\<close>

lemma later_request_deposes: "active s \<Longrightarrow> currentTerm s < rv_term r \<Longrightarrow> currentRole (fst (reply_vote r s)) = Follower"
  by (simp add: reply_vote_def Let_def)

lemma can_depose:
  assumes r: "reachable cfgs c" and Q: "running Q c" "1 < length cfgs" and i: "i \<in> Q" and j: "j \<in> Q" "j \<noteq> i"
    "currentRole (nodes c j) \<noteq> Leader"
  shows "\<exists>c'. elects c c' \<and> running Q c' \<and> currentRole (nodes c' i) \<noteq> Leader"
proof -
  have m: "j \<in> set (members c)" "active (nodes c j)" "\<not> dead (nodes c j)" "i \<in> set (members c)"
    "active (nodes c i)" "server_running (nodes c i)"
    using Q(1) i j by (auto simp: running_def)
  obtain d T where d: "elects c d" "currentTerm (nodes c i) < T" "candidate_at T (nodes c j) (nodes d j)"
    "TRequestVotes \<in> set (threads (nodes d j))" "\<And>k. k \<noteq> j \<Longrightarrow> nodes d k = nodes c k"
    using can_outbid [OF r m(1-3) j(3)] by metis
  have dm: "members d = members c" using elects_logs [OF d(1)] by blast
  have dj: "currentRole (nodes d j) = Candidate" "currentTerm (nodes d j) = T" "votes (nodes d j) = {i64 (rid (nodes c j))}"
    "rid (nodes d j) = rid (nodes c j)" "peers (nodes d j) = peers (nodes c j)"
    using d(3) by (simp_all add: candidate_at_def core_eq_iff)
  obtain e where e: "elects d e" "core (nodes e j) = core (nodes d j)" "\<And>k. k \<noteq> j \<Longrightarrow> nodes e k = nodes d k"
    "\<forall>k \<in> set (peers (nodes d j)). TVoteSend k (currentTerm (nodes d j)) \<in> set (threads (nodes e j))"
    using ask_all [OF _ d(4)] m(1) dm by metis
  have em: "members e = members c" using elects_logs [OF e(1)] dm by simp
  note inv = election_inv_node [OF election.always [OF r] m(1)]
  have "collecting j T {i64 (rid (nodes c j))} e"
    using e(2) dj inv m(1) em by (simp add: collecting_def core_eq_iff node_ok_def id_i64)
  moreover have "TVoteSend i T \<in> set (threads (nodes e j))"
    using e(4) dj(2,5) running_peers(1) [OF r m(1,2) Q(2)] m(4) j(2) by simp
  ultimately obtain s n where s: "core s = core (nodes e j)"
    and e1: "election_step e (put_node j s (e\<lparr>calls := calls e @ [VoteReq j i (build_vote_request (nodes e j)) T], elections := n\<rparr>))"
    by (rule ask_vote)
  let ?req = "build_vote_request (nodes e j)"
  define f where "f = put_node j s (e\<lparr>calls := calls e @ [VoteReq j i ?req T], elections := n\<rparr>)"
  define c' where "c' = put_node i (fst (reply_vote ?req (nodes f i))) (f\<lparr>calls := calls e @ [VoteRep j i (snd (reply_vote ?req (nodes f i))) T]\<rparr>)"
  have fi: "nodes f i = nodes c i" using j(2) e(3) d(5) by (simp add: f_def)
  have e2: "election_step f c'"
    unfolding c'_def
  proof (rule answer_vote)
    show "server_running (nodes f i)" using m(6) by (simp add: fi)
  qed (simp_all add: f_def em m(4))
  have "rv_term ?req = T" using e(2) dj(2) by (simp add: build_vote_request_def core_eq_iff)
  then have low: "currentRole (nodes c' i) = Follower"
    using later_request_deposes m(5) d(2) fi by (simp add: c'_def)
  have el: "elects c c'"
    using d(1) e(1) e1 e2 unfolding f_def [symmetric]
    by (meson rtranclp.rtrancl_into_rtrancl rtranclp_trans)
  have "active (nodes c' k) = active (nodes c k) \<and> server_running (nodes c' k) = server_running (nodes c k) \<and>
      dead (nodes c' k) = dead (nodes c k)" for k
  proof -
    have "nodes c' k = (if k = i then fst (reply_vote ?req (nodes c i)) else if k = j then s else nodes c k)"
      using fi e(3) d(5) by (simp add: c'_def f_def)
    then show ?thesis using d(3) e(2) s by (simp add: candidate_at_def core_eq_iff)
  qed
  moreover have "members c' = members c" by (simp add: c'_def f_def em)
  ultimately have "running Q c'" using Q(1) by (simp add: running_def)
  with el low show ?thesis by auto
qed

text \<open>Some node of a majority is up to date for all of it.\<close>

lemma most_up_to_date:
  assumes "finite Q" "Q \<noteq> {}"
  obtains i where "i \<in> Q" "\<forall>j \<in> Q. at_least_as_up_to_date (l i) (l j)"
proof -
  have "\<exists>i \<in> Q. \<forall>j \<in> Q. at_least_as_up_to_date (l i) (l j)"
    using assms
  proof (induction rule: finite_ne_induct)
    case (singleton x)
    then show ?case using up_to_date_total by blast
  next
    case (insert x F)
    then obtain i where i: "i \<in> F" "\<forall>j \<in> F. at_least_as_up_to_date (l i) (l j)" by blast
    show ?case
    proof (cases "at_least_as_up_to_date (l i) (l x)")
      case True
      with i show ?thesis by blast
    next
      case False
      then have "at_least_as_up_to_date (l x) (l i)" using up_to_date_total by blast
      with i have "\<forall>j \<in> insert x F. at_least_as_up_to_date (l x) (l j)"
        using up_to_date_trans up_to_date_total by blast
      then show ?thesis by blast
    qed
  qed
  with that show thesis by blast
qed

lemma can_elect:
  assumes r: "reachable cfgs c" and Q: "running Q c" "length cfgs < 2 * card Q" "1 < length cfgs"
  shows "\<exists>c' i. elects c c' \<and> running Q c' \<and> i \<in> Q \<and> currentRole (nodes c' i) = Leader \<and>
    (\<forall>j \<in> Q. currentTerm (nodes c' j) \<le> currentTerm (nodes c' i))"
proof -
  have elected: "\<exists>c' i. elects d c' \<and> running Q c' \<and> i \<in> Q \<and> currentRole (nodes c' i) = Leader \<and>
      (\<forall>j \<in> Q. currentTerm (nodes c' j) \<le> currentTerm (nodes c' i))"
    if d: "reachable cfgs d" "running Q d" "i \<in> Q" "currentRole (nodes d i) \<noteq> Leader"
      "\<forall>j \<in> Q. at_least_as_up_to_date (rlog (nodes d i)) (rlog (nodes d j))" for d i
  proof -
    obtain c' T where c': "calm T d c'" "currentRole (nodes c' i) = Leader" "currentTerm (nodes c' i) = T"
      "\<forall>j \<in> Q. currentTerm (nodes d j) < T"
      using can_be_elected [OF d(1,2) Q(2,3) d(3-5)] by blast
    have "currentTerm (nodes c' j) \<le> T" if "j \<in> Q" for j
    proof -
      have "currentTerm (nodes c' j) \<le> max T (currentTerm (nodes d j))" using c'(1) unfolding calm_def by blast
      moreover have "currentTerm (nodes d j) < T" using c'(4) that by blast
      ultimately show ?thesis by simp
    qed
    with c' d(3) calm_running [OF c'(1) d(2)] show ?thesis by (auto simp: calm_def)
  qed
  have fin: "finite Q" using Q(1) finite_subset by (auto simp: running_def)
  have ne: "Q \<noteq> {}" using Q(2,3) by auto
  obtain i where i: "i \<in> Q" "\<forall>j \<in> Q. at_least_as_up_to_date (rlog (nodes c i)) (rlog (nodes c j))"
    by (rule most_up_to_date [OF fin ne])
  obtain j where j: "j \<in> Q" "\<forall>k \<in> Q. currentTerm (nodes c k) \<le> currentTerm (nodes c j)"
    using obtains_MAX [OF fin ne, of "\<lambda>k. currentTerm (nodes c k)"] fin by (metis Max_ge finite_imageI imageI)
  consider "currentRole (nodes c j) = Leader" | "currentRole (nodes c i) \<noteq> Leader"
    | "currentRole (nodes c j) \<noteq> Leader" "currentRole (nodes c i) = Leader" by blast
  then show ?thesis
  proof cases
    case 1
    with Q(1) j show ?thesis by blast
  next
    case 2
    with r Q(1) i show ?thesis by (intro elected)
  next
    case 3
    then have "j \<noteq> i" by auto
    then obtain d where d: "elects c d" "running Q d" "currentRole (nodes d i) \<noteq> Leader"
      using can_depose [OF r Q(1,3) i(1) j(1) _ 3(1)] by blast
    have "\<forall>j \<in> Q. at_least_as_up_to_date (rlog (nodes d i)) (rlog (nodes d j))"
      using i(2) elects_logs [OF d(1)] by simp
    from elected [OF elects_reachable [OF d(1) r] d(2) i(1) d(3) this] show ?thesis
      using d(1) rtranclp_trans by metis
  qed
qed

end
