(* ===== verification/FencedProgress.thy ===== *)
theory FencedProgress
  imports FencedSafety
begin

text \<open>
  No fenced execution reaches undefined behaviour: the indices a leader keeps for its peers stay in
  range, so every vector access of a send thread, of \<^verbatim>\<open>append_entries\<close> and of a reply handler is
  inside the log.
\<close>

section \<open>The bookkeeping of a leader\<close>

definition indices_ok :: "raft \<Rightarrow> bool" where
  "indices_ok s \<longleftrightarrow> (\<forall>k \<in> set (peers s). next_ok k s \<and> 0 \<le> match_of k s \<and> match_of k s \<le> log_size s)"

definition append_sends :: "raft \<Rightarrow> u64_t set" where
  "append_sends s = {a. TAppendSend a \<in> set (active_threads s)}"

lemma append_sends_threads: "append_sends s = {a. TAppendSend a \<in> set (threads s)}"
  by (auto simp: append_sends_def active_threads_def)

definition node_ready :: "raft \<Rightarrow> bool" where
  "node_ready s \<longleftrightarrow> (currentRole s = Leader \<longrightarrow> indices_ok s) \<and> append_sends s \<subseteq> set (peers s)"

fun call_ready :: "(u64_t \<Rightarrow> raft) \<Rightarrow> call \<Rightarrow> bool" where
  "call_ready N (AppReq f t r ctx) \<longleftrightarrow> t \<in> set (peers (N f))"
| "call_ready N (AppRep f t rep r ctx) \<longleftrightarrow>
     t \<in> set (peers (N f)) \<and>
     (\<forall>info. aer_conflict_info rep = Some info \<longrightarrow> 1 \<le> conflict_index info \<and> conflict_index info \<le> ae_prev_log_index r)"
| "call_ready N k \<longleftrightarrow> True"

definition ready_with :: "cluster \<Rightarrow> bool" where
  "ready_with c \<longleftrightarrow>
     (\<forall>i \<in> set (members c). node_ready (nodes c i)) \<and> (\<forall>k \<in> set (calls c). call_ready (nodes c) k)"

lemma indices_same:
  "peers t = peers s \<Longrightarrow> nextIndex t = nextIndex s \<Longrightarrow> matchIndex t = matchIndex s \<Longrightarrow> rlog t = rlog s \<Longrightarrow>
   indices_ok t = indices_ok s"
  by (simp add: indices_ok_def next_ok_def log_size_def)

section \<open>Operations\<close>

text \<open>What remains of leadership after an operation that moves neither log nor match index.\<close>

definition keeps_next :: "raft \<Rightarrow> raft \<Rightarrow> bool" where
  "keeps_next s t \<longleftrightarrow> nextIndex t = nextIndex s \<and> append_sends t \<subseteq> append_sends s \<union> set (peers s)"

lemma ready_idle:
  assumes ready: "node_ready s" and role: "role_moves i s t" and store: "same_store s t"
    and keep: "keeps_next s t" and peers: "set (peers s) \<subseteq> set (peers t)"
  shows "node_ready t"
proof -
  have "indices_ok t" if L: "currentRole t = Leader"
  proof -
    have s: "currentRole s = Leader" "peers t = peers s" using role L by (auto simp: role_moves_def)
    have "nextIndex t = nextIndex s" using keep by (simp add: keeps_next_def)
    moreover have "matchIndex t = matchIndex s" "rlog t = rlog s" using store by (simp_all add: same_store_def)
    ultimately have "indices_ok t = indices_ok s" by (intro indices_same s(2))
    with ready s(1) show ?thesis by (simp add: node_ready_def)
  qed
  with ready keep peers show ?thesis by (auto simp: node_ready_def keeps_next_def)
qed

lemma keeps_next_local:
  "keeps_next s (serving s)" "keeps_next s (stop_server s)" "keeps_next s (kill s)"
  "keeps_next s (run d (connect_peers s))"
  by (auto simp: keeps_next_def append_sends_threads serving_def stop_server_def kill_def run_def
      become_follower_def start_election_timer_def connect_peers_def Let_def)

lemma keeps_next_thread: "run_thread d th s = Some (t, out) \<Longrightarrow> keeps_next s t"
  by (cases th) (auto simp: keeps_next_def append_sends_threads start_election_timer_def start_heartbeat_timer_def
      start_timer_def become_candidate_def request_votes_def spawn_all_eq send_entries_def sync_wakeup_def
      sync_finish_def Let_def split: Option.bind_splits if_splits prod.splits)

lemma append_sends_active:
  "active_threads t = active_threads s \<or> active_threads t = active_threads s @ [TStartElectionTimer] \<Longrightarrow>
   append_sends t = append_sends s"
  by (auto simp: append_sends_def)

lemma keeps_next_reply_vote: "keeps_next s (fst (reply_vote r s))"
proof -
  have "nextIndex (fst (reply_vote r s)) = nextIndex s" by (auto simp: reply_vote_def Let_def)
  moreover have "append_sends (fst (reply_vote r s)) = append_sends s"
    by (auto simp: append_sends_def reply_vote_def Let_def)
  ultimately show ?thesis by (simp add: keeps_next_def)
qed

lemma keeps_next_vote_reply:
  "\<not> counts_vote et rep s \<Longrightarrow> keeps_next s (handle_vote_reply target et rep s)"
  by (auto simp: keeps_next_def append_sends_def counts_vote_def handle_vote_reply_def Let_def)

lemma ready_counted:
  assumes ready: "node_ready s" and counted: "counts_vote et rep s"
  shows "node_ready (handle_vote_reply target et rep s)"
proof -
  let ?q = "s\<lparr>votes := insert (i64 target) (votes s)\<rparr>"
  have C: "currentRole s = Candidate" using counted by (simp add: counts_vote_def)
  have "map_get (fold (\<lambda>t m. m(i64 t \<mapsto> v)) ps m) (i64 k) = v" if "k \<in> set ps" for ps k m and v :: int
    using that by (induction ps arbitrary: m rule: rev_induct) auto
  then have "indices_ok (become_leader ?q)"
    by (auto simp: indices_ok_def next_ok_def become_leader_eq log_size_def)
  then have "node_ready (become_leader ?q)"
    using ready by (auto simp: node_ready_def append_sends_def active_threads_def)
  moreover have "node_ready ?q" using ready C by (simp add: node_ready_def append_sends_def)
  ultimately show ?thesis unfolding handle_vote_reply_counted [OF counted] by simp
qed

lemma ready_propose:
  assumes "node_ready s"
  shows "node_ready (fst (propose data s))" "node_ready (fst (propose_sync data s))"
  using assms
  by (auto simp: node_ready_def indices_ok_def next_ok_def append_sends_threads propose_def propose_sync_def
      push_proposal_def sync_finish_def log_size_def Let_def)

lemma ready_append_entries:
  assumes ready: "node_ready s" and ae: "append_entries r s = Some (t, rep)"
  shows "node_ready t"
proof -
  have sends: "append_sends t = append_sends s" by (rule append_sends_active [OF active_threads_append_entries [OF ae]])
  have "peers t = peers s" using append_entries_law [OF ae] by (simp add: election_law_def)
  moreover have "t = s \<or> currentRole t = Follower"
    using ae by (cases rule: append_entries_shape) (auto dest!: apply_entries_same_election simp: same_election_def)
  ultimately show ?thesis using ready sends by (auto simp: node_ready_def)
qed

text \<open>The conflict information a follower reports.\<close>

lemma append_entries_conflict:
  assumes ae: "append_entries r s = Some (t, rep)" and i: "in_i64 (ae_prev_log_index r)"
    and info: "aer_conflict_info rep = Some info"
  shows "1 \<le> conflict_index info \<and> conflict_index info \<le> ae_prev_log_index r"
proof -
  have go: "active s" "currentTerm s \<le> ae_term r"
    using ae info by (auto simp: append_entries_def empty_append_reply_def split: if_splits)
  have "\<not> prev_agrees r (rlog s)"
  proof
    assume "prev_agrees r (rlog s)"
    then have "prev_mismatch r (rlog (accept_leader r s)) = Some False" using prev_mismatch_iff [OF i] by simp
    with ae go info show False
      by (auto simp: append_entries_def Let_def split: if_splits Option.bind_splits)
  qed
  from append_entries_reject [OF go i this] ae info show ?thesis
    by (auto simp: conflict_report_def Let_def)
qed

section \<open>Replies to the leader\<close>

lemma indices_update:
  assumes "indices_ok s" "peers t = peers s" "rlog t = rlog s" "\<And>k. k \<in> set (peers s) \<Longrightarrow> i64 k = i64 a \<longleftrightarrow> k = a"
    and "nextIndex t = (nextIndex s)(i64 a \<mapsto> n)" "1 \<le> n" "n \<le> log_size s + 1"
    and "matchIndex t = matchIndex s \<or> matchIndex t = (matchIndex s)(i64 a \<mapsto> m) \<and> 0 \<le> m \<and> m \<le> log_size s"
  shows "indices_ok t"
  unfolding indices_ok_def next_ok_def assms(2)
proof (intro ballI)
  fix k
  assume k: "k \<in> set (peers s)"
  have old: "1 \<le> next_of k s \<and> next_of k s \<le> log_size s + 1" "0 \<le> match_of k s \<and> match_of k s \<le> log_size s"
    using assms(1) k by (simp_all add: indices_ok_def next_ok_def)
  have "log_size t = log_size s" using assms(3) by (simp add: log_size_def)
  moreover have "next_of k t = (if i64 k = i64 a then n else next_of k s)" by (simp add: assms(5))
  moreover have "match_of k t = match_of k s \<or> match_of k t = m \<and> 0 \<le> m \<and> m \<le> log_size s"
    using assms(8) by (cases "i64 k = i64 a") auto
  ultimately show "(1 \<le> next_of k t \<and> next_of k t \<le> log_size t + 1) \<and> 0 \<le> match_of k t \<and> match_of k t \<le> log_size t"
    using old assms(6,7) by auto
qed

lemma backtrack_ready:
  assumes ok: "indices_ok s" and a: "a \<in> set (peers s)" "\<And>k. k \<in> set (peers s) \<Longrightarrow> i64 k = i64 a \<longleftrightarrow> k = a"
    and nxt: "sc_next_index ctx = next_of a s" "ae_prev_log_index r = sc_next_index ctx - 1"
    and info: "\<And>info. aer_conflict_info rep = Some info \<Longrightarrow> 1 \<le> conflict_index info \<and> conflict_index info \<le> ae_prev_log_index r"
  shows "\<exists>t. backtrack a ctx rep s = Some t \<and> indices_ok t \<and> active_threads t = active_threads s"
proof -
  let ?ni = "next_of a s" and ?mi = "match_of a s"
  have range: "1 \<le> ?ni" "?ni \<le> log_size s + 1" "0 \<le> ?mi" "?mi \<le> log_size s"
    using ok a(1) by (simp_all add: indices_ok_def next_ok_def)
  have upd: "indices_ok (s\<lparr>nextIndex := (nextIndex s)(i64 a \<mapsto> n)\<rparr>)" if "1 \<le> n" "n \<le> log_size s + 1" for n
    by (rule indices_update [OF ok _ _ a(2) _ that]) simp_all
  show ?thesis
  proof (cases "aer_conflict_info rep")
    case None
    then show ?thesis
      using upd [of "?ni - 1"] range ok by (auto simp: backtrack_def Let_def)
  next
    case (Some ci)
    define right where "right = min (sc_log_size ctx - 1) (?ni - 2)"
    have "right < int (length (rlog s))" using range by (simp add: right_def log_size_def)
    then obtain lst where lst: "conflict_bsearch (rlog s) (conflict_term ci) (max 0 ?mi) right (-1) = Some lst"
      "lst = -1 \<or> max 0 ?mi \<le> lst \<and> lst \<le> right"
      using conflict_bsearch_range [of "max 0 ?mi" right "rlog s" "conflict_term ci" "-1"] by auto
    let ?n = "if lst \<noteq> -1 then lst + 2 else conflict_index ci"
    have "1 \<le> ?n" "?n \<le> log_size s + 1"
      using lst(2) info [OF Some] nxt range by (auto simp: right_def)
    moreover have "backtrack a ctx rep s = Some (s\<lparr>nextIndex := (nextIndex s)(i64 a \<mapsto> ?n)\<rparr>)"
      using Some lst(1) by (simp add: backtrack_def Let_def right_def)
    ultimately show ?thesis using upd by auto
  qed
qed

lemma advance_ready:
  assumes ok: "indices_ok s" and sane: "node_sane s" "int (length (peers s)) < 2 ^ 63"
    and a: "\<And>k. k \<in> set (peers s) \<Longrightarrow> i64 k = i64 a \<longleftrightarrow> k = a"
    and lst: "lst = sc_next_index ctx + int (length (ae_entries r)) - 1" "0 \<le> lst" "lst \<le> log_size s"
  shows "\<exists>t. advance_commit a r ctx s = Some t \<and> indices_ok t \<and> append_sends t = append_sends s"
proof -
  from advance_commit_correct [where target = a, OF sane lst(1,3) refl] obtain t ci la rq th where
    t: "advance_commit a r ctx s = Some t"
    "t = s\<lparr>matchIndex := (matchIndex s)(i64 a \<mapsto> lst), nextIndex := (nextIndex s)(i64 a \<mapsto> lst + 1),
          commitIndex := ci, lastApplied := la, ready_queue := rq, threads := th\<rparr>" by blast
  have "indices_ok t"
    by (rule indices_update [OF ok _ _ a, where n = "lst + 1" and m = lst]) (use t(2) lst in simp_all)
  moreover have "active_threads t = active_threads s"
    using t(1) by (auto simp: advance_commit_def Let_def split: Option.bind_splits if_splits
        dest!: apply_entries_frame(2))
  ultimately show ?thesis using t(1) by (simp add: append_sends_def)
qed

text \<open>A reply handler is defined and keeps the bookkeeping.\<close>

lemma append_reply_ready:
  assumes ready: "node_ready s" and sane: "node_sane s" "int (length (peers s)) < 2 ^ 63"
    and a: "a \<in> set (peers s)" "\<And>k. k \<in> set (peers s) \<Longrightarrow> i64 k = i64 a \<longleftrightarrow> k = a"
    and r: "sent_by_leader M g r ctx m"
    and m: "currentRole s = Leader \<Longrightarrow> ae_term r = currentTerm s \<Longrightarrow> prefix m (rlog s)"
    and info: "\<And>info. aer_conflict_info rep = Some info \<Longrightarrow> 1 \<le> conflict_index info \<and> conflict_index info \<le> ae_prev_log_index r"
  shows "\<exists>t. handle_append_reply a r ctx rep s = Some t \<and> node_ready t"
proof -
  define q where "q = s\<lparr>replyCounter := (replyCounter s)(i64 a \<mapsto> sc_reply_counter ctx)\<rparr>"
  have same: "peers q = peers s" "currentRole q = currentRole s" "currentTerm q = currentTerm s" "rlog q = rlog s"
    "append_sends q = append_sends s" "indices_ok q = indices_ok s" "node_sane q = node_sane s"
    by (simp_all add: q_def append_sends_def indices_ok_def next_ok_def node_sane_def log_size_def)
  then have q: "node_ready q" using ready by (simp add: node_ready_def)
  have aq: "a \<in> set (peers q)" "\<And>k. k \<in> set (peers q) \<Longrightarrow> i64 k = i64 a \<longleftrightarrow> k = a"
    and sq: "node_sane q" "int (length (peers q)) < 2 ^ 63"
    using a sane same by simp_all
  have down: "node_ready (step_down T q)" for T
    using q by (auto simp: node_ready_def append_sends_def)
  show ?thesis
  proof (cases "sc_reply_counter ctx < map_get (replyCounter s) (i64 a) \<or> aer_term rep > currentTerm q \<or>
      currentRole q \<noteq> Leader \<or> ae_term r \<noteq> currentTerm q")
    case True
    then show ?thesis
      using ready q down by (auto simp: handle_append_reply_def Let_def q_def [symmetric])
  next
    case False
    then have L: "currentRole q = Leader" "ae_term r = currentTerm q" by auto
    have ok: "indices_ok q" using q L(1) by (simp add: node_ready_def)
    have ready': "node_ready t" if "indices_ok t" "append_sends t = append_sends q" "peers t = peers q" for t
      using that q by (simp add: node_ready_def)
    show ?thesis
    proof (cases "aer_success rep")
      case True
      let ?lst = "sc_next_index ctx + int (length (ae_entries r)) - 1"
      have lst: "?lst = int (length m)" using r by (auto simp: sent_by_leader_def)
      have "prefix m (rlog q)" using m L same by simp
      then have "0 \<le> ?lst" "?lst \<le> log_size q" using prefix_length_le lst by (auto simp: log_size_def)
      from advance_ready [OF ok sq aq(2) refl this] obtain t where
        t: "advance_commit a r ctx q = Some t" "indices_ok t" "append_sends t = append_sends q" by blast
      moreover have "peers t = peers q" using advance_commit_same_election [OF t(1)] by (simp add: same_election_def)
      moreover have "handle_append_reply a r ctx rep s = advance_commit a r ctx q"
        using False True by (simp add: handle_append_reply_def Let_def q_def [symmetric])
      ultimately show ?thesis using ready' by simp
    next
      case rejected: False
      show ?thesis
      proof (cases "sc_next_index ctx \<noteq> next_of a q \<or> sc_match_index ctx \<noteq> match_of a q")
        case True
        then have "handle_append_reply a r ctx rep s = Some q"
          using False rejected by (simp add: handle_append_reply_def Let_def q_def [symmetric])
        with q show ?thesis by simp
      next
        case no: False
        have "ae_prev_log_index r = sc_next_index ctx - 1" using r by (simp add: sent_by_leader_def)
        moreover have "sc_next_index ctx = next_of a q" using no by simp
        ultimately obtain t where
          t: "backtrack a ctx rep q = Some t" "indices_ok t" "active_threads t = active_threads q"
          using backtrack_ready [OF ok aq, of ctx r rep] info by blast
        moreover have "peers t = peers q" using backtrack_same_election [OF t(1)] by (simp add: same_election_def)
        moreover have "handle_append_reply a r ctx rep s = backtrack a ctx rep q"
          using False rejected no by (simp add: handle_append_reply_def Let_def q_def [symmetric])
        ultimately show ?thesis using ready' by (simp add: append_sends_def)
      qed
    qed
  qed
qed

section \<open>Every event keeps the bookkeeping\<close>

lemma call_ready_mono:
  "call_ready N k \<Longrightarrow> (\<And>f. set (peers (N f)) \<subseteq> set (peers (N' f))) \<Longrightarrow> call_ready N' k"
  by (cases k) auto

lemma ready_parts:
  assumes "ready_with c"
  shows "i \<in> set (members c) \<Longrightarrow> node_ready (nodes c i)" "k \<in> set (calls c) \<Longrightarrow> call_ready (nodes c) k"
  using assms by (simp_all add: ready_with_def)

lemma put_ready:
  assumes inv: "ready_with c" and t: "node_ready t" "set (peers (nodes c i)) \<subseteq> set (peers t)"
    and calls: "\<And>k. k \<in> set cs \<Longrightarrow> k \<in> set (calls c) \<or> call_ready ((nodes c)(i := t)) k"
  shows "ready_with (put_node i t (c\<lparr>calls := cs, elections := n\<rparr>))"
proof -
  have "call_ready ((nodes c)(i := t)) k" if "k \<in> set cs" for k
    using calls [OF that]
  proof
    assume "k \<in> set (calls c)"
    from ready_parts(2) [OF inv this] show ?thesis by (rule call_ready_mono) (use t(2) in simp)
  qed
  then show ?thesis using ready_parts(1) [OF inv] t(1) by (simp add: ready_with_def)
qed

lemma inv_node_facts:
  assumes inv: "cluster_inv c" "safe_with c g" and i: "i \<in> set (members c)"
  shows "rid (nodes c i) = i" "node_sane (nodes c i)" "int (length (peers (nodes c i))) < 2 ^ 63"
    "k \<in> set (peers (nodes c i)) \<Longrightarrow> k \<in> set (members c)"
proof -
  have ok: "node_ok (set (members c)) (granted c) i (nodes c i)"
    by (rule election_inv_node(3) [OF inv_parts(2) [OF inv(1)] i])
  then show "rid (nodes c i) = i" by (simp add: node_ok_def)
  have "0 \<le> lastApplied (nodes c i)" "0 \<le> commitIndex (nodes c i)" "commitIndex (nodes c i) \<le> log_size (nodes c i)"
    using node_safeD(11,12,14) [OF safe_parts(2) [OF inv(2) i]] by (auto simp: applied_ok_def)
  then show "node_sane (nodes c i)" using inv_small [OF inv(1) i] by (auto simp: node_sane_def in_i64_def)
  have sub: "set (peers (nodes c i)) \<subseteq> set (members c)" "distinct (peers (nodes c i))" using ok by (auto simp: node_ok_def)
  then show "k \<in> set (peers (nodes c i)) \<Longrightarrow> k \<in> set (members c)" by blast
  have "length (peers (nodes c i)) \<le> card (set (members c))"
    using distinct_card [OF sub(2)] card_mono [OF _ sub(1)] by simp
  then show "int (length (peers (nodes c i))) < 2 ^ 63" using inv_ids(2) [OF inv(1)] by linarith
qed

lemma local_ready:
  assumes "ready_with c" "local_op i f c = Some c'"
    and "\<And>s. node_ready s \<Longrightarrow> node_ready (f s)" "\<And>s. set (peers s) \<subseteq> set (peers (f s))"
  shows "ready_with c'"
  using assms(2)
proof (rule local_opE)
  assume i: "i \<in> set (members c)" and c': "c' = put_node i (f (nodes c i)) c"
  have "ready_with (put_node i (f (nodes c i)) (c\<lparr>calls := calls c, elections := elections c\<rparr>))"
    by (rule put_ready [OF assms(1)]) (use assms(3,4) ready_parts(1) [OF assms(1) i] in simp_all)
  then show ?thesis by (simp add: c')
qed

lemma ready_local_ops:
  assumes "node_ready s"
  shows "node_ready (serving s)" "node_ready (stop_server s)" "node_ready (kill s)"
    "node_ready (run d (connect_peers s))"
proof -
  have quiet: "node_ready t" if "same_election s t" "same_store s t" "keeps_next s t" for t
  proof (rule ready_idle [OF assms _ that(2,3)])
    show "role_moves 0 s t" "set (peers s) \<subseteq> set (peers t)" using that(1) by (simp_all add: same_election_def role_moves_def)
  qed
  show "node_ready (serving s)" by (rule quiet [OF quiet_ops(7) same_store_local(1) keeps_next_local(1)])
  show "node_ready (stop_server s)" by (rule quiet [OF quiet_ops(8) same_store_local(2) keeps_next_local(2)])
  show "node_ready (kill s)" by (rule quiet [OF quiet_ops(9) same_store_local(3) keeps_next_local(3)])
  have "set (peers s) \<subseteq> set (peers (run d (connect_peers s)))" by (simp add: connect_peers_set)
  from ready_idle [OF assms _ same_store_run keeps_next_local(4) this, of 0]
  show "node_ready (run d (connect_peers s))" by (simp add: role_moves_def)
qed

lemma thread_ready:
  assumes inv: "cluster_inv c" "safe_with c g" "ready_with c" and op: "thread_op i k d c = Some c'"
  shows "ready_with c'"
  using op
proof (rule thread_opE)
  fix t out
  let ?s = "nodes c i" and ?th = "threads (nodes c i) ! k"
  let ?q = "?s\<lparr>threads := remove_nth k (threads ?s)\<rparr>"
  assume i: "i \<in> set (members c)" and k: "k < length (threads ?s)" and run: "run_thread d ?th ?q = Some (t, out)"
    and c': "c' = put_node i t (c\<lparr>calls := calls c @ out, elections :=
       (if ?th = TBecomeCandidate then elections c + 1 else elections c)\<rparr>)"
  have "append_sends ?q \<subseteq> append_sends ?s" by (auto simp: append_sends_threads dest: in_set_remove_nthD)
  then have q: "node_ready ?q"
    using ready_parts(1) [OF inv(3) i] by (auto simp: node_ready_def indices_ok_def next_ok_def log_size_def)
  have law: "election_law ?q t" by (rule run_thread_law [OF run])
  have peers: "peers t = peers ?s" using law by (simp add: election_law_def)
  have "node_ready t"
    by (rule ready_idle [OF q role_moves_law [OF law refl] same_store_thread [OF run] keeps_next_thread [OF run]])
      (simp add: peers)
  moreover have "call_ready ((nodes c)(i := t)) x" if x: "x \<in> set out" for x
  proof (cases ?th)
    case (TAppendSend a)
    then obtain r ctx where "x = AppReq i a r ctx"
      using run x inv_node_facts(1) [OF inv(1,2) i] by (auto split: Option.bind_splits)
    moreover have "a \<in> append_sends ?s" using k TAppendSend by (metis append_sends_threads mem_Collect_eq nth_mem)
    ultimately show ?thesis using ready_parts(1) [OF inv(3) i] peers by (auto simp: node_ready_def)
  qed (use run x in auto)
  ultimately show ?thesis
    unfolding c' by (intro put_ready [OF inv(3)]) (auto simp: peers)
qed

lemma deliver_ready:
  assumes inv: "cluster_inv c" "safe_with c g" "ready_with c" and op: "deliver_op k c = Some c'"
  shows "ready_with c'"
proof (cases "calls c ! k")
  case (VoteReq f a req et)
  let ?s = "nodes c a" and ?t = "fst (reply_vote req (nodes c a))"
  have a: "a \<in> set (members c)"
    and c': "c' = put_node a ?t (c\<lparr>calls := (calls c)[k := VoteRep f a (snd (reply_vote req ?s)) et], elections := elections c\<rparr>)"
    using op VoteReq by (auto simp: deliver_op_def service_RequestVote_def split: if_splits prod.splits)
  have "node_ready ?t"
    by (rule ready_idle [OF ready_parts(1) [OF inv(3) a] role_moves_law [OF reply_vote_law refl] same_store_reply_vote
        keeps_next_reply_vote]) simp
  then show ?thesis unfolding c' by (intro put_ready [OF inv(3)]) (auto dest!: set_list_update)
next
  case (AppReq f a r ctx)
  then obtain t rep where k: "k < length (calls c)" and a: "a \<in> set (members c)"
    and ae: "append_entries r (nodes c a) = Some (t, rep)"
    and c': "c' = put_node a t (c\<lparr>calls := (calls c)[k := AppRep f a rep r ctx], elections := elections c\<rparr>)"
    using op by (auto simp: deliver_op_def service_AppendEntries_def split: if_splits Option.bind_splits)
  have call: "AppReq f a r ctx \<in> set (calls c)" using k AppReq by (metis nth_mem)
  have peers: "peers t = peers (nodes c a)" using append_entries_law [OF ae] by (simp add: election_law_def)
  have "in_i64 (ae_prev_log_index r)"
    using safe_parts(3) [OF inv(2) call] by (auto simp: sent_by_leader_def in_i64_def)
  then have "call_ready ((nodes c)(a := t)) (AppRep f a rep r ctx)"
    using ready_parts(2) [OF inv(3) call] append_entries_conflict [OF ae] peers by auto
  then show ?thesis
    unfolding c' by (intro put_ready [OF inv(3) ready_append_entries [OF ready_parts(1) [OF inv(3) a] ae]])
      (auto simp: peers dest!: set_list_update)
qed (use op in \<open>auto simp: deliver_op_def split: if_splits\<close>)

text \<open>The conditions of \<open>append_reply_ready\<close> hold of every reply in flight.\<close>

lemma reply_handled:
  assumes inv: "cluster_inv c" "safe_with c g" "ready_with c"
    and call: "AppRep f a rep r ctx \<in> set (calls c)" and f: "f \<in> set (members c)"
  shows "\<exists>t. handle_append_reply a r ctx rep (nodes c f) = Some t \<and> node_ready t"
proof -
  note node = inv_node_facts [OF inv(1,2) f]
  obtain m where m: "a \<in> set (members c)" "sent_by_leader (set (members c)) g r ctx m"
    using safe_parts(3) [OF inv(2) call] by auto
  have cr: "a \<in> set (peers (nodes c f))"
    "aer_conflict_info rep = Some info \<Longrightarrow> 1 \<le> conflict_index info \<and> conflict_index info \<le> ae_prev_log_index r" for info
    using ready_parts(2) [OF inv(3) call] by simp_all
  show ?thesis
  proof (rule append_reply_ready [OF ready_parts(1) [OF inv(3) f] node(2,3) cr(1) _ m(2) _ cr(2)])
    show "i64 k = i64 a \<longleftrightarrow> k = a" if "k \<in> set (peers (nodes c f))" for k
      using inv_ids(1) [OF inv(1) node(4) [OF that]] inv_ids(1) [OF inv(1) m(1)] by simp
    show "prefix m (rlog (nodes c f))" if "currentRole (nodes c f) = Leader" "ae_term r = currentTerm (nodes c f)"
      using node_safeD(7) [OF safe_parts(2) [OF inv(2) f] that(1)] m(2) that(2) by (simp add: sent_by_leader_def)
  qed
qed

lemma return_ready:
  assumes inv: "cluster_inv c" "safe_with c g" "ready_with c" and op: "return_op k c = Some c'"
  shows "ready_with c'"
proof (cases "calls c ! k")
  case (VoteRep f a rep et)
  let ?s = "nodes c f" and ?t = "handle_vote_reply a et rep (nodes c f)"
  have f: "f \<in> set (members c)" and c': "c' = put_node f ?t (c\<lparr>calls := remove_nth k (calls c), elections := elections c\<rparr>)"
    using op VoteRep by (auto simp: return_op_def split: if_splits)
  have "node_ready ?t"
  proof (cases "counts_vote et rep ?s")
    case True
    then show ?thesis by (rule ready_counted [OF ready_parts(1) [OF inv(3) f]])
  next
    case False
    show ?thesis
      by (rule ready_idle [OF ready_parts(1) [OF inv(3) f] role_moves_law [OF handle_vote_reply_uncounted [OF False] refl]
          same_store_vote_reply [OF False] keeps_next_vote_reply [OF False]]) (simp add: handle_vote_reply_frame)
  qed
  then show ?thesis
    unfolding c' by (intro put_ready [OF inv(3)]) (auto simp: handle_vote_reply_frame dest: in_set_remove_nthD)
next
  case (AppRep f a rep r ctx)
  then obtain t where k: "k < length (calls c)" and f: "f \<in> set (members c)"
    and ap: "handle_append_reply a r ctx rep (nodes c f) = Some t"
    and c': "c' = put_node f t (c\<lparr>calls := remove_nth k (calls c), elections := elections c\<rparr>)"
    using op by (auto simp: return_op_def split: if_splits Option.bind_splits)
  have "AppRep f a rep r ctx \<in> set (calls c)" using k AppRep by (metis nth_mem)
  from reply_handled [OF inv this f] ap have "node_ready t" by simp
  moreover have "peers t = peers (nodes c f)" using handle_append_reply_law [OF ap] by (simp add: election_law_def)
  ultimately show ?thesis
    unfolding c' by (intro put_ready [OF inv(3)]) (auto dest: in_set_remove_nthD)
qed (use op in \<open>auto simp: return_op_def split: if_splits\<close>)

lemma exec_ready:
  assumes inv: "cluster_inv c" "safe_with c g" "ready_with c" and ex: "exec ev c = Some c'"
  shows "ready_with c'"
proof (cases ev)
  case (EvRun i d)
  then have "local_op i (\<lambda>s. run d (connect_peers s)) c = Some c'" using ex by (auto split: if_splits)
  then show ?thesis by (rule local_ready [OF inv(3)]) (rule ready_local_ops, assumption, simp add: connect_peers_set)
next
  case (EvThread i k d)
  then show ?thesis using ex thread_ready [OF inv] by simp
next
  case (EvDeliver k)
  then show ?thesis using ex deliver_ready [OF inv] by simp
next
  case (EvReturn k)
  then show ?thesis using ex return_ready [OF inv] by simp
next
  case (EvFail k)
  then have "c' = c\<lparr>calls := remove_nth k (calls c)\<rparr>" using ex by (auto split: if_splits)
  then show ?thesis using inv(3) by (auto simp: ready_with_def dest: in_set_remove_nthD)
next
  case (EvStartServer i)
  then have "local_op i serving c = Some c'" using ex by simp
  then show ?thesis by (rule local_ready [OF inv(3)]) (rule ready_local_ops, assumption, simp add: serving_def)
next
  case (EvStopServer i)
  then have "local_op i stop_server c = Some c'" using ex by simp
  then show ?thesis by (rule local_ready [OF inv(3)]) (rule ready_local_ops, assumption, simp add: stop_server_def)
next
  case (EvKill i)
  then have "local_op i kill c = Some c'" using ex by simp
  then show ?thesis by (rule local_ready [OF inv(3)]) (rule ready_local_ops, assumption, simp add: kill_def)
next
  case (EvPropose i data)
  then have "local_op i (\<lambda>s. fst (propose data s)) c = Some c'" using ex by simp
  then show ?thesis
    by (rule local_ready [OF inv(3)]) (rule ready_propose, assumption, use quiet_ops(6) in \<open>simp add: same_election_def\<close>)
next
  case (EvProposeSync i data)
  then have "local_op i (\<lambda>s. fst (propose_sync data s)) c = Some c'" using ex by simp
  then show ?thesis
    by (rule local_ready [OF inv(3)]) (rule ready_propose, assumption, use propose_sync_quiet in \<open>simp add: same_election_def\<close>)
qed

definition ready_inv :: "cluster \<Rightarrow> bool" where
  "ready_inv c \<longleftrightarrow> safe_inv c \<and> ready_with c"

interpretation progress: inductive_invariant "tame_init cfgs" fenced_step ready_inv for cfgs
proof
  fix c
  assume init: "tame_init cfgs c"
  then obtain garbage where g: "\<forall>i. garbage i \<noteq> Leader" "c = init_cluster cfgs garbage" by (auto simp: tame_init_def)
  then have "currentRole (nodes c i) \<noteq> Leader" "threads (nodes c i) = []" for i
    by (simp_all add: nodes_init Raft_new_def split: option.split)
  then have "ready_with c" by (simp add: ready_with_def node_ready_def append_sends_threads g(2))
  with fence.init_inv [OF init] show "ready_inv c" by (simp add: ready_inv_def)
next
  fix c c'
  assume inv: "ready_inv c" and st: "fenced_step c c'"
  then obtain g where g: "cluster_inv c" "safe_with c g" "ready_with c" by (auto simp: ready_inv_def safe_inv_def)
  from st obtain ev where "exec ev c = Some c'" by (auto simp: fenced_step_def)
  from exec_ready [OF g this] show "ready_inv c'"
    using fence.step_inv [OF _ st] inv by (simp add: ready_inv_def)
qed

section \<open>No step is undefined\<close>

lemma fenced_parts:
  assumes "fenced cfgs c"
  obtains g where "cluster_inv c" "safe_with c g" "ready_with c"
  using progress.always [OF assms] by (auto simp: ready_inv_def safe_inv_def)

text \<open>The conditions under which an event can happen: its thread, node, server or call is there.\<close>

fun possible :: "event \<Rightarrow> cluster \<Rightarrow> bool" where
  "possible (EvStartServer i) c \<longleftrightarrow> i \<in> set (members c)"
| "possible (EvStopServer i) c \<longleftrightarrow> i \<in> set (members c)"
| "possible (EvRun i d) c \<longleftrightarrow> i \<in> set (members c) \<and> election_delay d"
| "possible (EvKill i) c \<longleftrightarrow> i \<in> set (members c)"
| "possible (EvPropose i data) c \<longleftrightarrow> i \<in> set (members c)"
| "possible (EvProposeSync i data) c \<longleftrightarrow> i \<in> set (members c)"
| "possible (EvThread i k d) c \<longleftrightarrow> i \<in> set (members c) \<and> k < length (threads (nodes c i)) \<and> election_delay d"
| "possible (EvDeliver k) c \<longleftrightarrow>
     k < length (calls c) \<and>
     (case calls c ! k of
        VoteReq f t req et \<Rightarrow> t \<in> set (members c) \<and> server_running (nodes c t)
      | AppReq f t req ctx \<Rightarrow> t \<in> set (members c) \<and> server_running (nodes c t)
      | _ \<Rightarrow> False)"
| "possible (EvReturn k) c \<longleftrightarrow>
     k < length (calls c) \<and>
     (case calls c ! k of
        VoteRep f t reply et \<Rightarrow> f \<in> set (members c)
      | AppRep f t reply req ctx \<Rightarrow> f \<in> set (members c)
      | _ \<Rightarrow> False)"
| "possible (EvFail k) c \<longleftrightarrow> k < length (calls c)"

lemma exec_possible: "exec ev c = Some c' \<Longrightarrow> possible ev c"
  by (cases ev) (auto simp: local_op_def thread_op_def deliver_op_def return_op_def Let_def
      split: if_splits call.splits Option.bind_splits)

lemma thread_defined:
  assumes inv: "ready_with c" and i: "i \<in> set (members c)" and k: "k < length (threads (nodes c i))"
    and fence: "fenced_event (EvThread i k d) c"
  shows "run_thread d (threads (nodes c i) ! k) (nodes c i\<lparr>threads := ts\<rparr>) \<noteq> None"
proof (cases "threads (nodes c i) ! k")
  case (TAppendSend a)
  have "node_ready (nodes c i)" by (rule ready_parts(1) [OF inv i])
  moreover have "a \<in> append_sends (nodes c i)"
    using k TAppendSend by (metis append_sends_threads mem_Collect_eq nth_mem)
  ultimately have "next_ok a (nodes c i)" using fence TAppendSend by (auto simp: node_ready_def indices_ok_def)
  then have "next_ok a (nodes c i\<lparr>threads := ts\<rparr>)" by (simp add: next_ok_def log_size_def)
  with TAppendSend show ?thesis by (simp add: build_append_request_ok)
qed simp_all

lemma request_defined:
  assumes inv: "cluster_inv c" "safe_with c g" and call: "AppReq f a r ctx \<in> set (calls c)"
    and a: "a \<in> set (members c)"
  shows "append_entries r (nodes c a) \<noteq> None"
proof -
  let ?s = "nodes c a"
  obtain m where m: "sent_by_leader (set (members c)) g r ctx m" using safe_parts(3) [OF inv(2) call] by auto
  have sane: "node_sane ?s" "log_size ?s < 2 ^ 62" using inv_node_facts(2) [OF inv a] inv_small [OF inv(1) a] .
  have r: "in_i64 (ae_prev_log_index r)" "request_sane r ?s"
    using m sane(2) by (auto simp: sent_by_leader_def request_sane_def in_i64_def)
  show ?thesis
  proof (cases "active ?s \<and> currentTerm ?s \<le> ae_term r")
    case False
    then show ?thesis by (auto simp: append_entries_def)
  next
    case True
    then show ?thesis
      using append_entries_accept [OF _ _ _ sane(1) r(2)] append_entries_reject [OF _ _ r(1)]
      by (cases "prev_agrees r (rlog ?s)") fastforce+
  qed
qed

lemma fenced_defined:
  assumes "fenced cfgs c" "possible ev c" "fenced_event ev c"
  shows "exec ev c \<noteq> None"
proof -
  obtain g where inv: "cluster_inv c" "safe_with c g" "ready_with c" using fenced_parts [OF assms(1)] by blast
  show ?thesis
  proof (cases ev)
    case (EvThread i k d)
    let ?q = "nodes c i\<lparr>threads := remove_nth k (threads (nodes c i))\<rparr>"
    have "run_thread d (threads (nodes c i) ! k) ?q \<noteq> None"
      by (rule thread_defined [OF inv(3)]) (use EvThread assms(2,3) in simp_all)
    then obtain r where "run_thread d (threads (nodes c i) ! k) ?q = Some r" by blast
    with EvThread assms(2) show ?thesis by (cases r) (simp add: thread_op_def Let_def)
  next
    case (EvDeliver k)
    then have k: "k < length (calls c)" using assms(2) by simp
    show ?thesis
    proof (cases "calls c ! k")
      case (AppReq f a r ctx)
      then have "AppReq f a r ctx \<in> set (calls c)" using k by (metis nth_mem)
      from request_defined [OF inv(1,2) this] obtain s' rep where "append_entries r (nodes c a) = Some (s', rep)"
        using AppReq EvDeliver assms(2) by auto
      with AppReq EvDeliver assms(2) show ?thesis by (simp add: deliver_op_def service_AppendEntries_def)
    qed (use EvDeliver assms(2) in \<open>auto simp: deliver_op_def service_RequestVote_def split: prod.split\<close>)
  next
    case (EvReturn k)
    then have k: "k < length (calls c)" using assms(2) by simp
    show ?thesis
    proof (cases "calls c ! k")
      case (AppRep f a rep r ctx)
      then have "AppRep f a rep r ctx \<in> set (calls c)" using k by (metis nth_mem)
      from reply_handled [OF inv this] obtain t where "handle_append_reply a r ctx rep (nodes c f) = Some t"
        using AppRep EvReturn assms(2) by auto
      with AppRep EvReturn assms(2) show ?thesis by (simp add: return_op_def)
    qed (use EvReturn assms(2) in \<open>auto simp: return_op_def\<close>)
  qed (use assms(2) in \<open>auto simp: local_op_def\<close>)
qed

lemma fenced_indices:
  assumes "fenced cfgs c" "i \<in> set (members c)" "currentRole (nodes c i) = Leader" "k \<in> set (peers (nodes c i))"
  shows "1 \<le> next_of k (nodes c i) \<and> next_of k (nodes c i) \<le> log_size (nodes c i) + 1 \<and>
    0 \<le> match_of k (nodes c i) \<and> match_of k (nodes c i) \<le> log_size (nodes c i)"
proof -
  obtain g where inv: "ready_with c" using fenced_parts [OF assms(1)] by blast
  from ready_parts(1) [OF inv assms(2)] assms(3,4) show ?thesis
    by (auto simp: node_ready_def indices_ok_def next_ok_def)
qed

end
