(* ===== verification/FirstTerm.thy ===== *)
theory FirstTerm
  imports TermBound LogMatching
begin

text \<open>
  Elections have positive terms: votes are asked for only after a node has become a candidate, which raises its
  term above 0. So no entry of term 0 is ever in a log, and the term 0 that stands for a log that is too short in
  the conflict information of a follower is never the term of an entry.
\<close>

section \<open>Who asks for votes\<close>

fun asks :: "thread \<Rightarrow> bool" where
  "asks TRequestVotes = True"
| "asks (TVoteSend t e) = True"
| "asks _ = False"

fun asks_late :: "i64_t \<Rightarrow> thread \<Rightarrow> bool" where
  "asks_late T (TVoteSend t e) \<longleftrightarrow> 1 \<le> e"
| "asks_late T th \<longleftrightarrow> 1 \<le> T"

definition begun :: "raft \<Rightarrow> bool" where
  "begun s \<longleftrightarrow>
     0 \<le> currentTerm s \<and> (\<forall>x \<in> set (active_threads s). asks x \<longrightarrow> asks_late (currentTerm s) x) \<and>
     (active s \<and> currentRole s = Leader \<longrightarrow> 1 \<le> currentTerm s)"

fun call_begun :: "call \<Rightarrow> bool" where
  "call_begun (VoteReq f t req et) \<longleftrightarrow> 1 \<le> et"
| "call_begun (VoteRep f t rep et) \<longleftrightarrow> 1 \<le> et"
| "call_begun k \<longleftrightarrow> True"

definition begun_inv :: "cluster \<Rightarrow> bool" where
  "begun_inv c \<longleftrightarrow>
     (\<forall>i. begun (nodes c i)) \<and> (\<forall>k \<in> set (calls c). call_begun k) \<and> (\<forall>(T, i) \<in> elected c. 1 \<le> T)"

text \<open>An operation that starts no thread that asks for votes, and makes no leader.\<close>

definition asks_less :: "raft \<Rightarrow> raft \<Rightarrow> bool" where
  "asks_less s t \<longleftrightarrow> (\<forall>x \<in> set (active_threads t). asks x \<longrightarrow> x \<in> set (active_threads s))"

lemma asks_late_mono: "asks_late T x \<Longrightarrow> T \<le> U \<Longrightarrow> asks_late U x"
  by (cases x) auto

lemma begun_law:
  assumes "begun s" "election_law s t" "asks_less s t"
  shows "begun t"
proof -
  have mono: "currentTerm s \<le> currentTerm t" by (rule election_law_mono [OF assms(2)])
  have "active t \<and> currentRole t = Leader \<longrightarrow> active s \<and> currentRole s = Leader"
    using assms(2) by (auto simp: election_law_def)
  with mono assms show ?thesis unfolding begun_def asks_less_def by (meson asks_late_mono order_trans)
qed

lemma asks_less_local:
  "asks_less s (serving s)" "asks_less s (stop_server s)" "asks_less s (kill s)"
  "asks_less s (fst (propose data s))" "asks_less s (fst (propose_sync data s))"
  "asks_less s (fst (reply_vote r s))" "asks_less s (handle_vote_reply target et rep s)"
  by (auto simp: asks_less_def serving_def stop_server_def kill_def propose_def propose_sync_def push_proposal_def
      sync_finish_def reply_vote_def handle_vote_reply_def Let_def active_threads_def [of "s\<lparr>dead := True\<rparr>"]
      active_threads_def [of s])

lemma asks_less_active:
  "active_threads t = active_threads s \<or> active_threads t = active_threads s @ [TStartElectionTimer] \<Longrightarrow> asks_less s t"
  by (auto simp: asks_less_def)

section \<open>Every event keeps it\<close>

lemma thread_begun:
  assumes s: "begun s" and k: "k < length (threads s)"
    and run: "run_thread d (threads s ! k) (s\<lparr>threads := remove_nth k (threads s)\<rparr>) = Some (t, out)"
  shows "begun t" "\<And>x. x \<in> set out \<Longrightarrow> call_begun x"
proof -
  let ?th = "threads s ! k" and ?s = "s\<lparr>threads := remove_nth k (threads s)\<rparr>"
  have s0: "begun ?s" using s by (auto simp: begun_def active_threads_def dest: in_set_remove_nthD)
  have now: "asks ?th \<Longrightarrow> asks_late (currentTerm s) ?th"
    using s k by (cases ?th) (auto simp: begun_def active_threads_def dest!: nth_mem)
  have quietly: "asks_less ?s t \<Longrightarrow> begun t" by (rule begun_law [OF s0 run_thread_law [OF run]])
  show "begun t"
  proof (cases ?th)
    case TBecomeCandidate
    with run have t: "t = become_candidate ?s" by simp
    have "0 \<le> currentTerm ?s" "\<And>x. x \<in> set (active_threads ?s) \<Longrightarrow> asks x \<Longrightarrow> asks_late (currentTerm ?s) x"
      using s0 by (auto simp: begun_def)
    then show ?thesis
      using asks_late_mono [of "currentTerm ?s" _ "currentTerm ?s + 1"]
      unfolding t by (auto simp: begun_def become_candidate_def Let_def)
  next
    case TRequestVotes
    with run have t: "t = request_votes (currentTerm s) ?s" by simp
    have "1 \<le> currentTerm s" using now TRequestVotes by simp
    with s0 show ?thesis unfolding t by (auto simp: begun_def request_votes_def spawn_all_eq active_threads_def)
  qed ((rule quietly; (use run in \<open>auto simp: asks_less_def start_election_timer_def start_heartbeat_timer_def
      start_timer_def send_entries_def spawn_all_eq sync_wakeup_def sync_finish_def active_threads_def Let_def
      split: Option.bind_splits if_splits prod.splits\<close>))+)
  show "call_begun x" if "x \<in> set out" for x
    using that run now by (cases ?th) (auto split: Option.bind_splits)
qed

lemma vote_reply_begun:
  assumes s: "begun s" and et: "1 \<le> et"
  shows "begun (handle_vote_reply target et rep s)"
proof (cases "counts_vote et rep s")
  case False
  show ?thesis by (rule begun_law [OF s handle_vote_reply_uncounted [OF False] asks_less_local(7)])
next
  case True
  then have "currentTerm s = et" by (simp add: counts_vote_def)
  with s et show ?thesis unfolding handle_vote_reply_counted [OF True] by (auto simp: begun_def)
qed

lemma exec_begun:
  assumes inv: "begun_inv c" and ex: "exec ev c = Some c'"
  shows "begun_inv c'"
proof -
  have node: "begun (nodes c i)" and call: "k \<in> set (calls c) \<Longrightarrow> call_begun k" for i k
    using inv by (simp_all add: begun_inv_def)
  have local: "begun (f (nodes c i)) \<Longrightarrow> local_op i f c = Some c' \<Longrightarrow> (\<forall>j. begun (nodes c' j)) \<and> (\<forall>k \<in> set (calls c'). call_begun k)" for f i
    using node call by (auto elim!: local_opE)
  have after: "(\<forall>i. begun (nodes c' i)) \<and> (\<forall>k \<in> set (calls c'). call_begun k)"
  proof (cases ev)
    case (EvThread i k d)
    then have "thread_op i k d c = Some c'" using ex by simp
    then show ?thesis
    proof (rule thread_opE)
      fix t out
      assume k: "k < length (threads (nodes c i))"
        and run: "run_thread d (threads (nodes c i) ! k) (nodes c i\<lparr>threads := remove_nth k (threads (nodes c i))\<rparr>) = Some (t, out)"
        and c': "c' = put_node i t (c\<lparr>calls := calls c @ out, elections :=
          (if threads (nodes c i) ! k = TBecomeCandidate then elections c + 1 else elections c)\<rparr>)"
      from thread_begun [OF node k run] show ?thesis using node call by (auto simp: c')
    qed
  next
    case (EvDeliver k)
    then have op: "deliver_op k c = Some c'" using ex by simp
    then have k: "k < length (calls c)" by (simp add: deliver_op_def split: if_splits)
    show ?thesis
    proof (cases "calls c ! k")
      case (VoteReq f a req et)
      then have c': "c' = put_node a (fst (reply_vote req (nodes c a)))
          (c\<lparr>calls := (calls c)[k := VoteRep f a (snd (reply_vote req (nodes c a))) et]\<rparr>)"
        using op by (auto simp: deliver_op_def service_RequestVote_def split: if_splits prod.splits)
      have "1 \<le> et" using call [OF nth_mem [OF k]] VoteReq by simp
      then show ?thesis using node call begun_law [OF node reply_vote_law asks_less_local(6)]
        by (auto simp: c' dest!: set_list_update)
    next
      case (AppReq f a r ctx)
      then obtain t rep where ae: "append_entries r (nodes c a) = Some (t, rep)"
        and c': "c' = put_node a t (c\<lparr>calls := (calls c)[k := AppRep f a rep r ctx]\<rparr>)"
        using op by (auto simp: deliver_op_def service_AppendEntries_def split: if_splits Option.bind_splits)
      from begun_law [OF node append_entries_law [OF ae] asks_less_active [OF active_threads_append_entries [OF ae]]]
      show ?thesis using node call by (auto simp: c' dest!: set_list_update)
    qed (use op in \<open>auto simp: deliver_op_def split: if_splits\<close>)
  next
    case (EvReturn k)
    then have op: "return_op k c = Some c'" using ex by simp
    then have k: "k < length (calls c)" by (simp add: return_op_def split: if_splits)
    show ?thesis
    proof (cases "calls c ! k")
      case (VoteRep f a rep et)
      then have c': "c' = put_node f (handle_vote_reply a et rep (nodes c f)) (c\<lparr>calls := remove_nth k (calls c)\<rparr>)"
        using op by (auto simp: return_op_def split: if_splits)
      have "1 \<le> et" using call [OF nth_mem [OF k]] VoteRep by simp
      then show ?thesis using node call vote_reply_begun by (auto simp: c' dest!: in_set_remove_nthD)
    next
      case (AppRep f a rep r ctx)
      then obtain t where ap: "handle_append_reply a r ctx rep (nodes c f) = Some t"
        and c': "c' = put_node f t (c\<lparr>calls := remove_nth k (calls c)\<rparr>)"
        using op by (auto simp: return_op_def split: if_splits Option.bind_splits)
      from begun_law [OF node handle_append_reply_law [OF ap] asks_less_active [OF active_threads_handle_append_reply [OF ap]]]
      show ?thesis using node call by (auto simp: c' dest!: in_set_remove_nthD)
    qed (use op in \<open>auto simp: return_op_def split: if_splits\<close>)
  next
    case (EvFail k)
    then have "c' = c\<lparr>calls := remove_nth k (calls c)\<rparr>" using ex by (auto split: if_splits)
    then show ?thesis using node call by (auto dest!: in_set_remove_nthD)
  next
    case (EvRun i d)
    have "begun (run d (connect_peers (nodes c i)))"
      using node [of i] by (auto simp: begun_def run_def become_follower_def start_election_timer_def connect_peers_def
          active_threads_def Let_def)
    then show ?thesis using ex EvRun local by (simp split: if_splits)
  next
    case (EvStartServer i)
    then show ?thesis using ex
      by (intro local [of serving i] begun_law [OF node same_election_law [OF quiet_ops(7)] asks_less_local(1)]) simp
  next
    case (EvStopServer i)
    then show ?thesis using ex
      by (intro local [of stop_server i] begun_law [OF node same_election_law [OF quiet_ops(8)] asks_less_local(2)]) simp
  next
    case (EvKill i)
    then show ?thesis using ex
      by (intro local [of kill i] begun_law [OF node same_election_law [OF quiet_ops(9)] asks_less_local(3)]) simp
  next
    case (EvPropose i data)
    then show ?thesis using ex
      by (intro local [of "\<lambda>s. fst (propose data s)" i] begun_law [OF node same_election_law [OF quiet_ops(6)] asks_less_local(4)]) simp
  next
    case (EvProposeSync i data)
    then show ?thesis using ex
      by (intro local [of "\<lambda>s. fst (propose_sync data s)" i] begun_law [OF node same_election_law [OF propose_sync_quiet] asks_less_local(5)]) simp
  qed
  moreover have "1 \<le> T" if e: "(T, i) \<in> elected c'" for T i
    using ex
  proof (cases rule: exec_shape)
    case (put j s cs n)
    then have "(T, i) \<in> elected c \<or> i = j \<and> T = currentTerm s \<and> active s \<and> currentRole s = Leader"
      using e by (auto split: if_splits)
    moreover have "begun s" using after put(2) by (metis fun_upd_same nodes_upd put_node_simps(4))
    ultimately show ?thesis using inv by (auto simp: begun_inv_def begun_def)
  next
    case (drop cs)
    then show ?thesis using e inv by (auto simp: begun_inv_def)
  qed
  ultimately show ?thesis by (auto simp: begun_inv_def)
qed

interpretation beginnings: inductive_invariant "cluster_init cfgs" cluster_step begun_inv for cfgs
proof
  fix c
  assume "cluster_init cfgs c"
  then obtain garbage where c: "c = init_cluster cfgs garbage" by (auto simp: cluster_init_def)
  have "begun (Raft_new cfg r)" for cfg r by (simp add: begun_def Raft_new_def active_threads_def)
  then show "begun_inv c" by (auto simp: c begun_inv_def nodes_init split: option.split)
qed (auto simp: cluster_step_iff intro: exec_begun)

text \<open>Terms of elections and of entries are positive.\<close>

lemma elected_positive: "reachable cfgs c \<Longrightarrow> (T, i) \<in> elected c \<Longrightarrow> 1 \<le> T"
  using beginnings.always [of cfgs c] by (auto simp: begun_inv_def)

lemma entries_positive:
  assumes t: "tame cfgs c" and i: "i \<in> set (members c)" and e: "e \<in> set (rlog (nodes c i))"
  shows "1 \<le> e_term e"
proof -
  obtain j where "(e_term e, j) \<in> elected c"
    using matching.always [OF t] tame_log(1) [OF t i] e unfolding cluster_inv_def log_inv_def history_log_ok_def by blast
  then show ?thesis by (rule elected_positive [OF tame_reachable [OF t]])
qed

end
