(* ===== verification/CommitProgress.thy ===== *)
theory CommitProgress
  imports ElectionProgress FencedProgress FirstTerm
begin

text \<open>
  A cluster in which a majority runs can commit. From every state of a fenced execution some continuation elects a
  leader in the majority, brings the logs of the majority in line with the leader's, commits a new command and
  hands it over on every node of the majority (\<open>can_commit\<close>). First an invariant: in a fenced execution a node
  has always applied everything it considers committed (\<open>caught_up\<close>).
\<close>

section \<open>Committed entries are applied at once\<close>

definition caught_up :: "raft \<Rightarrow> bool" where
  "caught_up s \<longleftrightarrow> lastApplied s = commitIndex s"

definition settled :: "raft \<Rightarrow> bool" where
  "settled s \<longleftrightarrow> 0 \<le> lastApplied s \<and> lastApplied s \<le> commitIndex s \<and> commitIndex s \<le> log_size s \<and> log_size s < 2 ^ 62"

definition catches_up :: "raft \<Rightarrow> raft \<Rightarrow> bool" where
  "catches_up s t \<longleftrightarrow> commitIndex t = commitIndex s \<and> lastApplied t = lastApplied s \<or> caught_up t"

lemma catches_up_refl [simp]: "catches_up s s"
  by (simp add: catches_up_def)

lemma same_store_catches_up: "same_store s t \<Longrightarrow> catches_up s t"
  by (simp add: same_store_def catches_up_def)

lemma apply_entries_catches_up:
  assumes ap: "apply_entries s = Some t" and s: "0 \<le> lastApplied s" and t: "settled t"
  shows "caught_up t"
proof -
  obtain x y z where "t = s\<lparr>lastApplied := x, ready_queue := y, threads := z\<rparr>"
    using apply_entries_frame(1) [OF ap] by blast
  then have same: "commitIndex t = commitIndex s" "log_size t = log_size s" by (simp_all add: log_size_def)
  have "in_i64 (commitIndex s)" "log_size s < 2 ^ 63" using t same by (auto simp: settled_def in_i64_def)
  from apply_entries_correct [OF s this] ap have
    "if 0 \<le> commitIndex s \<and> commitIndex s \<le> log_size s \<and> lastApplied s < commitIndex s
     then lastApplied t = commitIndex s else t = s" by (auto split: if_splits)
  with t same show ?thesis by (auto simp: caught_up_def settled_def split: if_splits)
qed

lemma append_entries_catches_up:
  assumes "append_entries r s = Some (t, rep)" "0 \<le> lastApplied s" "settled t"
  shows "catches_up s t"
  using assms(1)
proof (cases rule: append_entries_shape)
  case (3 l ci)
  from apply_entries_catches_up [OF 3(1) _ assms(3)] assms(2) show ?thesis by (simp add: catches_up_def)
qed (auto simp: catches_up_def)

lemma append_reply_catches_up:
  assumes "handle_append_reply a r ctx rep s = Some t" "0 \<le> lastApplied s" "settled t"
  shows "catches_up s t"
proof -
  let ?q = "s\<lparr>replyCounter := (replyCounter s)(i64 a \<mapsto> sc_reply_counter ctx)\<rparr>"
  from handle_append_reply_moves [OF assms(1)] consider "same_store s t" | "advance_commit a r ctx ?q = Some t" by blast
  then show ?thesis
  proof cases
    case 2
    then show ?thesis
      using apply_entries_catches_up [OF _ _ assms(3)] assms(2)
      by (auto simp: advance_commit_def Let_def catches_up_def split: Option.bind_splits if_splits)
  qed (rule same_store_catches_up)
qed

lemma local_catches_up: "catches_up s (fst (propose data s))" "catches_up s (fst (propose_sync data s))"
  by (simp_all add: catches_up_def propose_def propose_sync_def push_proposal_def sync_finish_def Let_def)

lemma vote_reply_catches_up: "catches_up s (handle_vote_reply target et rep s)"
  by (simp add: catches_up_def handle_vote_reply_def become_leader_eq Let_def)

lemma run_thread_catches_up: "run_thread d th (s\<lparr>threads := ts\<rparr>) = Some (t, out) \<Longrightarrow> catches_up s t"
  by (drule same_store_thread) (simp add: same_store_def catches_up_def)

lemma exec_catches_up:
  assumes ex: "exec ev c = Some c'" and s: "0 \<le> lastApplied (nodes c i)" and t: "settled (nodes c' i)"
  shows "catches_up (nodes c i) (nodes c' i)"
proof (cases ev)
  case (EvThread j k d)
  then have "thread_op j k d c = Some c'" using ex by simp
  then show ?thesis
  proof (rule thread_opE)
    fix u out
    assume run: "run_thread d (threads (nodes c j) ! k) (nodes c j\<lparr>threads := remove_nth k (threads (nodes c j))\<rparr>) = Some (u, out)"
      and c': "c' = put_node j u (c\<lparr>calls := calls c @ out, elections :=
       (if threads (nodes c j) ! k = TBecomeCandidate then elections c + 1 else elections c)\<rparr>)"
    from run_thread_catches_up [OF run] show ?thesis by (simp add: c')
  qed
next
  case (EvDeliver k)
  then show ?thesis
    using ex s t append_entries_catches_up same_store_catches_up [OF same_store_reply_vote]
    by (auto simp: deliver_op_def service_RequestVote_def service_AppendEntries_def
        split: if_splits call.splits prod.splits Option.bind_splits) (metis fst_conv)+
next
  case (EvReturn k)
  then show ?thesis
    using ex s t append_reply_catches_up vote_reply_catches_up
    by (auto simp: return_op_def split: if_splits call.splits Option.bind_splits)
qed (use ex local_catches_up same_store_catches_up same_store_intros in \<open>auto simp: local_op_def split: if_splits\<close>)

lemma ready_settled:
  assumes "ready_inv c" "i \<in> set (members c)"
  shows "settled (nodes c i)"
proof -
  obtain g where inv: "cluster_inv c" "safe_with c g" using assms(1) by (auto simp: ready_inv_def safe_inv_def)
  from node_safeD(12,14) [OF safe_parts(2) [OF inv(2) assms(2)]] inv_small [OF inv(1) assms(2)]
  show ?thesis by (simp add: settled_def applied_ok_def)
qed

definition caught_up_inv :: "cluster \<Rightarrow> bool" where
  "caught_up_inv c \<longleftrightarrow> ready_inv c \<and> (\<forall>i \<in> set (members c). caught_up (nodes c i))"

interpretation catching: inductive_invariant "tame_init cfgs" fenced_step caught_up_inv for cfgs
proof
  fix c
  assume init: "tame_init cfgs c"
  then obtain garbage where "c = init_cluster cfgs garbage" by (auto simp: tame_init_def)
  then have "caught_up (nodes c i)" for i by (simp add: caught_up_def nodes_init Raft_new_def split: option.split)
  with progress.init_inv [OF init] show "caught_up_inv c" by (simp add: caught_up_inv_def)
next
  fix c c'
  assume inv: "caught_up_inv c" and st: "fenced_step c c'"
  then have r: "ready_inv c" "ready_inv c'" using progress.step_inv by (auto simp: caught_up_inv_def)
  obtain ev where ev: "exec ev c = Some c'" using st by (auto simp: fenced_step_def)
  have m: "members c' = members c" by (rule exec_members [OF ev])
  have "caught_up (nodes c' i)" if i: "i \<in> set (members c)" for i
    using exec_catches_up [OF ev, of i] ready_settled [OF r(1) i] ready_settled [OF r(2), of i] inv i m
    by (auto simp: catches_up_def caught_up_def caught_up_inv_def settled_def)
  with r(2) m show "caught_up_inv c'" by (simp add: caught_up_inv_def)
qed

text \<open>The data a node has handed over are the commands of the committed part of its log.\<close>

lemma fenced_applied:
  assumes f: "fenced cfgs c" and i: "i \<in> set (members c)"
  shows "lastApplied (nodes c i) = commitIndex (nodes c i)"
    "map ar_data (ready_queue (nodes c i)) = map e_command (take (nat (commitIndex (nodes c i))) (rlog (nodes c i)))"
proof -
  have inv: "caught_up_inv c" by (rule catching.always [OF f])
  then show eq: "lastApplied (nodes c i) = commitIndex (nodes c i)" using i by (simp add: caught_up_inv_def caught_up_def)
  obtain g where g: "safe_with c g" using inv by (auto simp: caught_up_inv_def ready_inv_def safe_inv_def)
  from node_safeD(14) [OF safe_parts(2) [OF g i]] eq
  show "map ar_data (ready_queue (nodes c i)) = map e_command (take (nat (commitIndex (nodes c i))) (rlog (nodes c i)))"
    by (simp add: applied_ok_def)
qed

section \<open>A leader can always send\<close>

lemma send_now:
  assumes i: "i \<in> set (members c)" and th: "TSendEntries \<in> set (threads (nodes c i))"
  shows "\<exists>c'. only_timer i c c' \<and> (\<forall>j \<in> set (peers (nodes c i)). TAppendSend j \<in> set (threads (nodes c' i)))"
proof -
  obtain d where "only_timer i c d" "\<forall>j \<in> set (peers (nodes c i)). TAppendSend j \<in> set (threads (nodes d i))"
  proof (rule timer_step [OF i th, of "\<lambda>t. \<forall>j \<in> set (peers (nodes c i)). TAppendSend j \<in> set (threads t)"])
    fix ts
    show "\<exists>t. run_thread 150 TSendEntries (nodes c i\<lparr>threads := ts\<rparr>) = Some (t, []) \<and> timer_change (nodes c i) t \<and>
        (\<forall>j \<in> set (peers (nodes c i)). TAppendSend j \<in> set (threads t))"
      by (simp add: send_entries_def spawn_all_eq timer_change_def)
  qed auto
  then show ?thesis by blast
qed

text \<open>Several steps of the timer of one node.\<close>

definition timer_steps :: "u64_t \<Rightarrow> cluster \<Rightarrow> cluster \<Rightarrow> bool" where
  "timer_steps i c c' \<longleftrightarrow> elects c c' \<and> core (nodes c' i) = core (nodes c i) \<and> (\<forall>j. j \<noteq> i \<longrightarrow> nodes c' j = nodes c j)"

lemma timer_steps_first: "only_timer i c d \<Longrightarrow> timer_steps i d c' \<Longrightarrow> timer_steps i c c'"
  unfolding only_timer_def timer_steps_def timer_change_def by (auto intro: converse_rtranclp_into_rtranclp)

lemma timer_steps_one: "only_timer i c d \<Longrightarrow> timer_steps i c d"
  unfolding only_timer_def timer_steps_def timer_change_def by auto

definition sending :: "u64_t \<Rightarrow> cluster \<Rightarrow> cluster \<Rightarrow> bool" where
  "sending i c c' \<longleftrightarrow> timer_steps i c c' \<and> (\<forall>j \<in> set (peers (nodes c i)). TAppendSend j \<in> set (threads (nodes c' i)))"

lemma sending_later:
  assumes "only_timer i c d" "\<exists>c'. sending i d c'"
  shows "\<exists>c'. sending i c c'"
proof -
  have "peers (nodes d i) = peers (nodes c i)" using assms(1) by (simp add: only_timer_def timer_change_def core_eq_iff)
  with assms timer_steps_first show ?thesis unfolding sending_def by metis
qed

lemma send_timer:
  assumes i: "i \<in> set (members c)" and th: "TTimer (timerCounter (nodes c i)) d m \<in> set (threads (nodes c i))"
    and run: "\<not> dead (nodes c i)" "currentRole (nodes c i) = Leader"
  shows "\<exists>c'. sending i c c'"
proof -
  obtain d where d: "only_timer i c d" "TSendEntries \<in> set (threads (nodes d i))"
  proof (rule timer_step [OF i th, of "\<lambda>t. TSendEntries \<in> set (threads t)"])
    fix ts
    show "\<exists>t. run_thread 150 (TTimer (timerCounter (nodes c i)) d m) (nodes c i\<lparr>threads := ts\<rparr>) = Some (t, []) \<and>
        timer_change (nodes c i) t \<and> TSendEntries \<in> set (threads t)"
      using run by (simp add: start_timer_def timer_change_def)
  qed auto
  have "i \<in> set (members d)" using i d(1) by (auto simp: only_timer_def election_step_def exec_members)
  from send_now [OF this d(2)] have "\<exists>c'. sending i d c'" unfolding sending_def using timer_steps_one by blast
  then show ?thesis by (rule sending_later [OF d(1)])
qed

lemma send_restart:
  assumes i: "i \<in> set (members c)" and th: "th \<in> set (threads (nodes c i))" "th = TStartElectionTimer \<or> th = TStartHeartbeatTimer"
    and run: "\<not> dead (nodes c i)" "currentRole (nodes c i) = Leader"
  shows "\<exists>c'. sending i c c'"
proof -
  obtain d where d: "only_timer i c d" "i \<in> set (members d)"
    "\<exists>x m. TTimer (timerCounter (nodes d i)) x m \<in> set (threads (nodes d i))"
    by (rule restart_timer [OF i th])
  have "\<not> dead (nodes d i)" "currentRole (nodes d i) = Leader"
    using run d(1) by (simp_all add: only_timer_def timer_change_def core_eq_iff)
  with d(2,3) show ?thesis using send_timer sending_later [OF d(1)] by blast
qed

lemma can_send:
  assumes r: "reachable cfgs c" and i: "i \<in> set (members c)"
    and run: "active (nodes c i)" "\<not> dead (nodes c i)" "currentRole (nodes c i) = Leader"
  shows "\<exists>c'. sending i c c'"
proof -
  have "never_idle (nodes c i)" using timers.always [OF r] by blast
  then obtain th where th: "th \<in> set (threads (nodes c i))" "ticks (timerCounter (nodes c i)) th" "th \<noteq> TBecomeCandidate"
    using run by (auto simp: never_idle_def on_its_way_def active_threads_def)
  show ?thesis
  proof (cases th)
    case TSendEntries
    with th have "TSendEntries \<in> set (threads (nodes c i))" by simp
    from send_now [OF i this] show ?thesis unfolding sending_def using timer_steps_one by blast
  qed (use th run i in \<open>auto intro: send_timer send_restart\<close>)
qed

section \<open>One exchange between a leader and a follower\<close>

text \<open>What an exchange leaves as it was on the two nodes.\<close>

definition same_leader :: "raft \<Rightarrow> raft \<Rightarrow> bool" where
  "same_leader s t \<longleftrightarrow>
     currentRole t = currentRole s \<and> currentTerm t = currentTerm s \<and> rlog t = rlog s \<and> peers t = peers s \<and>
     active t = active s \<and> dead t = dead s \<and> server_running t = server_running s"

definition same_follower :: "i64_t \<Rightarrow> raft \<Rightarrow> raft \<Rightarrow> bool" where
  "same_follower T s t \<longleftrightarrow>
     currentTerm t = T \<and> active t = active s \<and> dead t = dead s \<and> server_running t = server_running s"

definition exchanged :: "u64_t \<Rightarrow> u64_t \<Rightarrow> cluster \<Rightarrow> cluster \<Rightarrow> bool" where
  "exchanged i j c c' \<longleftrightarrow>
     fenced_step\<^sup>*\<^sup>* c c' \<and> members c' = members c \<and> (\<forall>k. k \<noteq> i \<longrightarrow> k \<noteq> j \<longrightarrow> nodes c' k = nodes c k) \<and>
     same_leader (nodes c i) (nodes c' i) \<and> same_follower (currentTerm (nodes c i)) (nodes c j) (nodes c' j)"

text \<open>Node \<open>i\<close> leads, and \<open>j\<close> is a peer that can accept it.\<close>

definition in_touch :: "u64_t \<Rightarrow> u64_t \<Rightarrow> cluster \<Rightarrow> bool" where
  "in_touch i j c \<longleftrightarrow>
     i \<in> set (members c) \<and> active (nodes c i) \<and> \<not> dead (nodes c i) \<and> currentRole (nodes c i) = Leader \<and>
     j \<in> set (peers (nodes c i)) \<and> j \<noteq> i \<and> active (nodes c j) \<and> server_running (nodes c j) \<and>
     currentTerm (nodes c j) \<le> currentTerm (nodes c i)"

lemma exchanged_in_touch: "exchanged i j c c' \<Longrightarrow> in_touch i j c \<Longrightarrow> in_touch i j c'"
  by (simp add: exchanged_def in_touch_def same_leader_def same_follower_def)

lemma exchanged_trans: "exchanged i j c d \<Longrightarrow> exchanged i j d e \<Longrightarrow> exchanged i j c e"
  unfolding exchanged_def by (simp add: same_leader_def same_follower_def) (meson rtranclp_trans)

lemma fenced_steps: "fenced cfgs c \<Longrightarrow> fenced_step\<^sup>*\<^sup>* c c' \<Longrightarrow> fenced cfgs c'"
  by (rotate_tac, induction rule: rtranclp_induct) (auto intro: reach.step)

text \<open>A follower keeps running.\<close>

lemma accept_leader_running [simp]: "server_running (accept_leader r s) = server_running s"
  by (simp add: accept_leader_def Let_def)

lemma append_entries_running: "append_entries r s = Some (t, rep) \<Longrightarrow> server_running t = server_running s"
  by (erule append_entries_shape) (auto dest!: apply_entries_frame(1))

lemma append_entries_keeps:
  assumes "append_entries r s = Some (t, rep)"
  shows "active t = active s" "dead t = dead s" "server_running t = server_running s"
  using keeps_timer_append_entries [OF assms] append_entries_running [OF assms] by (simp_all add: keeps_timer_def)

text \<open>The conditions of \<open>RaftCatchUp\<close> hold of both sides in a fenced execution.\<close>

lemma touch_ready:
  assumes f: "fenced cfgs c" and t: "in_touch i j c"
  shows "leader_ok j (nodes c i)" "follower_ready (currentTerm (nodes c i)) (nodes c j)"
    "logs_match (rlog (nodes c i)) (rlog (nodes c j))" "j \<in> set (members c)" "i64 j = j" "rid (nodes c i) = i"
proof -
  obtain g where inv: "cluster_inv c" "safe_with c g" "ready_with c" by (rule fenced_parts [OF f])
  have i: "i \<in> set (members c)" "currentRole (nodes c i) = Leader" and j: "j \<in> set (peers (nodes c i))"
    using t by (simp_all add: in_touch_def)
  note facts = inv_node_facts [OF inv(1,2) i(1)]
  show jm: "j \<in> set (members c)" by (rule facts(4) [OF j])
  show "i64 j = j" by (rule inv_ids(1) [OF inv(1) jm])
  show "rid (nodes c i) = i" by (rule facts(1))
  have "next_ok j (nodes c i)" using fenced_indices [OF f i j] by (simp add: next_ok_def)
  moreover have "\<forall>e \<in> set (rlog (nodes c i)). 0 < e_term e" using entries_positive [OF fenced_tame [OF f] i(1)] by fastforce
  ultimately show "leader_ok j (nodes c i)"
    using facts(2,3) inv_small [OF inv(1) i(1)] i(2) by (simp add: leader_ok_def)
  show "follower_ready (currentTerm (nodes c i)) (nodes c j)"
    using inv_node_facts(2) [OF inv(1,2) jm] inv_small [OF inv(1) jm] t by (simp add: follower_ready_def in_touch_def)
  have tm: "tame cfgs c" by (rule fenced_tame [OF f])
  show "logs_match (rlog (nodes c i)) (rlog (nodes c j))"
    by (rule tame_match [OF tm tame_log(1) [OF tm i(1)] tame_log(1) [OF tm jm]])
qed

text \<open>The three steps: a request is sent, served and answered.\<close>

lemma fenced_small: "fenced cfgs c \<Longrightarrow> k \<in> set (members c) \<Longrightarrow> log_size (nodes c k) < 2 ^ 62"
  using inv_small matching.always [OF fenced_tame] by blast

lemma fenced_stepI:
  assumes f: "fenced cfgs c" and ex: "exec ev c = Some c'" "fenced_event ev c"
    and small: "\<And>k. k \<in> set (members c) \<Longrightarrow> rlog (nodes c' k) = rlog (nodes c k) \<or> log_size (nodes c' k) < 2 ^ 62"
  shows "fenced_step c c'"
proof -
  have "log_size (nodes c' k) < 2 ^ 62" if "k \<in> set (members c)" for k
    using small [OF that] fenced_small [OF f that] by (auto simp: log_size_def)
  moreover have "members c' = members c" by (rule exec_members [OF ex(1)])
  ultimately show ?thesis unfolding fenced_step_def using ex by auto
qed

lemma can_request:
  assumes f: "fenced cfgs c" and t: "in_touch i j c"
  obtains d cs where "fenced cfgs d" "fenced_step\<^sup>*\<^sup>* c d" "members d = members c"
    "\<And>k. k \<noteq> i \<Longrightarrow> nodes d k = nodes c k" "core (nodes d i) = core (nodes c i)"
    "calls d = cs @ [AppReq i j (probe_request j (nodes d i)) (probe_ctx j (nodes d i))]"
proof -
  have i: "i \<in> set (members c)" "active (nodes c i)" "\<not> dead (nodes c i)" "currentRole (nodes c i) = Leader"
    "j \<in> set (peers (nodes c i))" using t by (simp_all add: in_touch_def)
  obtain b where b: "sending i c b" using can_send [OF tame_reachable [OF fenced_tame [OF f]] i(1-4)] by blast
  then have e: "elects c b" and core: "core (nodes b i) = core (nodes c i)"
    and others: "\<And>k. k \<noteq> i \<Longrightarrow> nodes b k = nodes c k" and th: "TAppendSend j \<in> set (threads (nodes b i))"
    using i(5) by (auto simp: sending_def timer_steps_def)
  have fb: "fenced cfgs b" "fenced_step\<^sup>*\<^sup>* c b" using elects_fenced [OF e f] by simp_all
  have mb: "members b = members c" using elects_logs [OF e] by simp
  have tb: "in_touch i j b" using t core others mb by (simp add: in_touch_def core_eq_iff)
  note ready = touch_ready [OF fb(1) tb]
  obtain k where k: "k < length (threads (nodes b i))" "threads (nodes b i) ! k = TAppendSend j"
    using th by (auto simp: in_set_conv_nth)
  define s where "s = nodes b i\<lparr>threads := remove_nth k (threads (nodes b i))\<rparr>"
  have s: "core s = core (nodes b i)" by (simp add: s_def)
  then have same: "probe_request j s = probe_request j (nodes b i)" "probe_ctx j s = probe_ctx j (nodes b i)"
    "next_ok j s" "rid s = i"
    using ready(1,6) by (simp_all add: probe_request_def probe_ctx_def core_eq_iff log_size_def leader_ok_def next_ok_def)
  define d where "d = put_node i s (b\<lparr>calls := calls b @ [AppReq i j (probe_request j s) (probe_ctx j s)],
    elections := elections b\<rparr>)"
  have "exec (EvThread i k 150) b = Some d"
    using i(1) mb k build_append_request_ok [OF same(3)]
    by (simp add: thread_op_def Let_def election_delay_def d_def s_def [symmetric] same(4))
  moreover have "fenced_event (EvThread i k 150) b" using k(2) tb by (simp add: in_touch_def)
  ultimately have "fenced_step b d"
    by (rule fenced_stepI [OF fb(1)]) (simp add: d_def s_def)
  with fb show thesis
  proof (intro that [of d "calls b"])
    show "core (nodes d i) = core (nodes c i)" using s core by (simp add: d_def)
  qed (auto simp: d_def others mb intro: reach.step)
qed

lemma answer_append:
  assumes f: "fenced cfgs d" and call: "calls d = cs @ [AppReq i j r ctx]" and j: "j \<in> set (members d)" "server_running (nodes d j)"
    and ae: "append_entries r (nodes d j) = Some (t, rep)" "log_size t < 2 ^ 62"
  shows "fenced_step d (put_node j t (d\<lparr>calls := cs @ [AppRep i j rep r ctx]\<rparr>))"
proof (rule fenced_stepI [OF f, of "EvDeliver (length cs)"])
  show "exec (EvDeliver (length cs)) d = Some (put_node j t (d\<lparr>calls := cs @ [AppRep i j rep r ctx]\<rparr>))"
    using call j ae(1) by (simp add: deliver_op_def service_AppendEntries_def)
qed (use ae(2) in auto)

lemma take_answer:
  assumes f: "fenced cfgs e" and call: "calls e = cs @ [AppRep i j rep r ctx]" and i: "i \<in> set (members e)"
    and h: "handle_append_reply j r ctx rep (nodes e i) = Some u" "rlog u = rlog (nodes e i)"
  shows "fenced_step e (put_node i u (e\<lparr>calls := cs\<rparr>))"
proof (rule fenced_stepI [OF f, of "EvReturn (length cs)"])
  show "exec (EvReturn (length cs)) e = Some (put_node i u (e\<lparr>calls := cs\<rparr>))"
    using call i h(1) by (simp add: return_op_def remove_nth_def)
qed (simp_all add: h(2))

text \<open>The request and the answer together, for whatever the two handlers make of them.\<close>

lemma request_answered:
  assumes f: "fenced cfgs d" and t: "in_touch i j d" and call: "calls d = cs @ [AppReq i j r ctx]"
    and ae: "append_entries r (nodes d j) = Some (v, rep)" "log_size v < 2 ^ 62" "currentTerm v = currentTerm (nodes d i)"
    and h: "handle_append_reply j r ctx rep (nodes d i) = Some u" "same_leader (nodes d i) u"
  obtains c' where "fenced cfgs c'" "exchanged i j d c'" "nodes c' i = u" "nodes c' j = v"
proof -
  have ij: "i \<in> set (members d)" "j \<noteq> i" "server_running (nodes d j)" "j \<in> set (members d)"
    using t touch_ready(4) [OF f t] by (simp_all add: in_touch_def)
  define e where "e = put_node j v (d\<lparr>calls := cs @ [AppRep i j rep r ctx]\<rparr>)"
  have s1: "fenced_step d e" unfolding e_def by (rule answer_append [OF f call ij(4,3) ae(1,2)])
  then have fe: "fenced cfgs e" using f by (blast intro: reach.step)
  define c' where "c' = put_node i u (e\<lparr>calls := cs\<rparr>)"
  have s2: "fenced_step e c'"
    unfolding c'_def by (rule take_answer [OF fe]) (use ij h in \<open>simp_all add: e_def same_leader_def\<close>)
  have n: "nodes c' = (nodes d)(j := v, i := u)" "members c' = members d" using ij(2) by (simp_all add: c'_def e_def)
  have "same_follower (currentTerm (nodes d i)) (nodes d j) v"
    using append_entries_keeps [OF ae(1)] ae(3) by (simp add: same_follower_def)
  then have "exchanged i j d c'"
    using s1 s2 h(2) ij(2) by (simp add: exchanged_def n)
  moreover have "fenced cfgs c'" using fe s2 by (blast intro: reach.step)
  ultimately show thesis using that n ij(2) by simp
qed

lemma exchanged_after:
  assumes "fenced_step\<^sup>*\<^sup>* c d" "members d = members c" "\<And>k. k \<noteq> i \<Longrightarrow> nodes d k = nodes c k"
    and "core (nodes d i) = core (nodes c i)" "exchanged i j d c'" "j \<noteq> i"
  shows "exchanged i j c c'"
proof -
  have "fenced_step\<^sup>*\<^sup>* c c'" using assms(1,5) unfolding exchanged_def by (meson rtranclp_trans)
  then show ?thesis using assms unfolding exchanged_def core_eq_iff same_leader_def same_follower_def by auto
qed

text \<open>A rejection moves \<^verbatim>\<open>nextIndex\<close> back and nothing else; an acceptance records the match and commits by the rule.\<close>

definition rejection :: "u64_t \<Rightarrow> raft \<Rightarrow> raft \<Rightarrow> bool" where
  "rejection j l l' \<longleftrightarrow>
     next_of j l' < next_of j l \<and> matchIndex l' = matchIndex l \<and> commitIndex l' = commitIndex l"

definition acceptance :: "u64_t \<Rightarrow> raft \<Rightarrow> raft \<Rightarrow> raft \<Rightarrow> bool" where
  "acceptance j l l' f' \<longleftrightarrow>
     matchIndex l' = (matchIndex l)(j \<mapsto> log_size l) \<and>
     commit_rule (rlog l) (currentTerm l) (peers l) (matchIndex l') (log_size l) (commitIndex l) (commitIndex l') \<and>
     commitIndex l \<le> commitIndex f'"

lemma exchange_rejected:
  assumes f: "fenced cfgs d" and t: "in_touch i j d"
    and call: "calls d = cs @ [AppReq i j (probe_request j (nodes d i)) (probe_ctx j (nodes d i))]"
    and no: "\<not> prev_agrees (probe_request j (nodes d i)) (rlog (nodes d j))"
  obtains c' where "fenced cfgs c'" "exchanged i j d c'" "rejection j (nodes d i) (nodes c' i)"
proof -
  let ?l = "nodes d i" and ?r = "probe_request j (nodes d i)" and ?f = "nodes d j"
  note ready = touch_ready [OF f t]
  have r: "ae_term ?r = currentTerm ?l" "in_i64 (ae_prev_log_index ?r)"
    using probe_request_ok [OF ready(1)] by (simp_all add: request_ok_def)
  have go: "active ?f" "currentTerm ?f \<le> ae_term ?r" using t r(1) by (simp_all add: in_touch_def)
  obtain info where info: "conflict_report ?r (rlog ?f) info"
    and ae: "append_entries ?r ?f = Some (accept_leader ?r ?f,
        \<lparr>aer_term = currentTerm ?l, aer_success = False, aer_conflict_info = Some info\<rparr>)"
    using append_entries_reject [OF go r(2) no] r(1) by auto
  obtain ni rc where ni: "1 \<le> ni" "ni < next_of j ?l"
    and h: "handle_append_reply j ?r (probe_ctx j ?l)
        \<lparr>aer_term = currentTerm ?l, aer_success = False, aer_conflict_info = Some info\<rparr> ?l =
      Some (?l\<lparr>replyCounter := rc, nextIndex := (nextIndex ?l)(i64 j \<mapsto> ni)\<rparr>)"
    by (rule leader_rejected_state [OF ready(1) info refl])
  have small: "log_size (accept_leader ?r ?f) < 2 ^ 62" "currentTerm (accept_leader ?r ?f) = currentTerm ?l"
    using fenced_small [OF f ready(4)] go(2) r(1) by (simp_all add: log_size_def)
  obtain c' where "fenced cfgs c'" "exchanged i j d c'"
    "nodes c' i = ?l\<lparr>replyCounter := rc, nextIndex := (nextIndex ?l)(i64 j \<mapsto> ni)\<rparr>"
    by (rule request_answered [OF f t call ae small h]) (simp_all add: same_leader_def)
  with that ni show thesis by (simp add: rejection_def)
qed

lemma exchange_accepted:
  assumes f: "fenced cfgs d" and t: "in_touch i j d"
    and call: "calls d = cs @ [AppReq i j (probe_request j (nodes d i)) (probe_ctx j (nodes d i))]"
    and yes: "prev_agrees (probe_request j (nodes d i)) (rlog (nodes d j))"
  obtains c' where "fenced cfgs c'" "exchanged i j d c'" "acceptance j (nodes d i) (nodes c' i) (nodes c' j)"
proof -
  let ?l = "nodes d i" and ?r = "probe_request j (nodes d i)" and ?f = "nodes d j"
  note ready = touch_ready [OF f t]
  have r: "request_ok (currentTerm ?l) ?r" by (rule probe_request_ok [OF ready(1)])
  have n: "next_ok j ?l" and lsize: "commitIndex ?l \<le> log_size ?l"
    using ready(1) fenced_parts [OF f] ready_settled [OF progress.always [OF f]] t
    by (auto simp: leader_ok_def settled_def in_touch_def)
  have go: "active ?f" "currentTerm ?f \<le> ae_term ?r" "node_sane ?f" "request_sane ?r ?f"
    using t r ready(2) by (simp_all add: in_touch_def request_ok_def request_sane_def follower_ready_def)
  obtain v where ae: "append_entries ?r ?f =
      Some (v, \<lparr>aer_term = currentTerm ?l, aer_success = True, aer_conflict_info = None\<rparr>)"
    and v: "currentTerm v = currentTerm ?l" "rlog v = accepted_log ?r (rlog ?f)"
      "commitIndex v = (if ae_leader_commit ?r > commitIndex ?f then min (ae_leader_commit ?r) (log_size v) else commitIndex ?f)"
    using append_entries_accept [OF go(1,2) yes go(3,4)] r by (auto simp: request_ok_def)
  have "accepted_log ?r (rlog ?f) = rlog ?l \<or> accepted_log ?r (rlog ?f) = rlog ?f"
    by (rule accepted_log_known [OF ready(3) yes]) (use n in \<open>auto simp: next_ok_def probe_request_def log_size_def\<close>)
  then have small: "log_size v < 2 ^ 62"
    using v(2) fenced_small [OF f ready(4)] fenced_small [OF f, of i] t by (auto simp: log_size_def in_touch_def)
  have "take (length (rlog ?l)) (rlog v) = rlog ?l" unfolding v(2) by (rule accepted_log_prefix [OF n yes ready(3)])
  then have "length (rlog ?l) \<le> length (rlog v)" by (metis length_take min.cobounded1)
  then have len: "log_size ?l \<le> log_size v" by (simp add: log_size_def)
  obtain ci rc la rq th where rule: "commit_rule (rlog ?l) (currentTerm ?l) (peers ?l)
      ((matchIndex ?l)(i64 j \<mapsto> log_size ?l)) (log_size ?l) (commitIndex ?l) ci"
    and h: "handle_append_reply j ?r (probe_ctx j ?l)
        \<lparr>aer_term = currentTerm ?l, aer_success = True, aer_conflict_info = None\<rparr> ?l =
      Some (?l\<lparr>replyCounter := rc, matchIndex := (matchIndex ?l)(i64 j \<mapsto> log_size ?l),
        nextIndex := (nextIndex ?l)(i64 j \<mapsto> log_size ?l + 1),
        commitIndex := ci, lastApplied := la, ready_queue := rq, threads := th\<rparr>)"
    by (rule leader_accepted_state [OF ready(1) refl])
  obtain c' where c': "fenced cfgs c'" "exchanged i j d c'" "nodes c' j = v"
    "nodes c' i = ?l\<lparr>replyCounter := rc, matchIndex := (matchIndex ?l)(i64 j \<mapsto> log_size ?l),
        nextIndex := (nextIndex ?l)(i64 j \<mapsto> log_size ?l + 1),
        commitIndex := ci, lastApplied := la, ready_queue := rq, threads := th\<rparr>"
    by (rule request_answered [OF f t call ae small v(1) h]) (simp_all add: same_leader_def)
  have "commitIndex ?l \<le> commitIndex v" using v(3) len lsize by (auto simp: probe_request_def)
  with c' rule ready(5) have "acceptance j ?l (nodes c' i) (nodes c' j)" by (simp add: acceptance_def)
  with c'(1,2) show thesis by (rule that)
qed

lemma exchange:
  assumes f: "fenced cfgs c" and t: "in_touch i j c"
  obtains c' where "fenced cfgs c'" "exchanged i j c c'"
    "rejection j (nodes c i) (nodes c' i) \<or> acceptance j (nodes c i) (nodes c' i) (nodes c' j)"
proof -
  obtain d cs where d: "fenced cfgs d" "fenced_step\<^sup>*\<^sup>* c d" "members d = members c"
      "\<And>k. k \<noteq> i \<Longrightarrow> nodes d k = nodes c k" "core (nodes d i) = core (nodes c i)"
    and call: "calls d = cs @ [AppReq i j (probe_request j (nodes d i)) (probe_ctx j (nodes d i))]"
    by (rule can_request [OF f t]) blast
  have ji: "j \<noteq> i" using t by (simp add: in_touch_def)
  have td: "in_touch i j d" using t d(3-5) by (simp add: in_touch_def core_eq_iff)
  obtain c' where c': "fenced cfgs c'" "exchanged i j d c'"
    "rejection j (nodes d i) (nodes c' i) \<or> acceptance j (nodes d i) (nodes c' i) (nodes c' j)"
    using exchange_rejected [OF d(1) td call] exchange_accepted [OF d(1) td call] by metis
  have "rejection j (nodes d i) l = rejection j (nodes c i) l" "acceptance j (nodes d i) l v = acceptance j (nodes c i) l v" for l v
    using d(5) by (simp_all add: core_eq_iff rejection_def acceptance_def log_size_def)
  with c' exchanged_after [OF d(2-5) c'(2) ji] that show thesis by simp
qed

text \<open>Exchanging until the follower accepts.\<close>

lemma exchange_until:
  assumes "fenced cfgs c" "in_touch i j c"
  shows "\<exists>c'. fenced cfgs c' \<and> exchanged i j c c' \<and> acceptance j (nodes c i) (nodes c' i) (nodes c' j)"
  using assms
proof (induction "nat (next_of j (nodes c i))" arbitrary: c rule: less_induct)
  case less
  obtain d where d: "fenced cfgs d" "exchanged i j c d"
    "rejection j (nodes c i) (nodes d i) \<or> acceptance j (nodes c i) (nodes d i) (nodes d j)"
    by (rule exchange [OF less.prems])
  show ?case
  proof (cases "rejection j (nodes c i) (nodes d i)")
    case False
    with d show ?thesis by blast
  next
    case True
    have td: "in_touch i j d" by (rule exchanged_in_touch [OF d(2) less.prems(2)])
    have "1 \<le> next_of j (nodes d i)" using touch_ready(1) [OF d(1) td] by (simp add: leader_ok_def next_ok_def)
    then have "nat (next_of j (nodes d i)) < nat (next_of j (nodes c i))" using True by (simp add: rejection_def)
    from less.hyps [OF this d(1) td] obtain c' where c': "fenced cfgs c'" "exchanged i j d c'"
      "acceptance j (nodes d i) (nodes c' i) (nodes c' j)" by blast
    have "acceptance j (nodes c i) (nodes c' i) (nodes c' j)"
      using c'(3) True d(2) by (auto simp: acceptance_def rejection_def exchanged_def same_leader_def log_size_def)
    with c' exchanged_trans [OF d(2) c'(2)] show ?thesis by blast
  qed
qed

section \<open>A majority agrees and commits\<close>

text \<open>The leader has brought the followers of a list up to date.\<close>

definition spread :: "u64_t \<Rightarrow> u64_t list \<Rightarrow> cluster \<Rightarrow> cluster \<Rightarrow> bool" where
  "spread i js c c' \<longleftrightarrow>
     fenced_step\<^sup>*\<^sup>* c c' \<and> members c' = members c \<and> same_leader (nodes c i) (nodes c' i) \<and>
     commitIndex (nodes c i) \<le> commitIndex (nodes c' i) \<and>
     (\<forall>k. k \<notin> set js \<longrightarrow> (k \<noteq> i \<longrightarrow> nodes c' k = nodes c k) \<and>
        map_get (matchIndex (nodes c' i)) k = map_get (matchIndex (nodes c i)) k) \<and>
     (\<forall>k \<in> set js. same_follower (currentTerm (nodes c i)) (nodes c k) (nodes c' k) \<and>
        map_get (matchIndex (nodes c' i)) k = log_size (nodes c i) \<and> commitIndex (nodes c i) \<le> commitIndex (nodes c' k))"

lemma acceptance_commits: "acceptance j l l' f' \<Longrightarrow> commitIndex l \<le> commitIndex l'"
  by (auto simp: acceptance_def commit_rule_def)

lemma can_spread:
  assumes "fenced cfgs c" "\<forall>j \<in> set js. in_touch i j c" "distinct js"
  shows "\<exists>c'. fenced cfgs c' \<and> spread i js c c'"
  using assms
proof (induction js arbitrary: c)
  case Nil
  then show ?case by (intro exI [of _ c]) (simp add: spread_def same_leader_def)
next
  case (Cons j js)
  have tj: "in_touch i j c" "j \<noteq> i" "j \<notin> set js" using Cons.prems(2,3) by (auto simp: in_touch_def)
  obtain d where d: "fenced cfgs d" "exchanged i j c d" "acceptance j (nodes c i) (nodes d i) (nodes d j)"
    using exchange_until [OF Cons.prems(1) tj(1)] by blast
  have same: "same_leader (nodes c i) (nodes d i)" "members d = members c" "fenced_step\<^sup>*\<^sup>* c d"
    and other: "\<And>k. k \<noteq> i \<Longrightarrow> k \<noteq> j \<Longrightarrow> nodes d k = nodes c k"
    and fj: "same_follower (currentTerm (nodes c i)) (nodes c j) (nodes d j)"
    using d(2) by (simp_all add: exchanged_def)
  have "in_touch i k d" if k: "k \<in> set js" for k
  proof -
    have "k \<noteq> i" "k \<noteq> j" "in_touch i k c" using k Cons.prems(2) tj(3) by (auto simp: in_touch_def)
    then show ?thesis using same other [of k] by (simp add: in_touch_def same_leader_def)
  qed
  then obtain c' where c': "fenced cfgs c'" "spread i js d c'"
    using Cons.IH [OF d(1)] Cons.prems(3) by auto
  have match: "map_get (matchIndex (nodes d i)) k = (if k = j then log_size (nodes c i) else map_get (matchIndex (nodes c i)) k)" for k
    using d(3) by (simp add: acceptance_def)
  have com: "commitIndex (nodes c i) \<le> commitIndex (nodes d i)" "commitIndex (nodes c i) \<le> commitIndex (nodes d j)"
    using d(3) acceptance_commits by (auto simp: acceptance_def)
  have size: "log_size (nodes d i) = log_size (nodes c i)" using same(1) by (simp add: same_leader_def log_size_def)
  have "nodes c' j = nodes d j" using c'(2) tj(2,3) by (simp add: spread_def)
  moreover have "nodes d k = nodes c k" if "k \<in> set js" for k
    using that other tj(3) Cons.prems(2) by (auto simp: in_touch_def)
  ultimately have "spread i (j # js) c c'"
    using c'(2) same fj com other match size tj(2,3) unfolding spread_def same_leader_def
    by (auto intro: rtranclp_trans order_trans)
  with c'(1) show ?case by blast
qed

text \<open>With a majority up to date, one more exchange commits the whole log of a leader whose last entry is of its term.\<close>

lemma majority_committable:
  assumes r: "reachable cfgs c" and Q: "running Q c" "length cfgs < 2 * card Q" "1 < length cfgs" and i: "i \<in> Q"
    and match: "\<forall>k \<in> Q - {i}. n \<le> map_get m k" and last: "e_term (rlog (nodes c i) ! nat (n - 1)) = T"
  shows "committable (rlog (nodes c i)) T (peers (nodes c i)) m n"
proof -
  have m: "Q \<subseteq> set (members c)" "i \<in> set (members c)" "active (nodes c i)"
    using Q(1) i by (auto simp: running_def)
  note peers = running_peers [OF r m(2,3) Q(3)] and inv = election_inv_node [OF election.always [OF r]]
  have card: "card (set (members c)) = length cfgs" by (rule card_members [OF r reachable_wf [OF r]])
  have "length (peers (nodes c i)) = card (set (peers (nodes c i)))" using peers m(2) card by simp
  then have d: "distinct (peers (nodes c i))" by (simp add: card_distinct)
  have ids: "i64 k = k" if "k \<in> set (peers (nodes c i))" for k
    using that peers(1) inv(1,2) [of k] by (intro id_i64) auto
  have fin: "finite Q" using m(1) finite_subset by blast
  have "Q - {i} \<subseteq> {k \<in> set (peers (nodes c i)). n \<le> map_get m k}" using m(1) match peers(1) by auto
  then have "card (Q - {i}) \<le> card {k \<in> set (peers (nodes c i)). n \<le> map_get m k}" by (intro card_mono) simp_all
  moreover have "card (Q - {i}) = card Q - 1" "0 < card Q" using i fin by (auto simp: card_gt_0_iff)
  ultimately have "int (card Q) \<le> count_match (peers (nodes c i)) m n"
    using count_match_card [OF d ids, of m n] by linarith
  then show ?thesis using Q(2,3) peers(2) last by (simp add: committable_def)
qed

lemma acceptance_commits_all:
  assumes "acceptance j l l' f'" "0 < log_size l" "settled l'" "rlog l' = rlog l"
    and "committable (rlog l) (currentTerm l) (peers l) (matchIndex l') (log_size l)"
  shows "commitIndex l' = log_size l"
proof -
  have "\<not> commitIndex l' < log_size l" using assms(1,5) by (auto simp: acceptance_def commit_rule_def)
  moreover have "commitIndex l' \<le> log_size l" using assms(3,4) by (simp add: settled_def log_size_def)
  ultimately show ?thesis by simp
qed

lemma leader_commits:
  assumes f: "fenced cfgs c" and Q: "running Q c" "length cfgs < 2 * card Q" "1 < length cfgs" and i: "i \<in> Q"
    and touch: "\<forall>k \<in> Q - {i}. in_touch i k c" and match: "\<forall>k \<in> Q - {i}. map_get (matchIndex (nodes c i)) k = log_size (nodes c i)"
    and last: "rlog (nodes c i) = l @ [e]" "e_term e = currentTerm (nodes c i)" and j: "j \<in> Q - {i}"
  obtains c' where "fenced cfgs c'" "exchanged i j c c'" "commitIndex (nodes c' i) = log_size (nodes c i)"
proof -
  have m: "i \<in> set (members c)" using Q(1) i by (auto simp: running_def)
  obtain c' where c': "fenced cfgs c'" "exchanged i j c c'" "acceptance j (nodes c i) (nodes c' i) (nodes c' j)"
    using exchange_until [OF f] touch j by blast
  have ns: "log_size (nodes c i) = int (length l) + 1" by (simp add: log_size_def last(1))
  have "e_term (rlog (nodes c i) ! nat (log_size (nodes c i) - 1)) = currentTerm (nodes c i)"
    by (simp add: ns) (simp add: last)
  moreover have "\<forall>k \<in> Q - {i}. log_size (nodes c i) \<le> map_get (matchIndex (nodes c' i)) k"
    using match c'(3) by (simp add: acceptance_def)
  ultimately have "committable (rlog (nodes c i)) (currentTerm (nodes c i)) (peers (nodes c i)) (matchIndex (nodes c' i))
      (log_size (nodes c i))"
    by (intro majority_committable [OF tame_reachable [OF fenced_tame [OF f]] Q i])
  moreover have "settled (nodes c' i)"
    using ready_settled [OF progress.always [OF c'(1)], of i] m c'(2) by (simp add: exchanged_def)
  moreover have "rlog (nodes c' i) = rlog (nodes c i)" using c'(2) by (simp add: exchanged_def same_leader_def)
  ultimately have "commitIndex (nodes c' i) = log_size (nodes c i)"
    using acceptance_commits_all [OF c'(3)] ns by simp
  with c'(1,2) show thesis by (rule that)
qed

text \<open>What the running nodes of a majority look like to its leader.\<close>

definition led_by :: "u64_t \<Rightarrow> u64_t set \<Rightarrow> cluster \<Rightarrow> bool" where
  "led_by i Q c \<longleftrightarrow>
     running Q c \<and> i \<in> Q \<and> currentRole (nodes c i) = Leader \<and> (\<forall>j \<in> Q. currentTerm (nodes c j) \<le> currentTerm (nodes c i))"

lemma led_in_touch:
  assumes "fenced cfgs c" "led_by i Q c" "1 < length cfgs"
  shows "\<forall>j \<in> Q - {i}. in_touch i j c"
proof
  fix j
  assume j: "j \<in> Q - {i}"
  have i: "i \<in> set (members c)" "active (nodes c i)" using assms(2) by (auto simp: led_by_def running_def)
  have "set (peers (nodes c i)) = set (members c) - {i}"
    by (rule running_peers(1) [OF tame_reachable [OF fenced_tame [OF assms(1)]] i assms(3)])
  with assms(2) j i show "in_touch i j c" by (auto simp: led_by_def running_def in_touch_def)
qed

lemma spread_led: "spread i js c c' \<Longrightarrow> led_by i Q c \<Longrightarrow> led_by i Q c'"
  unfolding spread_def led_by_def running_def same_leader_def same_follower_def
  by (metis order_refl)

lemma exchanged_led: "exchanged i j c c' \<Longrightarrow> led_by i Q c \<Longrightarrow> led_by i Q c'"
  unfolding exchanged_def led_by_def running_def same_leader_def same_follower_def
  by (metis order_refl)

section \<open>A new command is committed and applied\<close>

lemma fenced_results_grow: "fenced_step\<^sup>*\<^sup>* c c' \<Longrightarrow> prefix (ready_queue (nodes c i)) (ready_queue (nodes c' i))"
proof (induction rule: rtranclp_induct)
  case (step d e)
  then obtain ev where "exec ev d = Some e" by (auto simp: fenced_step_def)
  from applied.exec_law [OF this, of i] have "prefix (ready_queue (nodes d i)) (ready_queue (nodes e i))"
    by (auto simp: apply_law_def)
  with step.IH show ?case by (rule prefix_order.trans)
qed simp

lemma applied_length:
  assumes "fenced cfgs c" "i \<in> set (members c)"
  shows "int (length (ready_queue (nodes c i))) = commitIndex (nodes c i)"
proof -
  have s: "settled (nodes c i)" by (rule ready_settled [OF progress.always [OF assms(1)] assms(2)])
  have "length (ready_queue (nodes c i)) = length (take (nat (commitIndex (nodes c i))) (rlog (nodes c i)))"
    using arg_cong [OF fenced_applied(2) [OF assms], of length] by (simp only: length_map)
  with s show ?thesis by (auto simp: settled_def log_size_def)
qed

text \<open>No node of the majority considers more committed than its leader has in its log.\<close>

lemma led_committed:
  assumes f: "fenced cfgs c" and led: "led_by i Q c" and j: "j \<in> Q"
  shows "commitIndex (nodes c j) \<le> log_size (nodes c i)"
proof -
  have m: "i \<in> set (members c)" "j \<in> set (members c)" using led j by (auto simp: led_by_def running_def)
  have s: "settled (nodes c j)" by (rule ready_settled [OF progress.always [OF f] m(2)])
  have "prefix (take (nat (commitIndex (nodes c j))) (rlog (nodes c j))) (rlog (nodes c i))"
    by (rule fenced_leader_complete [OF f m(2,1)]) (use led j in \<open>simp_all add: led_by_def\<close>)
  from prefix_length_le [OF this] s show ?thesis by (auto simp: settled_def log_size_def)
qed

text \<open>Nodes that have applied equally many results have applied the same.\<close>

lemma equal_results:
  assumes f: "fenced cfgs c" and m: "i \<in> set (members c)" "j \<in> set (members c)"
    and n: "commitIndex (nodes c i) = commitIndex (nodes c j)"
  shows "ready_queue (nodes c i) = ready_queue (nodes c j)"
proof -
  have "length (ready_queue (nodes c i)) = length (ready_queue (nodes c j))"
    using applied_length [OF f m(1)] applied_length [OF f m(2)] n by simp
  with fenced_applied_agree [OF f m] show ?thesis by (auto simp: prefix_def)
qed

text \<open>From a leader whose last entry is of its term: all of the majority apply the leader's whole log.\<close>

lemma led_commit:
  assumes f: "fenced cfgs c" and Q: "led_by i Q c" "length cfgs < 2 * card Q" "1 < length cfgs"
    and last: "rlog (nodes c i) = l @ [e]" "e_term e = currentTerm (nodes c i)"
  obtains c' where "fenced cfgs c'" "fenced_step\<^sup>*\<^sup>* c c'" "led_by i Q c'" "rlog (nodes c' i) = rlog (nodes c i)"
    "\<forall>j \<in> Q. commitIndex (nodes c' j) = log_size (nodes c i)"
proof -
  have m: "Q \<subseteq> set (members c)" "i \<in> Q" using Q(1) by (auto simp: led_by_def running_def)
  have fin: "finite Q" using m(1) finite_subset by blast
  obtain js where js: "set js = Q - {i}" "distinct js" using finite_distinct_list [of "Q - {i}"] fin by blast
  have "0 < card (Q - {i})" using Q(2,3) m(2) fin by simp
  then obtain j where j: "j \<in> Q - {i}" by (metis card.empty ex_in_conv less_numeral_extra(3))
  have touch: "\<forall>k \<in> set js. in_touch i k x" if "fenced cfgs x" "led_by i Q x" for x
    using led_in_touch [OF that Q(3)] js(1) by simp
  obtain d where d: "fenced cfgs d" "spread i js c d" using can_spread [OF f touch [OF f Q(1)] js(2)] by blast
  have ld: "led_by i Q d" by (rule spread_led [OF d(2) Q(1)])
  have sd: "same_leader (nodes c i) (nodes d i)" "fenced_step\<^sup>*\<^sup>* c d" using d(2) by (simp_all add: spread_def)
  then have dl: "rlog (nodes d i) = l @ [e]" "e_term e = currentTerm (nodes d i)"
    using last by (simp_all add: same_leader_def)
  have match: "\<forall>k \<in> Q - {i}. map_get (matchIndex (nodes d i)) k = log_size (nodes d i)"
    using d(2) js(1) sd(1) by (auto simp: spread_def same_leader_def log_size_def)
  obtain x where x: "fenced cfgs x" "exchanged i j d x" "commitIndex (nodes x i) = log_size (nodes d i)"
    using leader_commits [OF d(1) _ Q(2,3) m(2) _ match dl j] ld led_in_touch [OF d(1) ld Q(3)]
    unfolding led_by_def by blast
  have lx: "led_by i Q x" by (rule exchanged_led [OF x(2) ld])
  have sx: "same_leader (nodes d i) (nodes x i)" "fenced_step\<^sup>*\<^sup>* d x" using x(2) by (simp_all add: exchanged_def)
  obtain c' where c': "fenced cfgs c'" "spread i js x c'" using can_spread [OF x(1) touch [OF x(1) lx] js(2)] by blast
  have lc: "led_by i Q c'" by (rule spread_led [OF c'(2) lx])
  have sc: "same_leader (nodes x i) (nodes c' i)" "fenced_step\<^sup>*\<^sup>* x c'" using c'(2) by (simp_all add: spread_def)
  have log: "rlog (nodes c' i) = rlog (nodes c i)" using sd(1) sx(1) sc(1) by (simp add: same_leader_def)
  have n: "log_size (nodes d i) = log_size (nodes c i)" "log_size (nodes c' i) = log_size (nodes c i)"
    using sd(1) log by (simp_all add: same_leader_def log_size_def)
  have "commitIndex (nodes c' k) = log_size (nodes c i)" if k: "k \<in> Q" for k
  proof (rule order_antisym)
    show "commitIndex (nodes c' k) \<le> log_size (nodes c i)" using led_committed [OF c'(1) lc k] n(2) by simp
    have "commitIndex (nodes x i) \<le> commitIndex (nodes c' k)"
      using c'(2) k js(1) by (cases "k = i") (auto simp: spread_def)
    then show "log_size (nodes c i) \<le> commitIndex (nodes c' k)" using x(3) n(1) by simp
  qed
  moreover have "fenced_step\<^sup>*\<^sup>* c c'" using sd(2) sx(2) sc(2) by (meson rtranclp_trans)
  ultimately show thesis using that c'(1) lc log by blast
qed

text \<open>A proposal to the leader.\<close>

lemma led_propose:
  assumes f: "fenced cfgs c" and led: "led_by i Q c" and room: "log_size (nodes c i) < 2 ^ 62 - 1"
  obtains c' where "fenced cfgs c'" "fenced_step c c'" "led_by i Q c'"
    "rlog (nodes c' i) = rlog (nodes c i) @ [\<lparr>e_term = currentTerm (nodes c' i), e_command = data\<rparr>]"
proof -
  have i: "i \<in> set (members c)" "currentRole (nodes c i) = Leader" using led by (auto simp: led_by_def running_def)
  define s where "s = fst (propose data (nodes c i))"
  have s: "s = nodes c i\<lparr>rlog := rlog (nodes c i) @ [\<lparr>e_term = currentTerm (nodes c i), e_command = data\<rparr>]\<rparr>"
    using i(2) by (simp add: s_def propose_def push_proposal_def Let_def)
  define c' where "c' = put_node i s c"
  have "exec (EvPropose i data) c = Some c'" using i(1) by (simp add: local_op_def c'_def s_def)
  then have st: "fenced_step c c'"
    by (rule fenced_stepI [OF f]) (use room in \<open>auto simp: c'_def s log_size_def\<close>)
  moreover have "fenced cfgs c'" using f st by (blast intro: reach.step)
  moreover have "led_by i Q c'" using led by (simp add: led_by_def running_def c'_def s)
  ultimately show thesis using that by (simp add: c'_def s)
qed

lemma can_commit:
  assumes f: "fenced cfgs c" and Q: "running Q c" "length cfgs < 2 * card Q" "1 < length cfgs"
    and room: "\<forall>j \<in> Q. log_size (nodes c j) < 2 ^ 62 - 1"
  shows "\<exists>c' results. fenced_step\<^sup>*\<^sup>* c c' \<and> running Q c' \<and> ar_data (last results) = data \<and>
    (\<forall>j \<in> Q. ready_queue (nodes c' j) = results \<and> strict_prefix (ready_queue (nodes c j)) results)"
proof -
  obtain d i where d: "elects c d" "led_by i Q d"
    using can_elect [OF tame_reachable [OF fenced_tame [OF f]] Q] unfolding led_by_def by blast
  have fd: "fenced cfgs d" "fenced_step\<^sup>*\<^sup>* c d" using elects_fenced [OF d(1) f] by simp_all
  have i: "i \<in> Q" "Q \<subseteq> set (members d)" using d(2) by (auto simp: led_by_def running_def)
  have "log_size (nodes d i) < 2 ^ 62 - 1" using room i(1) elects_logs [OF d(1)] by (simp add: log_size_def)
  then obtain e where e: "fenced cfgs e" "fenced_step d e" "led_by i Q e"
    "rlog (nodes e i) = rlog (nodes d i) @ [\<lparr>e_term = currentTerm (nodes e i), e_command = data\<rparr>]"
    by (rule led_propose [OF fd(1) d(2)])
  obtain c' where c': "fenced cfgs c'" "fenced_step\<^sup>*\<^sup>* e c'" "led_by i Q c'" "rlog (nodes c' i) = rlog (nodes e i)"
    "\<forall>j \<in> Q. commitIndex (nodes c' j) = log_size (nodes e i)"
    by (rule led_commit [OF e(1,3) Q(2,3) e(4)]) simp
  define results where "results = ready_queue (nodes c' i)"
  have m: "Q \<subseteq> set (members c')" using c'(3) by (simp add: led_by_def running_def)
  have im: "i \<in> set (members c')" using m i(1) by blast
  have n: "log_size (nodes e i) = log_size (nodes d i) + 1" by (simp add: log_size_def e(4))
  have dc: "fenced_step\<^sup>*\<^sup>* d c'" using e(2) c'(2) by (rule converse_rtranclp_into_rtranclp)
  have len: "int (length results) = log_size (nodes d i) + 1"
    using applied_length [OF c'(1) im] c'(5) i(1) n by (simp add: results_def)
  have "map ar_data results = map e_command (rlog (nodes d i)) @ [data]"
    using fenced_applied(2) [OF c'(1) im] c'(4,5) i(1) e(4) by (simp add: results_def log_size_def)
  then have "last (map ar_data results) = data" by simp
  moreover have "results \<noteq> []" using len by (auto simp: log_size_def)
  ultimately have last: "ar_data (last results) = data" by (simp add: last_map)
  have "ready_queue (nodes c' j) = results \<and> strict_prefix (ready_queue (nodes c j)) results" if j: "j \<in> Q" for j
  proof -
    have same: "ready_queue (nodes c' j) = results"
      unfolding results_def by (rule equal_results [OF c'(1)]) (use m j i(1) c'(5) in auto)
    have "int (length (ready_queue (nodes d j))) < int (length results)"
      using applied_length [OF fd(1), of j] led_committed [OF fd(1) d(2) j] i(2) j len by auto
    moreover have "prefix (ready_queue (nodes c j)) (ready_queue (nodes d j))" by (rule fenced_results_grow [OF fd(2)])
    ultimately have "length (ready_queue (nodes c j)) < length results" by (auto dest: prefix_length_le)
    moreover have "prefix (ready_queue (nodes c j)) results"
      using fenced_results_grow [OF rtranclp_trans [OF fd(2) dc], of j] same by simp
    ultimately show ?thesis using same by (auto simp: strict_prefix_def)
  qed
  moreover have "fenced_step\<^sup>*\<^sup>* c c'" using fd(2) dc by (rule rtranclp_trans)
  moreover have "running Q c'" using c'(3) by (simp add: led_by_def)
  ultimately show ?thesis using last by blast
qed

end
