(* ===== verification/ConfigGen.thy ===== *)
theory ConfigGen
  imports RaftCluster
begin

text \<open>
  \<^verbatim>\<open>inc/toolings/config_gen.hpp\<close>: the instances of a local or networked cluster and the Raft
  configurations made from them, and the same construction as the \<^verbatim>\<open>main\<close> functions of
  \<^verbatim>\<open>app/multinode.cpp\<close>, \<^verbatim>\<open>app/latency.cpp\<close> and \<^verbatim>\<open>app/tput.cpp\<close> write it out. The generated
  configurations are well-formed in the sense the cluster model starts from.
\<close>

section \<open>Instances\<close>

text \<open>\<^verbatim>\<open>gen_net_instances\<close> does not assign \<^verbatim>\<open>port\<close>: \<open>None\<close> is an indeterminate value.\<close>

record raft_instance_config =
  ic_id :: u64_t
  ic_port :: "u64_t option"
  ic_listening_addr :: string
  ic_external_addr :: string

definition local_instance :: "u64_t \<Rightarrow> u64_t \<Rightarrow> raft_instance_config" where
  "local_instance start_port i =
     (let port = u64 (start_port + i); addr = ''localhost:'' @ to_string port
      in \<lparr>ic_id = i, ic_port = Some port, ic_listening_addr = addr, ic_external_addr = addr\<rparr>)"

definition gen_local_instances :: "u64_t \<Rightarrow> u64_t \<Rightarrow> raft_instance_config list" where
  "gen_local_instances num_instances start_port =
     map (local_instance start_port) [0..num_instances - 1]"

definition gen_net_instances :: "string list \<Rightarrow> u64_t \<Rightarrow> raft_instance_config list" where
  "gen_net_instances addrs listening_port =
     map (\<lambda>i. \<lparr>ic_id = int i, ic_port = None,
               ic_listening_addr = ''0.0.0.0:'' @ to_string listening_port,
               ic_external_addr = addrs ! i @ '':'' @ to_string listening_port\<rparr>) [0..<length addrs]"

section \<open>Configurations\<close>

definition gen_peers :: "raft_instance_config list \<Rightarrow> u64_t \<Rightarrow> (u64_t \<times> string) list" where
  "gen_peers instances i =
     fold (\<lambda>peer m. if ic_id peer \<noteq> i then omap_put (ic_id peer) (ic_external_addr peer) m else m)
       instances []"

definition gen_raft_configs :: "raft_instance_config list \<Rightarrow> config list" where
  "gen_raft_configs instances =
     map (\<lambda>inst. \<lparr>cfg_id = ic_id inst, cfg_addr = ic_listening_addr inst,
                  cfg_peer_addrs = gen_peers instances (ic_id inst)\<rparr>) instances"

text \<open>The loop the drivers run over the instances: configurations and tester ports.\<close>

definition driver_peers :: "raft_instance_config list \<Rightarrow> raft_instance_config \<Rightarrow> (u64_t \<times> string) list" where
  "driver_peers insts inst =
     fold (\<lambda>peer m. if ic_id peer = ic_id inst then m
                    else omap_put (ic_id peer) (ic_external_addr peer) m) insts []"

definition driver_setup :: "raft_instance_config list \<Rightarrow> config list \<times> (u64_t \<rightharpoonup> u64_t)" where
  "driver_setup insts =
     (let (cfgs, ports, tester_port) =
        fold (\<lambda>inst (cfgs, ports, tester_port).
                (cfgs @ [\<lparr>cfg_id = ic_id inst, cfg_addr = ic_listening_addr inst,
                          cfg_peer_addrs = driver_peers insts inst\<rparr>],
                 ports(ic_id inst \<mapsto> tester_port), tester_port + 1))
             insts ([], Map.empty, 55001)
      in (cfgs, ports))"

section \<open>What is generated\<close>

lemma gen_local_ids [simp]: "map ic_id (gen_local_instances n p) = [0..n - 1]"
  by (simp add: gen_local_instances_def local_instance_def Let_def comp_def)

lemma gen_net_ids [simp]: "map ic_id (gen_net_instances addrs p) = map int [0..<length addrs]"
  by (simp add: gen_net_instances_def comp_def)

lemma gen_peers_fold:
  "sorted_wrt (<) (map fst m) \<Longrightarrow>
   sorted_wrt (<) (map fst (fold (\<lambda>peer m. if ic_id peer \<noteq> i then omap_put (ic_id peer) (ic_external_addr peer) m else m) insts m)) \<and>
   fst ` set (fold (\<lambda>peer m. if ic_id peer \<noteq> i then omap_put (ic_id peer) (ic_external_addr peer) m else m) insts m) =
     fst ` set m \<union> (ic_id ` set insts - {i})"
proof (induction insts arbitrary: m)
  case (Cons inst insts)
  show ?case
  proof (cases "ic_id inst = i")
    case True
    then show ?thesis using Cons by auto
  next
    case False
    have "sorted_wrt (<) (map fst (omap_put (ic_id inst) (ic_external_addr inst) m))"
      by (rule sorted_omap_put [OF Cons.prems])
    from Cons.IH [OF this] False show ?thesis by (auto simp: set_keys_omap_put)
  qed
qed simp

lemma gen_peers_keys: "fst ` set (gen_peers insts i) = ic_id ` set insts - {i}"
  using gen_peers_fold [of "[]" i insts] by (simp add: gen_peers_def)

lemma gen_peers_distinct: "distinct (map fst (gen_peers insts i))"
  using gen_peers_fold [of "[]" i insts] by (simp add: gen_peers_def strict_sorted_iff)

lemma gen_raft_configs_ids [simp]: "map cfg_id (gen_raft_configs insts) = map ic_id insts"
  by (simp add: gen_raft_configs_def)

lemma gen_raft_configs_wf:
  assumes "distinct (map ic_id insts)" "\<And>inst. inst \<in> set insts \<Longrightarrow> 0 \<le> ic_id inst \<and> ic_id inst < 2 ^ 63"
  shows "wf_configs (gen_raft_configs insts)"
  unfolding wf_configs_def gen_raft_configs_ids
  using assms by (auto simp: gen_raft_configs_def gen_peers_keys gen_peers_distinct)

lemma driver_peers_eq: "driver_peers insts inst = gen_peers insts (ic_id inst)"
  unfolding driver_peers_def gen_peers_def by (rule fold_cong) auto

lemma driver_setup_configs: "fst (driver_setup insts) = gen_raft_configs insts"
proof -
  let ?f = "\<lambda>inst. \<lparr>cfg_id = ic_id inst, cfg_addr = ic_listening_addr inst,
                     cfg_peer_addrs = driver_peers insts inst\<rparr>"
  have "fst (fold (\<lambda>inst (cfgs, ports, tester_port).
      (cfgs @ [?f inst], ports(ic_id inst \<mapsto> tester_port), tester_port + 1)) xs acc) = fst acc @ map ?f xs"
    for xs and acc :: "config list \<times> (u64_t \<rightharpoonup> u64_t) \<times> u64_t"
    by (induction xs arbitrary: acc) (auto split: prod.splits)
  from this [of insts "([], Map.empty, 55001)"] show ?thesis
    by (auto simp: driver_setup_def gen_raft_configs_def driver_peers_eq split: prod.splits)
qed

text \<open>Every node gets a tester port of its own, counted up from 55001.\<close>

lemma driver_fold_ports:
  fixes f :: "raft_instance_config \<Rightarrow> config"
  defines "step \<equiv> \<lambda>inst (cfgs, ports, tester_port).
      (cfgs @ [f inst], ports(ic_id inst \<mapsto> tester_port), tester_port + 1)"
  shows "i \<notin> ic_id ` set xs \<Longrightarrow> fst (snd (fold step xs (cs, ps :: u64_t \<rightharpoonup> u64_t, tp))) i = ps i"
    and "distinct (map ic_id xs) \<Longrightarrow> k < length xs \<Longrightarrow>
      fst (snd (fold step xs (cs, ps, tp))) (ic_id (xs ! k)) = Some (tp + int k)"
proof -
  show other: "i \<notin> ic_id ` set xs \<Longrightarrow> fst (snd (fold step xs (cs, ps, tp))) i = ps i" for i xs cs ps tp
    by (induction xs arbitrary: cs ps tp) (auto simp: step_def)
  show "distinct (map ic_id xs) \<Longrightarrow> k < length xs \<Longrightarrow>
      fst (snd (fold step xs (cs, ps, tp))) (ic_id (xs ! k)) = Some (tp + int k)"
  proof (induction xs arbitrary: cs ps tp k)
    case (Cons x xs)
    have unfold: "fold step (x # xs) (cs, ps, tp) = fold step xs (cs @ [f x], ps(ic_id x \<mapsto> tp), tp + 1)"
      by (simp add: step_def)
    show ?case
    proof (cases k)
      case 0
      with Cons.prems(1) show ?thesis unfolding unfold by (simp add: other)
    next
      case (Suc j)
      with Cons.prems Cons.IH [of j "cs @ [f x]" "ps(ic_id x \<mapsto> tp)" "tp + 1"] show ?thesis
        unfolding unfold by (simp del: fun_upd_apply add: ac_simps)
    qed
  qed simp
qed

lemma driver_setup_ports:
  assumes "distinct (map ic_id insts)" "k < length insts"
  shows "snd (driver_setup insts) (ic_id (insts ! k)) = Some (55001 + int k)"
  using driver_fold_ports(2) [OF assms, of "\<lambda>inst. \<lparr>cfg_id = ic_id inst, cfg_addr = ic_listening_addr inst,
      cfg_peer_addrs = driver_peers insts inst\<rparr>" "[]" Map.empty 55001]
  by (auto simp: driver_setup_def split: prod.splits)

text \<open>The nodes of a local cluster listen on different addresses while the ports do not wrap.\<close>

lemma gen_local_addrs_distinct:
  assumes "0 \<le> p" "p + n \<le> 2 ^ 64"
  shows "distinct (map ic_listening_addr (gen_local_instances n p))"
proof -
  have "u64 (p + i) = p + i" if "i \<in> set [0..n - 1]" for i using that assms by (simp add: u64_id)
  then have "inj_on (\<lambda>i. ''localhost:'' @ to_string (u64 (p + i))) (set [0..n - 1])"
    using assms(1) by (intro inj_onI) (auto simp: to_string_inj)
  then show ?thesis
    by (simp add: gen_local_instances_def local_instance_def Let_def comp_def distinct_map)
qed

text \<open>
  For a local cluster of \<open>n\<close> nodes whose ports fit, the drivers build the configurations of
  \<^verbatim>\<open>gen_raft_configs\<close>: distinct ids, every node knows exactly the others, the listening addresses are pairwise
  different, and node \<open>k\<close> gets the tester port 55001 + \<open>k\<close>.
\<close>

lemma driver_setup_correct:
  assumes "0 \<le> n" "n \<le> 2 ^ 63" "0 \<le> p" "p + n \<le> 2 ^ 64"
  shows "fst (driver_setup (gen_local_instances n p)) = gen_raft_configs (gen_local_instances n p) \<and>
    wf_configs (gen_raft_configs (gen_local_instances n p)) \<and>
    distinct (map cfg_addr (gen_raft_configs (gen_local_instances n p))) \<and>
    (\<forall>k. 0 \<le> k \<and> k < n \<longrightarrow> snd (driver_setup (gen_local_instances n p)) k = Some (55001 + k))"
proof (intro conjI allI impI)
  let ?insts = "gen_local_instances n p"
  show "fst (driver_setup ?insts) = gen_raft_configs ?insts" by (rule driver_setup_configs)
  have ids: "ic_id inst \<in> set [0..n - 1]" if "inst \<in> set ?insts" for inst
    using that gen_local_ids [of n p] by (metis image_eqI set_map)
  show "wf_configs (gen_raft_configs ?insts)"
    by (rule gen_raft_configs_wf) (use ids assms(2) in \<open>auto dest!: ids\<close>)
  have "map cfg_addr (gen_raft_configs ?insts) = map ic_listening_addr ?insts"
    by (simp add: gen_raft_configs_def)
  then show "distinct (map cfg_addr (gen_raft_configs ?insts))"
    using gen_local_addrs_distinct [OF assms(3,4)] by simp
  fix k
  assume k: "0 \<le> k \<and> k < n"
  have "nat k < length ?insts" using k by (simp add: gen_local_instances_def)
  moreover from this have "ic_id (?insts ! nat k) = k"
    using k gen_local_ids [of n p] by (metis add_0 int_nat_eq length_map nth_map nth_upto nat_less_iff zle_diff1_eq)
  ultimately show "snd (driver_setup ?insts) k = Some (55001 + k)"
    using driver_setup_ports [of ?insts "nat k"] k by simp
qed

end
