(* ===== verification/Scenarios.thy ===== *)
theory Scenarios
  imports CommitProgress ConfigGen
begin

text \<open>
  Concrete schedules of clusters made by \<^verbatim>\<open>ConfigGen\<close>, as lists of events. They witness the
  hypotheses of the cluster theorems, and they show the executions in which the code breaks a
  guarantee of Raft.
\<close>

text \<open>Sample states and messages for the theorems about one node.\<close>

definition sample_leader :: raft where
  "sample_leader = (Raft_new \<lparr>cfg_id = 0, cfg_addr = [], cfg_peer_addrs = []\<rparr> Leader)
     \<lparr>active := True, currentTerm := 3, peers := [1, 2], nextIndex := [1 \<mapsto> 3, 2 \<mapsto> 3],
      rlog := [\<lparr>e_term = 1, e_command = ''a''\<rparr>, \<lparr>e_term = 3, e_command = ''b''\<rparr>]\<rparr>"

definition sample_follower :: raft where
  "sample_follower = (Raft_new \<lparr>cfg_id = 1, cfg_addr = [], cfg_peer_addrs = []\<rparr> Follower)
     \<lparr>active := True, currentTerm := 2, rlog := [\<lparr>e_term = 2, e_command = ''c''\<rparr>]\<rparr>"

definition sample_request :: "i64_t \<Rightarrow> append_entries_request" where
  "sample_request prev =
     \<lparr>ae_term = 3, ae_leader_id = 0, ae_prev_log_index = prev, ae_prev_log_term = 1,
      ae_entries = [\<lparr>e_term = 3, e_command = ''b''\<rparr>], ae_leader_commit = 2\<rparr>"

definition cfgs_of_size :: "int \<Rightarrow> config list" where
  "cfgs_of_size n = gen_raft_configs (gen_local_instances n 50050)"

lemma wf_cfgs_of_size: "n < 2 ^ 63 \<Longrightarrow> wf_configs (cfgs_of_size n)"
proof -
  assume n: "n < 2 ^ 63"
  have "ic_id inst \<in> {0..n - 1}" if "inst \<in> set (gen_local_instances n 50050)" for inst
    using that gen_local_ids [of n 50050] by (metis atLeastAtMost_iff image_eqI set_map set_upto)
  moreover have "distinct (map ic_id (gen_local_instances n 50050))" by simp
  ultimately show ?thesis
    unfolding cfgs_of_size_def using n by (intro gen_raft_configs_wf) force+
qed

lemma length_cfgs_of_size [simp]: "length (cfgs_of_size n) = nat n"
  by (simp add: cfgs_of_size_def gen_raft_configs_def gen_local_instances_def)

definition start_all :: "int \<Rightarrow> event list" where
  "start_all n = map EvStartServer [0..n - 1] @ map (\<lambda>i. EvRun i 200) [0..n - 1]"

definition th :: "u64_t \<Rightarrow> nat \<Rightarrow> event" where
  "th i k = EvThread i k 200"

text \<open>The first election of node \<open>i\<close>, up to its threads that ask for votes.\<close>

definition campaign :: "u64_t \<Rightarrow> event list" where
  "campaign i = [th i 0, th i 0, th i 0, th i 0]"

definition run_from_start :: "int \<Rightarrow> event list \<Rightarrow> cluster option" where
  "run_from_start n evs = execs (start_all n @ evs) (init_cluster (cfgs_of_size n) (\<lambda>_. Leader))"

lemma run_from_start_reachable:
  "n < 2 ^ 63 \<Longrightarrow> run_from_start n evs = Some c \<Longrightarrow> reachable (cfgs_of_size n) c"
  unfolding run_from_start_def by (rule reachable_trace [OF wf_cfgs_of_size])

text \<open>One leader: node 0 of three wins its first election with the vote of node 1.\<close>

definition one_leader :: "event list" where
  "one_leader = campaign 0 @ [th 0 1, EvDeliver 0, EvReturn 0]"

text \<open>Two candidates of four: each collects one vote besides its own.\<close>

definition split_brain :: "event list" where
  "split_brain = campaign 0 @ campaign 1 @
     [th 0 2, th 1 3, EvDeliver 0, EvDeliver 1, EvReturn 0, EvReturn 0]"

text \<open>
  A stale sender. Node 0 leads term 1 with an entry \<open>x\<close> and has started its send threads; before
  they take the mutex, node 1 wins term 2, and commits and applies \<open>y\<close> with node 2. The send
  thread of node 0 then reads the new term and ships its old log as if it led term 2: node 2
  erases the committed \<open>y\<close>. Node 0 wins term 3 with the vote of node 2 and commits \<open>x\<close> at the
  index where node 1 has applied \<open>y\<close>.
\<close>

definition lead_term_1 :: "event list" where
  "lead_term_1 = one_leader @ [th 0 2, EvPropose 0 ''x'', th 0 2, th 0 2]"

definition commit_in_term_2 :: "event list" where
  "commit_in_term_2 =
     [th 1 1, th 1 1, th 1 1, th 1 2, th 1 2, th 1 2, EvDeliver 0, EvDeliver 1, EvReturn 1,
      EvPropose 1 ''y'', th 1 2, th 1 2, th 1 2, th 1 3, EvDeliver 1, EvReturn 1]"

definition stale_send :: "event list" where
  "stale_send = [th 0 3, EvDeliver 1]"

definition lead_term_3 :: "event list" where
  "lead_term_3 =
     [th 0 4, th 0 4, th 0 4, th 0 5, th 0 6, EvDeliver 2, EvReturn 2, EvPropose 0 ''z'',
      th 0 6, th 0 6, th 0 6, th 0 7, EvDeliver 2, EvReturn 2]"

definition lost_commit :: "event list" where
  "lost_commit = lead_term_1 @ commit_in_term_2 @ stale_send @ lead_term_3"

text \<open>
  A false acknowledgement. A client waits in \<^verbatim>\<open>propose_sync\<close> on the leader of term 1 for its
  command \<open>x\<close> at index 1. Node 1 wins term 2 and commits \<open>y\<close> at index 1; its request to node 0 makes
  node 0 step down, replaces \<open>x\<close> by \<open>y\<close> and raises the commit index in one critical section. The
  waiter wakes up only then.
\<close>

definition false_ack :: "event list" where
  "false_ack = one_leader @ [EvProposeSync 0 ''x''] @
     [th 1 1, th 1 1, th 1 1, th 1 2, th 1 3, EvDeliver 0, EvReturn 0, th 1 3, EvPropose 1 ''y'',
      th 1 3, th 1 3, th 1 4, EvDeliver 0, EvReturn 0, th 1 3, EvDeliver 0]"

text \<open>
  A read behind the end of the log. Node 0 leads term 3 with two entries that nobody else has, so
  its \<^verbatim>\<open>nextIndex\<close> is 3; its send threads have not run yet. Node 1 wins term 4 and replaces the log of
  node 0 by one entry. The send thread of node 0 then reads \<^verbatim>\<open>log[1]\<close> of a log of size 1.
\<close>

definition stale_next_index :: "event list" where
  "stale_next_index = one_leader @
     [EvPropose 0 ''x'', EvPropose 0 ''y'', th 1 1, th 1 1, th 1 1, th 1 2, th 1 2, EvDeliver 0, EvFail 0,
      th 0 3, th 0 3, th 0 3, th 0 4, th 0 5, EvDeliver 0, EvReturn 0, th 0 5, th 0 5, th 0 5] @
     [th 1 1, th 1 2, th 1 2, th 1 2, th 1 3, th 1 3, th 1 4, th 1 5, EvDeliver 0, EvReturn 0, th 1 5,
      EvPropose 1 ''z'', th 1 5, th 1 5, th 1 5, EvDeliver 0]"

text \<open>Normal operation: node 0 leads term 1, replicates \<open>x\<close> to node 1, commits and applies it.\<close>

definition replicated :: "event list" where
  "replicated = lead_term_1 @ [th 0 2, EvDeliver 0, EvReturn 0]"

definition view :: "(cluster \<Rightarrow> 'a) \<Rightarrow> int \<Rightarrow> event list \<Rightarrow> 'a option" where
  "view f n evs = map_option f (run_from_start n evs)"

lemma view_reachable:
  assumes "view f n evs = Some x" "n < 2 ^ 63"
  obtains c where "reachable (cfgs_of_size n) c" "f c = x"
  using assms run_from_start_reachable unfolding view_def by blast

definition leader_view :: "cluster \<Rightarrow> (u64_t \<times> i64_t) list" where
  "leader_view c =
     map (\<lambda>i. (i, currentTerm (nodes c i)))
       (filter (\<lambda>i. active (nodes c i) \<and> currentRole (nodes c i) = Leader) (members c))"

definition applied_view :: "cluster \<Rightarrow> (u64_t \<times> string) list list" where
  "applied_view c = map (\<lambda>i. map (\<lambda>r. (ar_index r, ar_data r)) (ready_queue (nodes c i))) (members c)"

lemma one_leader_counted: "view (\<lambda>c. (leader_view c, elections c)) 3 one_leader = Some ([(0, 1)], 1)"
  by code_simp

lemma one_leader_view: "view leader_view 3 one_leader = Some [(0, 1)]"
  using one_leader_counted by (auto simp: view_def)

lemma split_brain_view: "view leader_view 4 split_brain = Some [(0, 1), (1, 1)]"
  by code_simp

lemma lost_commit_view:
  "view applied_view 3 lost_commit = Some [[(1, ''x''), (2, ''z'')], [(1, ''y'')], []]"
  by code_simp

definition sync_view :: "cluster \<Rightarrow> thread list \<times> entry list \<times> proposal_result option" where
  "sync_view c =
     (filter is_sync (threads (nodes c 0)), rlog (nodes c 0),
      (case filter is_sync (threads (nodes c 0)) of
         TSyncWait cv i res awake # _ \<Rightarrow> snd (sync_wakeup cv i res (nodes c 0))
       | _ \<Rightarrow> None))"

lemma false_ack_view:
  "view sync_view 3 false_ack =
     Some ([TSyncWait 0 1 \<lparr>pr_index = Some 1, pr_term = Some 1, pr_is_leader = True\<rparr> True],
           [\<lparr>e_term = 2, e_command = ''y''\<rparr>],
           Some \<lparr>pr_index = Some 1, pr_term = Some 1, pr_is_leader = True\<rparr>)"
  by code_simp

text \<open>
  A torn read. In the last step of \<open>false_ack\<close> the leader of term 1 handles a request of term 2. A tester that reads
  its term after and its role before that step takes it for a second leader of term 2.
\<close>

definition torn_view :: "cluster \<Rightarrow> (u64_t \<times> i64_t) list \<times> nat \<times> ((u64_t \<times> i64_t) list \<times> nat \<times> i64_t \<times> bool) option" where
  "torn_view c =
     (leader_view c, elections c,
      map_option (\<lambda>c'. (leader_view c', elections c', currentTerm (nodes c' 0), active (nodes c' 0)))
        (exec (EvDeliver 0) c))"

lemma torn_read_view:
  "view torn_view 3 (butlast false_ack) = Some ([(0, 1), (1, 2)], 2, Some ([(1, 2)], 2, 2, True))"
  by code_simp

definition send_view :: "cluster \<Rightarrow> bool \<times> bool" where
  "send_view c =
     (TAppendSend 1 \<in> set (threads (nodes c 0)), build_append_request 1 (nodes c 0) = None)"

lemma stale_next_index_view: "view send_view 3 stale_next_index = Some (True, True)"
  by code_simp

section \<open>Executions with small logs\<close>

definition small_logs :: "cluster \<Rightarrow> bool" where
  "small_logs c \<longleftrightarrow> (\<forall>i \<in> set (members c). log_size (nodes c i) < 4611686018427387904)"

fun tame_execs :: "event list \<Rightarrow> cluster \<Rightarrow> cluster option" where
  "tame_execs [] c = Some c"
| "tame_execs (ev # evs) c =
     (case exec ev c of None \<Rightarrow> None | Some c' \<Rightarrow> if small_logs c' then tame_execs evs c' else None)"

lemma tame_execs_tame:
  "tame cfgs c \<Longrightarrow> tame_execs evs c = Some c' \<Longrightarrow> tame cfgs c'"
proof (induction evs arbitrary: c)
  case (Cons ev evs)
  then obtain d where d: "exec ev c = Some d" "small_logs d" "tame_execs evs d = Some c'"
    by (auto split: option.splits if_splits)
  then have "tame_step c d" by (auto simp: tame_step_def small_logs_def intro: cluster_step.event)
  with Cons d(3) show ?case by (blast intro: reach.step)
qed simp

definition tame_view :: "(cluster \<Rightarrow> 'a) \<Rightarrow> int \<Rightarrow> event list \<Rightarrow> 'a option" where
  "tame_view f n evs =
     map_option f (tame_execs (start_all n @ evs) (init_cluster (cfgs_of_size n) (\<lambda>_. Follower)))"

lemma tame_view_tame:
  assumes "tame_view f n evs = Some x" "n < 2 ^ 63" "odd (nat n)"
  obtains c where "tame (cfgs_of_size n) c" "f c = x" "members c = map cfg_id (cfgs_of_size n)"
proof -
  have "tame_init (cfgs_of_size n) (init_cluster (cfgs_of_size n) (\<lambda>_. Follower))"
    unfolding tame_init_def using wf_cfgs_of_size [OF assms(2)] assms(3)
    by (intro conjI exI [of _ "\<lambda>_. Follower"]) simp_all
  then have t: "tame (cfgs_of_size n) (init_cluster (cfgs_of_size n) (\<lambda>_. Follower))" by (rule reach.start)
  obtain c where "tame_execs (start_all n @ evs) (init_cluster (cfgs_of_size n) (\<lambda>_. Follower)) = Some c" "f c = x"
    using assms(1) by (auto simp: tame_view_def)
  with tame_execs_tame [OF t] members_invariant [OF tame_reachable] that show ?thesis by blast
qed

definition log_view :: "cluster \<Rightarrow> (role \<times> i64_t \<times> i64_t \<times> entry list) list" where
  "log_view c =
     map (\<lambda>i. (currentRole (nodes c i), currentTerm (nodes c i), commitIndex (nodes c i), rlog (nodes c i)))
       (members c)"

lemma replicated_view:
  "tame_view log_view 3 replicated =
     Some [(Leader, 1, 1, [\<lparr>e_term = 1, e_command = ''x''\<rparr>]), (Follower, 1, 0, [\<lparr>e_term = 1, e_command = ''x''\<rparr>]),
           (Follower, 0, 0, [])]"
  by code_simp

lemma cfg_ids_3: "map cfg_id (cfgs_of_size 3) = [0, 1, 2]"
  by code_simp

text \<open>The state the witnesses use.\<close>

lemma replicated_tame:
  obtains c where "tame (cfgs_of_size 3) c" "members c = [0, 1, 2]"
    "currentRole (nodes c 0) = Leader" "currentTerm (nodes c 0) = 1"
    "rlog (nodes c 0) = [\<lparr>e_term = 1, e_command = ''x''\<rparr>]"
    "rlog (nodes c 1) = [\<lparr>e_term = 1, e_command = ''x''\<rparr>]"
proof -
  obtain c where "tame (cfgs_of_size 3) c" "members c = [0, 1, 2]" "log_view c =
      [(Leader, 1, 1, [\<lparr>e_term = 1, e_command = ''x''\<rparr>]), (Follower, 1, 0, [\<lparr>e_term = 1, e_command = ''x''\<rparr>]),
       (Follower, 0, 0, [])]"
    using replicated_view by (rule tame_view_tame) (simp_all add: cfg_ids_3)
  with that show ?thesis by (simp add: log_view_def)
qed

section \<open>A fenced execution with two leaders\<close>

text \<open>
  Node 0 leads term 1 and commits \<open>x\<close> with node 1; node 1 wins term 2 with the vote of node 2,
  proposes \<open>y\<close>, repairs the log of node 2 and commits and applies both.
\<close>

definition two_terms :: "event list" where
  "two_terms = replicated @ replicate 5 (th 1 1) @
     [th 1 2, th 1 3, EvDeliver 0, EvReturn 0, EvPropose 1 ''y'', th 1 3, th 1 3, th 1 3, th 1 4, EvDeliver 0,
      EvReturn 0, th 1 4, th 1 4, th 1 4, th 1 5, EvDeliver 0, EvReturn 0]"

fun fenced_execs :: "event list \<Rightarrow> cluster \<Rightarrow> cluster option" where
  "fenced_execs [] c = Some c"
| "fenced_execs (ev # evs) c =
     (if fenced_event ev c
      then (case exec ev c of None \<Rightarrow> None | Some c' \<Rightarrow> if small_logs c' then fenced_execs evs c' else None)
      else None)"

lemma fenced_execs_fenced:
  "fenced cfgs c \<Longrightarrow> fenced_execs evs c = Some c' \<Longrightarrow> fenced cfgs c'"
proof (induction evs arbitrary: c)
  case (Cons ev evs)
  then obtain d where d: "fenced_event ev c" "exec ev c = Some d" "small_logs d" "fenced_execs evs d = Some c'"
    by (auto split: option.splits if_splits)
  have "\<forall>i \<in> set (members d). log_size (nodes d i) < 2 ^ 62" using d(3) by (simp add: small_logs_def)
  with d(1,2) have "fenced_step c d" unfolding fenced_step_def by blast
  from reach.step [OF Cons.prems(1) this] d(4) show ?case by (rule Cons.IH)
qed simp

text \<open>What is computed of a fenced run of three nodes holds of a state of a fenced execution.\<close>

lemma fenced_run_3:
  assumes "map_option f (fenced_execs (start_all 3 @ evs) (init_cluster (cfgs_of_size 3) (\<lambda>_. Follower))) = Some x"
  obtains c where "fenced (cfgs_of_size 3) c" "members c = [0, 1, 2]" "f c = x"
proof -
  let ?init = "init_cluster (cfgs_of_size 3) (\<lambda>_. Follower)"
  have "tame_init (cfgs_of_size 3) ?init"
    unfolding tame_init_def using wf_cfgs_of_size [of 3] by (intro conjI exI [of _ "\<lambda>_. Follower"]) simp_all
  then have init: "fenced (cfgs_of_size 3) ?init" by (rule reach.start)
  obtain c where c: "fenced_execs (start_all 3 @ evs) ?init = Some c" "f c = x"
    using assms by (auto simp: map_option_eq_Some)
  have f: "fenced (cfgs_of_size 3) c" by (rule fenced_execs_fenced [OF init c(1)])
  have "members c = [0, 1, 2]"
    using members_invariant [OF tame_reachable [OF fenced_tame [OF f]]] by (simp add: cfg_ids_3)
  with f c(2) show thesis by (intro that)
qed

text \<open>Leaders with their \<^verbatim>\<open>nextIndex\<close> for node 2, the committed prefixes, and what has been handed over.\<close>

definition safety_view :: "cluster \<Rightarrow> (role \<times> i64_t \<times> entry list \<times> string list) list \<times> u64_t list \<times> i64_t \<times> event list" where
  "safety_view c =
     (map (\<lambda>i. (currentRole (nodes c i), currentTerm (nodes c i),
          take (nat (commitIndex (nodes c i))) (rlog (nodes c i)), map ar_data (ready_queue (nodes c i)))) (members c),
      peers (nodes c 1), map_get (nextIndex (nodes c 1)) (i64 2),
      filter (\<lambda>ev. possible ev c \<and> fenced_event ev c) [th 1 3, th 1 4, EvDeliver 0])"

lemma two_terms_view:
  "map_option safety_view (fenced_execs (start_all 3 @ two_terms) (init_cluster (cfgs_of_size 3) (\<lambda>_. Follower))) =
     Some ([(Leader, 1, [\<lparr>e_term = 1, e_command = ''x''\<rparr>], [''x'']),
            (Leader, 2, [\<lparr>e_term = 1, e_command = ''x''\<rparr>, \<lparr>e_term = 2, e_command = ''y''\<rparr>], [''x'', ''y'']),
            (Follower, 2, [], [])], [0, 2], 3, [th 1 3, th 1 4])"
  by code_simp

lemma two_terms_fenced:
  obtains c where "fenced (cfgs_of_size 3) c" "members c = [0, 1, 2]" "currentRole (nodes c 1) = Leader"
    "currentTerm (nodes c 0) = 1" "currentTerm (nodes c 1) = 2" "map ar_data (ready_queue (nodes c 0)) = [''x'']"
    "map ar_data (ready_queue (nodes c 1)) = [''x'', ''y'']" "take (nat (commitIndex (nodes c 0))) (rlog (nodes c 0)) \<noteq> []"
    "2 \<in> set (peers (nodes c 1))" "next_of 2 (nodes c 1) = 3" "possible (th 1 3) c" "fenced_event (th 1 3) c"
proof -
  obtain c where f: "fenced (cfgs_of_size 3) c" and m: "members c = [0, 1, 2]"
    and v: "safety_view c = ([(Leader, 1, [\<lparr>e_term = 1, e_command = ''x''\<rparr>], [''x'']),
        (Leader, 2, [\<lparr>e_term = 1, e_command = ''x''\<rparr>, \<lparr>e_term = 2, e_command = ''y''\<rparr>], [''x'', ''y'']),
        (Follower, 2, [], [])], [0, 2], 3, [th 1 3, th 1 4])"
    by (rule fenced_run_3 [OF two_terms_view])
  have evs: "filter (\<lambda>ev. possible ev c \<and> fenced_event ev c) [th 1 3, th 1 4, EvDeliver 0] = [th 1 3, th 1 4]"
    using v unfolding safety_view_def prod.inject by blast
  have "th 1 3 \<in> set (filter (\<lambda>ev. possible ev c \<and> fenced_event ev c) [th 1 3, th 1 4, EvDeliver 0])"
    unfolding evs by simp
  then have ev: "possible (th 1 3) c" "fenced_event (th 1 3) c" by (simp_all only: set_filter mem_Collect_eq)
  have nodes: "map (\<lambda>i. (currentRole (nodes c i), currentTerm (nodes c i),
          take (nat (commitIndex (nodes c i))) (rlog (nodes c i)), map ar_data (ready_queue (nodes c i)))) [0, 1, 2] =
      [(Leader, 1, [\<lparr>e_term = 1, e_command = ''x''\<rparr>], [''x'']),
        (Leader, 2, [\<lparr>e_term = 1, e_command = ''x''\<rparr>, \<lparr>e_term = 2, e_command = ''y''\<rparr>], [''x'', ''y'']),
        (Follower, 2, [], [])]"
    and peers: "peers (nodes c 1) = [0, 2]" and ni: "next_of 2 (nodes c 1) = 3"
    using v unfolding safety_view_def m prod.inject by blast+
  note view = nodes [unfolded list.map list.inject prod.inject]
  have q: "take (nat (commitIndex (nodes c 0))) (rlog (nodes c 0)) = [\<lparr>e_term = 1, e_command = ''x''\<rparr>]"
    using view by blast
  show ?thesis
  proof (rule that [OF f m _ _ _ _ _ _ _ ni ev])
    show "currentRole (nodes c 1) = Leader" "currentTerm (nodes c 0) = 1" "currentTerm (nodes c 1) = 2"
      "map ar_data (ready_queue (nodes c 0)) = [''x'']" "map ar_data (ready_queue (nodes c 1)) = [''x'', ''y'']"
      using view by blast+
    show "take (nat (commitIndex (nodes c 0))) (rlog (nodes c 0)) \<noteq> []" unfolding q by (rule list.distinct(2))
    show "2 \<in> set (peers (nodes c 1))" unfolding peers by simp
  qed
qed

section \<open>A leader is killed\<close>

text \<open>The leader of term 2 is killed and its server stopped; nodes 0 and 2 keep running.\<close>

definition leader_killed :: "event list" where
  "leader_killed = two_terms @ [EvKill 1, EvStopServer 1]"

definition running_view :: "cluster \<Rightarrow> (bool \<times> bool \<times> bool \<times> nat \<times> string list) list" where
  "running_view c =
     map (\<lambda>i. (active (nodes c i), server_running (nodes c i), dead (nodes c i), length (rlog (nodes c i)),
          map ar_data (ready_queue (nodes c i)))) (members c)"

lemma leader_killed_view:
  "map_option running_view (fenced_execs (start_all 3 @ leader_killed) (init_cluster (cfgs_of_size 3) (\<lambda>_. Follower))) =
     Some [(True, True, False, 1, [''x'']), (True, False, True, 2, [''x'', ''y'']), (True, True, False, 2, [])]"
  by code_simp

lemma leader_killed_fenced:
  obtains c where "fenced (cfgs_of_size 3) c" "running {0, 2} c" "dead (nodes c 1)"
    "\<forall>j \<in> {0, 2}. log_size (nodes c j) < 2 ^ 62 - 1" "map ar_data (ready_queue (nodes c 0)) = [''x'']"
proof -
  obtain c where f: "fenced (cfgs_of_size 3) c" and m: "members c = [0, 1, 2]" and v: "running_view c =
      [(True, True, False, 1, [''x'']), (True, False, True, 2, [''x'', ''y'']), (True, True, False, 2, [])]"
    by (rule fenced_run_3 [OF leader_killed_view])
  note view = v [unfolded running_view_def m list.map list.inject prod.inject]
  have len: "length (rlog (nodes c 0)) = 1" "length (rlog (nodes c 2)) = 2" using view by blast+
  show thesis
  proof (rule that [OF f])
    show "running {0, 2} c" unfolding running_def m using view by simp
    show "\<forall>j \<in> {0, 2}. log_size (nodes c j) < 2 ^ 62 - 1" by (simp add: log_size_def len)
    show "map ar_data (ready_queue (nodes c 0)) = [''x'']" using view by blast
    show "dead (nodes c 1)" using view by blast
  qed
qed

end
