(* ===== verification/MsgQueue.thy ===== *)
theory MsgQueue
  imports Prelude "HOL-Library.Sublist"
begin

text \<open>
  Class \<^verbatim>\<open>MessageQueue\<close> (\<^verbatim>\<open>inc/toolings/msg_queue.hpp\<close>), the channel between a Raft node and the
  consumer of its results. A call that waits on a condition variable is a \<open>waiter\<close>: a thread
  that has released the mutex and evaluates its predicate again when it is woken; the flag beside it
  says whether it has been notified since it went to sleep. Every stretch of code under the mutex is
  one operation; \<open>qevent\<close> interleaves them. \<^verbatim>\<open>condition_variable::wait\<close> may wake up spuriously, so a
  waiter may be woken whether it has been notified or not.

  \<open>pushed\<close>, \<open>popped\<close> and \<open>taken\<close> are history variables: the values pushed and popped so far, and
  what the calls of \<^verbatim>\<open>dequeue\<close> and \<^verbatim>\<open>try_dequeue\<close> returned (\<open>None\<close> for the default value of a closed
  queue and for \<^verbatim>\<open>nullopt\<close>).
\<close>

section \<open>State and operations\<close>

text \<open>
  \<open>PushWait v\<close> is \<^verbatim>\<open>enqueue(v)\<close> in its first wait, \<open>DrainWait\<close> the second wait of an unbuffered
  \<^verbatim>\<open>enqueue\<close>, \<open>PopWait\<close> is \<^verbatim>\<open>dequeue\<close> in its wait.
\<close>

datatype 'a waiter = PushWait 'a | DrainWait | PopWait

record 'a mqueue =
  buffer_size :: nat
  closed :: bool
  queue :: "'a list"
  waiters :: "('a waiter \<times> bool) list"
  pushed :: "'a list"
  popped :: "'a list"
  taken :: "'a option list"

definition MessageQueue :: "nat \<Rightarrow> 'a mqueue" where
  "MessageQueue n =
     \<lparr>buffer_size = n, closed = False, queue = [], waiters = [], pushed = [], popped = [], taken = []\<rparr>"

text \<open>The predicates of the three waits.\<close>

fun wait_pred :: "'a waiter \<Rightarrow> 'a mqueue \<Rightarrow> bool" where
  "wait_pred (PushWait v) m \<longleftrightarrow>
     (if buffer_size m = 0 then queue m = [] \<or> closed m
      else length (queue m) < buffer_size m \<or> closed m)"
| "wait_pred DrainWait m \<longleftrightarrow> queue m = [] \<or> closed m"
| "wait_pred PopWait m \<longleftrightarrow> queue m \<noteq> [] \<or> closed m"

definition sleep_on :: "'a waiter \<Rightarrow> 'a mqueue \<Rightarrow> 'a mqueue" where
  "sleep_on w m = m\<lparr>waiters := waiters m @ [(w, False)]\<rparr>"

fun is_consumer :: "'a waiter \<Rightarrow> bool" where
  "is_consumer PopWait = True"
| "is_consumer _ = False"

text \<open>\<^verbatim>\<open>con_ready_.notify_all()\<close> and \<^verbatim>\<open>prod_ready_.notify_all()\<close>.\<close>

definition notify_con :: "'a mqueue \<Rightarrow> 'a mqueue" where
  "notify_con m = m\<lparr>waiters := map (\<lambda>(w, a). (w, a \<or> is_consumer w)) (waiters m)\<rparr>"

definition notify_prod :: "'a mqueue \<Rightarrow> 'a mqueue" where
  "notify_prod m = m\<lparr>waiters := map (\<lambda>(w, a). (w, a \<or> \<not> is_consumer w)) (waiters m)\<rparr>"

text \<open>What follows each wait once its predicate holds.\<close>

definition finish_push :: "'a \<Rightarrow> 'a mqueue \<Rightarrow> 'a mqueue" where
  "finish_push v m =
     (if closed m then m
      else
        let m1 = notify_con (m\<lparr>queue := queue m @ [v], pushed := pushed m @ [v]\<rparr>)
        in if buffer_size m1 = 0 \<and> \<not> wait_pred DrainWait m1 then sleep_on DrainWait m1 else m1)"

definition pop_front :: "'a mqueue \<Rightarrow> 'a mqueue" where
  "pop_front m =
     m\<lparr>queue := tl (queue m), popped := popped m @ [hd (queue m)], taken := taken m @ [Some (hd (queue m))]\<rparr>"

definition finish_pop :: "'a mqueue \<Rightarrow> 'a mqueue" where
  "finish_pop m =
     (if closed m then m\<lparr>taken := taken m @ [None]\<rparr> else notify_prod (pop_front m))"

definition enqueue :: "'a \<Rightarrow> 'a mqueue \<Rightarrow> 'a mqueue" where
  "enqueue v m = (if wait_pred (PushWait v) m then finish_push v m else sleep_on (PushWait v) m)"

definition dequeue :: "'a mqueue \<Rightarrow> 'a mqueue" where
  "dequeue m = (if wait_pred PopWait m then finish_pop m else sleep_on PopWait m)"

text \<open>\<^verbatim>\<open>try_dequeue\<close> does not notify the producers.\<close>

definition try_dequeue :: "'a mqueue \<Rightarrow> 'a mqueue" where
  "try_dequeue m = (if queue m = [] then m\<lparr>taken := taken m @ [None]\<rparr> else pop_front m)"

definition mq_close :: "'a mqueue \<Rightarrow> 'a mqueue" where
  "mq_close m = notify_con (notify_prod (m\<lparr>closed := True\<rparr>))"

definition mq_empty :: "'a mqueue \<Rightarrow> bool" where
  "mq_empty m = (queue m = [])"

definition mq_size :: "'a mqueue \<Rightarrow> nat" where
  "mq_size m = length (queue m)"

text \<open>
  Move assignment between two queues: this queue takes the contents and the capacity (its own
  \<^verbatim>\<open>closed\<close> stays), the other is left unbuffered and open; \<open>rest\<close> is the unspecified content of the
  moved-from container.
\<close>

definition move_assign :: "'a list \<Rightarrow> 'a mqueue \<Rightarrow> 'a mqueue \<Rightarrow> 'a mqueue \<times> 'a mqueue" where
  "move_assign rest this_q other =
     (this_q\<lparr>queue := queue other, buffer_size := buffer_size other\<rparr>,
      other\<lparr>queue := rest, buffer_size := 0, closed := False\<rparr>)"

text \<open>A woken waiter that gets the mutex: it goes on, or sleeps again.\<close>

fun resume :: "'a waiter \<Rightarrow> 'a mqueue \<Rightarrow> 'a mqueue" where
  "resume (PushWait v) m = enqueue v m"
| "resume DrainWait m = (if wait_pred DrainWait m then m else sleep_on DrainWait m)"
| "resume PopWait m = dequeue m"

section \<open>Executions\<close>

datatype 'a qevent = Enqueue 'a | Dequeue | TryDequeue | Close | Wake nat

fun qexec :: "'a qevent \<Rightarrow> 'a mqueue \<Rightarrow> 'a mqueue option" where
  "qexec (Enqueue v) m = Some (enqueue v m)"
| "qexec Dequeue m = Some (dequeue m)"
| "qexec TryDequeue m = Some (try_dequeue m)"
| "qexec Close m = Some (mq_close m)"
| "qexec (Wake k) m =
     (if k < length (waiters m)
      then Some (resume (fst (waiters m ! k)) (m\<lparr>waiters := remove_nth k (waiters m)\<rparr>))
      else None)"

fun qexecs :: "'a qevent list \<Rightarrow> 'a mqueue \<Rightarrow> 'a mqueue option" where
  "qexecs [] m = Some m"
| "qexecs (ev # evs) m = (case qexec ev m of None \<Rightarrow> None | Some m' \<Rightarrow> qexecs evs m')"

inductive qstep :: "'a mqueue \<Rightarrow> 'a mqueue \<Rightarrow> bool" where
  "qexec ev m = Some m' \<Longrightarrow> qstep m m'"

inductive_simps qstep_iff: "qstep m m'"

abbreviation mq_reachable :: "nat \<Rightarrow> 'a mqueue \<Rightarrow> bool" where
  "mq_reachable n \<equiv> reach (\<lambda>m. m = MessageQueue n) qstep"

lemma mq_reachable_qexecs: "mq_reachable n m \<Longrightarrow> qexecs evs m = Some m' \<Longrightarrow> mq_reachable n m'"
proof (induction evs arbitrary: m)
  case (Cons ev evs)
  then obtain d where "qexec ev m = Some d" "qexecs evs d = Some m'" by (auto split: option.splits)
  with Cons show ?case by (blast intro: reach.step qstep.intros)
qed simp

text \<open>A case analysis every invariant uses: an event is one of the operations, up to the waiters.\<close>

lemma qstep_cases:
  assumes "qstep m m'"
  obtains (push) v n where "n = m \<or> (\<exists>ws. n = m\<lparr>waiters := ws\<rparr>)" "m' = enqueue v n"
  | (pop) n where "n = m \<or> (\<exists>ws. n = m\<lparr>waiters := ws\<rparr>)" "m' = dequeue n"
  | (drain) n where "n = m \<or> (\<exists>ws. n = m\<lparr>waiters := ws\<rparr>)" "m' = resume DrainWait n"
  | (try_pop) "m' = try_dequeue m"
  | (close) "m' = mq_close m"
proof -
  obtain ev where ev: "qexec ev m = Some m'" using assms by (auto simp: qstep_iff)
  show ?thesis
  proof (cases ev)
    case (Wake k)
    let ?n = "m\<lparr>waiters := remove_nth k (waiters m)\<rparr>"
    have "m' = resume (fst (waiters m ! k)) ?n" using ev Wake by (auto split: if_splits)
    then show ?thesis using push [of ?n] pop [of ?n] drain [of ?n] by (cases "fst (waiters m ! k)") auto
  qed (use ev push [of m] pop [of m] try_pop close in auto)
qed

section \<open>First in, first out\<close>

text \<open>
  The contract of a channel: what has been received, followed by what is buffered, is what has been
  sent.
\<close>

locale fifo_channel =
  fixes init :: "'s \<Rightarrow> bool" and step :: "'s \<Rightarrow> 's \<Rightarrow> bool"
    and sent received buffered :: "'s \<Rightarrow> 'a list"
  assumes fifo_init: "init s \<Longrightarrow> sent s = received s @ buffered s"
    and fifo_step: "sent s = received s @ buffered s \<Longrightarrow> step s t \<Longrightarrow> sent t = received t @ buffered t"
begin

sublocale fifo: inductive_invariant init step "\<lambda>s. sent s = received s @ buffered s"
  by unfold_locales (auto intro: fifo_init fifo_step)

lemma received_prefix: "reach init step s \<Longrightarrow> prefix (received s) (sent s)"
  by (drule fifo.always) (simp add: prefix_def)

lemma all_received: "reach init step s \<Longrightarrow> buffered s = [] \<Longrightarrow> received s = sent s"
  by (drule fifo.always) simp

end

lemmas mq_defs = enqueue_def dequeue_def finish_push_def finish_pop_def pop_front_def try_dequeue_def
  mq_close_def sleep_on_def notify_con_def notify_prod_def

interpretation mq: fifo_channel "\<lambda>m. m = MessageQueue n" qstep pushed popped queue for n
proof
  fix m m' :: "'a mqueue"
  assume inv: "pushed m = popped m @ queue m" and "qstep m m'"
  from this(2) show "pushed m' = popped m' @ queue m'"
    by (cases rule: qstep_cases) (use inv in \<open>auto simp: mq_defs Let_def split: if_splits\<close>)
qed (simp add: MessageQueue_def)

text \<open>The values the consumers have got are the values popped, in that order.\<close>

interpretation returned: inductive_invariant "\<lambda>m. m = MessageQueue n" qstep
  "\<lambda>m. popped m = map the (filter (\<lambda>r. r \<noteq> None) (taken m))" for n
proof
  fix m m' :: "'a mqueue"
  assume inv: "popped m = map the (filter (\<lambda>r. r \<noteq> None) (taken m))" and "qstep m m'"
  from this(2) show "popped m' = map the (filter (\<lambda>r. r \<noteq> None) (taken m'))"
    by (cases rule: qstep_cases) (use inv in \<open>auto simp: mq_defs Let_def split: if_splits\<close>)
qed (simp add: MessageQueue_def)

section \<open>Capacity\<close>

definition within_capacity :: "'a mqueue \<Rightarrow> bool" where
  "within_capacity m \<longleftrightarrow> length (queue m) \<le> max 1 (buffer_size m)"

interpretation capacity: inductive_invariant "\<lambda>m. m = MessageQueue n" qstep
  "\<lambda>m. buffer_size m = n \<and> within_capacity m" for n
proof
  fix m m' :: "'a mqueue"
  assume inv: "buffer_size m = n \<and> within_capacity m" and "qstep m m'"
  from this(2) show "buffer_size m' = n \<and> within_capacity m'"
    by (cases rule: qstep_cases) (use inv in \<open>auto simp: mq_defs within_capacity_def Let_def split: if_splits\<close>)
qed (simp add: MessageQueue_def within_capacity_def)

section \<open>Wake-ups\<close>

text \<open>
  No thread sleeps through its chance: a waiter that has not been notified has a false predicate.
\<close>

definition no_lost_wakeup :: "'a mqueue \<Rightarrow> bool" where
  "no_lost_wakeup m \<longleftrightarrow> (\<forall>w. (w, False) \<in> set (waiters m) \<longrightarrow> \<not> wait_pred w m)"

text \<open>Executions of clients that use the blocking interface only.\<close>

definition blocking_step :: "'a mqueue \<Rightarrow> 'a mqueue \<Rightarrow> bool" where
  "blocking_step m m' \<longleftrightarrow> (\<exists>ev. ev \<noteq> TryDequeue \<and> qexec ev m = Some m')"

lemma no_lost_wakeup_remove:
  "no_lost_wakeup m \<Longrightarrow> no_lost_wakeup (m\<lparr>waiters := remove_nth k (waiters m)\<rparr>)"
proof -
  have "wait_pred w (m\<lparr>waiters := ws\<rparr>) = wait_pred w m" for w ws by (cases w) simp_all
  then show "no_lost_wakeup m \<Longrightarrow> no_lost_wakeup (m\<lparr>waiters := remove_nth k (waiters m)\<rparr>)"
    by (auto simp: no_lost_wakeup_def dest: in_set_remove_nthD)
qed

lemma wait_pred_waiters [simp]: "wait_pred w (m\<lparr>waiters := ws\<rparr>) = wait_pred w m"
  by (cases w) simp_all

lemma sleep_no_lost: "no_lost_wakeup m \<Longrightarrow> \<not> wait_pred w m \<Longrightarrow> no_lost_wakeup (sleep_on w m)"
  by (auto simp: no_lost_wakeup_def sleep_on_def)

lemma close_no_lost: "no_lost_wakeup (mq_close m)"
  by (auto simp: no_lost_wakeup_def mq_close_def notify_con_def notify_prod_def)

lemma push_no_lost:
  assumes "no_lost_wakeup m"
  shows "no_lost_wakeup (notify_con (m\<lparr>queue := queue m @ [v], pushed := p\<rparr>))"
proof -
  have "\<not> wait_pred w (m\<lparr>queue := queue m @ [v], pushed := p\<rparr>)"
    if "\<not> wait_pred w m" "\<not> is_consumer w" for w
    using that by (cases w) (auto split: if_splits)
  with assms show ?thesis by (auto simp: no_lost_wakeup_def notify_con_def) (metis (full_types))
qed

lemma finish_push_no_lost: "no_lost_wakeup m \<Longrightarrow> no_lost_wakeup (finish_push v m)"
  unfolding finish_push_def Let_def
  by (simp del: wait_pred.simps add: push_no_lost sleep_no_lost)

lemma enqueue_no_lost: "no_lost_wakeup m \<Longrightarrow> no_lost_wakeup (enqueue v m)"
  by (simp del: wait_pred.simps add: enqueue_def finish_push_no_lost sleep_no_lost)

lemma dequeue_no_lost:
  assumes "no_lost_wakeup m"
  shows "no_lost_wakeup (dequeue m)"
proof (cases "wait_pred PopWait m")
  case False
  then show ?thesis by (simp add: dequeue_def sleep_no_lost assms del: wait_pred.simps)
next
  case True
  have same: "wait_pred w (m\<lparr>taken := t\<rparr>) = wait_pred w m" for w t by (cases w) simp_all
  have "\<not> wait_pred w (pop_front m)" if "is_consumer w" "\<not> wait_pred w m" for w
    using that by (cases w) (auto simp: pop_front_def)
  then have "no_lost_wakeup (notify_prod (pop_front m))"
    using assms by (auto simp: no_lost_wakeup_def notify_prod_def pop_front_def)
  with True assms same show ?thesis by (simp add: dequeue_def finish_pop_def no_lost_wakeup_def)
qed

interpretation awake: inductive_invariant "\<lambda>m. m = MessageQueue n" blocking_step no_lost_wakeup for n
proof
  fix m m' :: "'a mqueue"
  assume inv: "no_lost_wakeup m" and "blocking_step m m'"
  then obtain ev where ev: "ev \<noteq> TryDequeue" "qexec ev m = Some m'" by (auto simp: blocking_step_def)
  show "no_lost_wakeup m'"
  proof (cases ev)
    case (Wake k)
    let ?n = "m\<lparr>waiters := remove_nth k (waiters m)\<rparr>"
    have n: "no_lost_wakeup ?n" by (rule no_lost_wakeup_remove [OF inv])
    have "m' = resume (fst (waiters m ! k)) ?n" using ev Wake by (auto split: if_splits)
    then show ?thesis
      using enqueue_no_lost [OF n] dequeue_no_lost [OF n] sleep_no_lost [OF n, of DrainWait] n
      by (cases "fst (waiters m ! k)") (auto simp del: wait_pred.simps)
  qed (use ev inv in \<open>auto simp: enqueue_no_lost dequeue_no_lost close_no_lost\<close>)
qed (simp add: MessageQueue_def no_lost_wakeup_def)

text \<open>
  With \<^verbatim>\<open>try_dequeue\<close> a producer can be forgotten: a queue of capacity one, one value stored, a
  second producer asleep; \<^verbatim>\<open>try_dequeue\<close> empties the queue and notifies nobody.
\<close>

definition forgotten_producer :: "int qevent list" where
  "forgotten_producer = [Enqueue 1, Enqueue 2, TryDequeue]"

lemma forgotten_producer_run:
  "qexecs forgotten_producer (MessageQueue 1) =
     Some \<lparr>buffer_size = 1, closed = False, queue = [], waiters = [(PushWait 2, False)],
           pushed = [1], popped = [1], taken = [Some 1]\<rparr>"
  by (simp add: forgotten_producer_def mq_defs MessageQueue_def Let_def)

section \<open>Closing\<close>

text \<open>After \<^verbatim>\<open>close\<close> nothing is stored and \<^verbatim>\<open>dequeue\<close> hands out nothing that is stored.\<close>

lemma closed_dequeue: "closed m \<Longrightarrow> dequeue m = m\<lparr>taken := taken m @ [None]\<rparr>"
  by (simp add: dequeue_def finish_pop_def)

lemma closed_enqueue: "closed m \<Longrightarrow> enqueue v m = m"
  by (simp add: enqueue_def finish_push_def)

lemma closed_resume: "closed m \<Longrightarrow> resume w m = (case w of PopWait \<Rightarrow> m\<lparr>taken := taken m @ [None]\<rparr> | _ \<Rightarrow> m)"
  by (cases w) (simp_all add: closed_dequeue closed_enqueue)

lemma closed_exec:
  assumes "qexec ev m = Some m'" "closed m" "ev \<noteq> TryDequeue"
  shows "closed m'" "queue m' = queue m" "pushed m' = pushed m" "popped m' = popped m"
proof -
  have "closed m' \<and> queue m' = queue m \<and> pushed m' = pushed m \<and> popped m' = popped m"
    using assms by (cases ev) (auto simp: closed_dequeue closed_enqueue closed_resume mq_close_def
      notify_con_def notify_prod_def split: if_splits waiter.splits)
  then show "closed m'" "queue m' = queue m" "pushed m' = pushed m" "popped m' = popped m" by blast+
qed

lemma closed_execs:
  assumes "qexecs evs m = Some m'" "closed m" "TryDequeue \<notin> set evs"
  shows "closed m' \<and> queue m' = queue m \<and> pushed m' = pushed m \<and> popped m' = popped m"
  using assms
proof (induction evs arbitrary: m)
  case (Cons ev evs)
  then obtain d where d: "qexec ev m = Some d" "qexecs evs d = Some m'" by (auto split: option.splits)
  have "ev \<noteq> TryDequeue" using Cons.prems(3) by auto
  from Cons.IH [OF d(2)] closed_exec [OF d(1) Cons.prems(2) this] Cons.prems(3) show ?case by auto
qed simp

end
