(* ===== verification/NetIntercept.thy ===== *)
theory NetIntercept
  imports RaftNode
begin

text \<open>
  The client interceptors of \<^verbatim>\<open>inc/common/utils/net_intercepter.hpp\<close>: fault injection
  (\<^verbatim>\<open>NetInterceptor\<close>) and traffic counting (\<^verbatim>\<open>ByteCountingInterceptor\<close>). Their state is static,
  one per process. The locale \<open>fault_injector\<close> is what the tester service and the command loop rely
  on when they take nodes off the network and bring them back.
\<close>

section \<open>Fault injection\<close>

datatype net_interception_type = NETWORK_FAILURE | NETWORK_PARTITION

record net =
  net_type :: net_interception_type
  rank1 :: "string set"
  rank2 :: "string set"

text \<open>Static storage is zero-initialised: the first enumerator and empty sets.\<close>

definition net_initial :: net where
  "net_initial = \<lparr>net_type = NETWORK_FAILURE, rank1 = {}, rank2 = {}\<rparr>"

text \<open>The loop over the metadata: the last value of each key counts.\<close>

definition scan_meta :: "(string \<times> string) list \<Rightarrow> string option \<times> string option" where
  "scan_meta meta =
     fold (\<lambda>(key, val) (from, to).
             if key = ''from'' then (Some val, to) else if key = ''to'' then (from, Some val) else (from, to))
       meta (None, None)"

definition net_blocks :: "net \<Rightarrow> string \<Rightarrow> string \<Rightarrow> bool" where
  "net_blocks n from to =
     (case net_type n of
        NETWORK_FAILURE \<Rightarrow> from \<in> rank2 n \<or> to \<in> rank2 n
      | NETWORK_PARTITION \<Rightarrow>
          from \<in> rank1 n \<and> to \<in> rank2 n \<or> to \<in> rank1 n \<and> from \<in> rank2 n)"

text \<open>
  \<open>Some st\<close>: the call is hijacked and fails with status \<open>st\<close>; \<open>None\<close>: it proceeds. \<open>pre_send\<close> is
  \<^verbatim>\<open>QueryInterceptionHookPoint(PRE_SEND_MESSAGE)\<close>.
\<close>

definition Intercept :: "bool \<Rightarrow> (string \<times> string) list \<Rightarrow> net \<Rightarrow> grpc_status option" where
  "Intercept pre_send meta n =
     (if pre_send then
        (case scan_meta meta of
           (Some from, Some to) \<Rightarrow> if net_blocks n from to then Some StatusUnavailable else None
         | _ \<Rightarrow> None)
      else None)"

definition net_disconnect :: "string \<Rightarrow> net \<Rightarrow> net" where
  "net_disconnect i n =
     (if i \<in> rank1 n then n\<lparr>rank1 := rank1 n - {i}, rank2 := insert i (rank2 n)\<rparr> else n)"

definition net_reconnect :: "string \<Rightarrow> net \<Rightarrow> net" where
  "net_reconnect i n =
     (if i \<in> rank2 n then n\<lparr>rank2 := rank2 n - {i}, rank1 := insert i (rank1 n)\<rparr> else n)"

definition setup_rank :: "string set \<Rightarrow> net \<Rightarrow> net" where
  "setup_rank ids n = n\<lparr>rank1 := ids, rank2 := {}\<rparr>"

definition set_type :: "net_interception_type \<Rightarrow> net \<Rightarrow> net" where
  "set_type t n = n\<lparr>net_type := t\<rparr>"

section \<open>Traffic counting\<close>

text \<open>\<^verbatim>\<open>size_t\<close> atomics wrap around.\<close>

record byte_counter =
  total_bytes_sent :: "64 word"
  total_rpc_count :: "64 word"

text \<open>\<open>dump\<close>: the slice sizes when \<^verbatim>\<open>buffer->Dump\<close> succeeds.\<close>

definition ByteCounting_Intercept :: "bool \<Rightarrow> 64 word list option \<Rightarrow> byte_counter \<Rightarrow> byte_counter" where
  "ByteCounting_Intercept pre_send dump b =
     (if pre_send then
        let b1 = (case dump of
                    Some slices \<Rightarrow> b\<lparr>total_bytes_sent := total_bytes_sent b + fold (\<lambda>x acc. acc + x) slices 0\<rparr>
                  | None \<Rightarrow> b)
        in b1\<lparr>total_rpc_count := total_rpc_count b1 + 1\<rparr>
      else b)"

definition get_total_rpc_count :: "byte_counter \<Rightarrow> 64 word" where
  "get_total_rpc_count b = total_rpc_count b"

definition get_total_bytes_sent :: "byte_counter \<Rightarrow> 64 word" where
  "get_total_bytes_sent b = total_bytes_sent b"

definition setup_rpc_monitor :: byte_counter where
  "setup_rpc_monitor = \<lparr>total_bytes_sent = 0, total_rpc_count = 0\<rparr>"

section \<open>The interface of fault injection\<close>

locale fault_injector =
  fixes down :: "'n \<Rightarrow> 'i set" and world :: "'n \<Rightarrow> 'i set"
    and disconnect reconnect :: "'i \<Rightarrow> 'n \<Rightarrow> 'n"
  assumes down_disconnect: "down (disconnect i n) = (if i \<in> world n then insert i (down n) else down n)"
    and down_reconnect: "down (reconnect i n) = down n - {i}"
    and world_disconnect: "world (disconnect i n) = world n"
    and world_reconnect: "world (reconnect i n) = world n"
begin

lemma disconnect_all:
  "down (fold disconnect is n) = down n \<union> (set is \<inter> world n)"
  "world (fold disconnect is n) = world n"
  by (induction "is" arbitrary: n) (auto simp: down_disconnect world_disconnect)

lemma reconnect_all:
  "down (fold reconnect is n) = down n - set is"
  "world (fold reconnect is n) = world n"
  by (induction "is" arbitrary: n) (auto simp: down_reconnect world_reconnect)

text \<open>Bringing back what was taken off restores the network, if it was whole.\<close>

lemma round_trip: "down n = {} \<Longrightarrow> down (fold reconnect is (fold disconnect is n)) = {}"
  by (auto simp: disconnect_all reconnect_all)

end

definition net_world :: "net \<Rightarrow> string set" where
  "net_world n = rank1 n \<union> rank2 n"

interpretation netf: fault_injector rank2 net_world net_disconnect net_reconnect
  by unfold_locales (auto simp: net_world_def net_disconnect_def net_reconnect_def)

text \<open>The sets partition the world the interceptor was set up with.\<close>

definition net_ok :: "string set \<Rightarrow> net \<Rightarrow> bool" where
  "net_ok W n \<longleftrightarrow> net_world n = W \<and> rank1 n \<inter> rank2 n = {}"

lemma net_ok_ops:
  "net_ok W (setup_rank W n)"
  "net_ok W n \<Longrightarrow> net_ok W (net_disconnect i n)"
  "net_ok W n \<Longrightarrow> net_ok W (net_reconnect i n)"
  "net_ok W n \<Longrightarrow> net_ok W (set_type t n)"
  by (auto simp: net_ok_def net_world_def setup_rank_def net_disconnect_def net_reconnect_def set_type_def)

lemma net_ok_fold:
  "net_ok W n \<Longrightarrow> net_ok W (fold net_disconnect is n)"
  "net_ok W n \<Longrightarrow> net_ok W (fold net_reconnect is n)"
  by (induction "is" arbitrary: n) (auto simp: net_ok_ops)

lemma net_type_fold [simp]:
  "net_type (fold net_disconnect is n) = net_type n" "net_type (fold net_reconnect is n) = net_type n"
  by (induction "is" arbitrary: n) (auto simp: net_disconnect_def net_reconnect_def)

lemma net_blocks_iff:
  assumes "net_ok W n" "a \<in> W" "b \<in> W"
  shows "net_blocks n a b \<longleftrightarrow>
    (case net_type n of NETWORK_FAILURE \<Rightarrow> a \<in> rank2 n \<or> b \<in> rank2 n
     | NETWORK_PARTITION \<Rightarrow> (a \<in> rank2 n) \<noteq> (b \<in> rank2 n))"
  using assms by (auto simp: net_blocks_def net_ok_def net_world_def split: net_interception_type.split)

lemma net_blocks_sym: "net_blocks n a b = net_blocks n b a"
  by (auto simp: net_blocks_def split: net_interception_type.split)

section \<open>Calls of a Raft node\<close>

lemma scan_create_context: "scan_meta (create_context to s) = (Some (to_string (rid s)), Some (to_string to))"
  by (simp add: scan_meta_def create_context_def)

lemma Intercept_call:
  "Intercept True (create_context to s) n =
   (if net_blocks n (to_string (rid s)) (to_string to) then Some StatusUnavailable else None)"
  by (simp add: Intercept_def scan_create_context)

text \<open>The process of a node after \<^verbatim>\<open>Prepare\<close> for the ids \<open>M\<close> and a \<^verbatim>\<open>Disconnect\<close> of \<open>is\<close>.\<close>

definition isolated_net :: "u64_t list \<Rightarrow> u64_t list \<Rightarrow> net_interception_type \<Rightarrow> net \<Rightarrow> net" where
  "isolated_net M is t n =
     fold net_disconnect (map to_string is) (set_type t (setup_rank (to_string ` set M) n))"

lemma isolated_net_down:
  assumes "\<forall>i \<in> set M \<union> set is. 0 \<le> i" "a \<in> set M"
  shows "to_string a \<in> rank2 (isolated_net M is t n) \<longleftrightarrow> a \<in> set is"
proof -
  have "rank2 (isolated_net M is t n) = to_string ` set is \<inter> to_string ` set M"
    by (simp add: isolated_net_def netf.disconnect_all net_world_def setup_rank_def set_type_def)
  then show ?thesis using assms by (auto simp: to_string_inj)
qed

lemma isolated_net_ok: "net_ok (to_string ` set M) (isolated_net M is t n)"
  unfolding isolated_net_def by (intro net_ok_fold net_ok_ops)

lemma isolated_net_calls:
  assumes "\<forall>i \<in> set M \<union> set is. 0 \<le> i" "rid s \<in> set M" "to \<in> set M"
  shows "Intercept True (create_context to s) (isolated_net M is t n) = None \<longleftrightarrow>
    (case t of NETWORK_FAILURE \<Rightarrow> rid s \<notin> set is \<and> to \<notin> set is
     | NETWORK_PARTITION \<Rightarrow> rid s \<in> set is \<longleftrightarrow> to \<in> set is)"
proof -
  let ?n = "isolated_net M is t n" and ?a = "to_string (rid s)" and ?b = "to_string to"
  have "net_type ?n = t" by (simp add: isolated_net_def set_type_def)
  moreover have "?a \<in> rank2 ?n \<longleftrightarrow> rid s \<in> set is" "?b \<in> rank2 ?n \<longleftrightarrow> to \<in> set is"
    using isolated_net_down [OF assms(1)] assms(2,3) by blast+
  moreover have "net_blocks ?n ?a ?b \<longleftrightarrow>
      (case net_type ?n of NETWORK_FAILURE \<Rightarrow> ?a \<in> rank2 ?n \<or> ?b \<in> rank2 ?n
       | NETWORK_PARTITION \<Rightarrow> (?a \<in> rank2 ?n) \<noteq> (?b \<in> rank2 ?n))"
    by (rule net_blocks_iff [OF isolated_net_ok]) (use assms(2,3) in auto)
  ultimately show ?thesis by (cases t) (simp_all add: Intercept_call)
qed

text \<open>With nobody disconnected every call goes through.\<close>

lemma nobody_down: "rank2 n = {} \<Longrightarrow> Intercept pre meta n = None"
  by (simp add: Intercept_def net_blocks_def split: prod.split option.split net_interception_type.split)

section \<open>Counters\<close>

lemma count_calls:
  "total_rpc_count (fold (ByteCounting_Intercept True) dumps b) = total_rpc_count b + of_nat (length dumps)"
  by (induction dumps arbitrary: b) (auto simp: ByteCounting_Intercept_def Let_def split: option.split)

lemma fold_add_word: "fold (\<lambda>x acc. acc + x) xs (a :: 64 word) = a + sum_list xs"
  by (induction xs arbitrary: a) (auto simp: algebra_simps)

lemma count_bytes:
  "total_bytes_sent (fold (ByteCounting_Intercept True) dumps b) =
   total_bytes_sent b + sum_list (map (\<lambda>d. case d of Some xs \<Rightarrow> sum_list xs | None \<Rightarrow> 0) dumps)"
  by (induction dumps arbitrary: b)
    (auto simp: ByteCounting_Intercept_def Let_def fold_add_word add.assoc split: option.split)

end
