(* ===== verification/RaftWrapper.thy ===== *)
theory RaftWrapper
  imports NodeLaws MsgQueue NetIntercept
begin

text \<open>
  Class \<^verbatim>\<open>RaftWrapper\<close> (\<^verbatim>\<open>inc/toolings/raft_wrapper.hpp\<close>): a Raft node with the tester's RPC service,
  which starts and stops it, injects network faults into its process, reads its state and streams its
  applied results. It joins the node (\<open>RaftNode\<close>), the interceptors (\<open>NetIntercept\<close>) and the queue
  between them (\<open>MsgQueue\<close>). gRPC servers and stubs are flags.
\<close>

section \<open>State and messages\<close>

text \<open>
  \<open>wid\<close> is the private \<^verbatim>\<open>id\<close> of the wrapper, \<open>None\<close> while it has not been assigned; \<open>wstop\<close> is
  \<^verbatim>\<open>stop\<close>, which the second constructor does not initialise.
\<close>

record wrapper =
  wnode :: raft
  wid :: "u64_t option"
  with_ctrl :: bool
  node_svr :: bool
  ctrl_svr :: bool
  wready :: "apply_result mqueue"
  wstop :: "bool option"

text \<open>The static state of the interceptors, one per process.\<close>

record process =
  p_net :: net
  p_bytes :: byte_counter

record rpc_stats =
  rs_bytes :: "64 word"
  rs_count :: "64 word"
  rs_id :: "u64_t option"

record tester_state =
  ts_term :: u64_t
  ts_is_leader :: bool
  ts_id :: "u64_t option"

record tester_proposal =
  tp_index :: "u64_t option"
  tp_term :: "u64_t option"
  tp_is_leader :: bool
  tp_id :: "u64_t option"

record tester_apply =
  ta_valid :: bool
  ta_data :: string
  ta_index :: u64_t
  ta_id :: "u64_t option"

section \<open>Construction and clean-up\<close>

text \<open>
  With a controller: the RPC service runs and readiness is reported before \<^verbatim>\<open>id\<close> is assigned. The
  second component is the id reported.
\<close>

definition wrapper_serving :: "config \<Rightarrow> role \<Rightarrow> apply_result mqueue \<Rightarrow> wrapper \<times> u64_t" where
  "wrapper_serving cfg garbage q =
     (\<lparr>wnode = Raft_new cfg garbage, wid = None, with_ctrl = True, node_svr = True, ctrl_svr = True,
       wready = q, wstop = Some False\<rparr>, cfg_id cfg)"

definition RaftWrapper_ctrl :: "config \<Rightarrow> role \<Rightarrow> apply_result mqueue \<Rightarrow> wrapper" where
  "RaftWrapper_ctrl cfg garbage q = (fst (wrapper_serving cfg garbage q))\<lparr>wid := Some (cfg_id cfg)\<rparr>"

definition RaftWrapper_plain :: "config \<Rightarrow> role \<Rightarrow> apply_result mqueue \<Rightarrow> wrapper" where
  "RaftWrapper_plain cfg garbage q =
     \<lparr>wnode = Raft_new cfg garbage, wid = None, with_ctrl = False, node_svr = False, ctrl_svr = False,
      wready = q, wstop = None\<rparr>"

text \<open>
  What the constructor does on the way, member function by member function. \<open>listens\<close> is whether gRPC can bind an
  address: \<^verbatim>\<open>BuildAndStart\<close> returns null when it cannot. A stub that is null is \<open>None\<close>, undefined.
\<close>

definition connect_to_ctrl :: "wrapper \<Rightarrow> wrapper" where
  "connect_to_ctrl w = w\<lparr>ctrl_svr := True\<rparr>"

definition run_tester_node_server :: "(string \<Rightarrow> bool) \<Rightarrow> u64_t \<Rightarrow> wrapper \<Rightarrow> wrapper" where
  "run_tester_node_server listens t_node_port w = w\<lparr>node_svr := listens (''localhost:'' @ to_string t_node_port)\<rparr>"

definition report_ready :: "u64_t \<Rightarrow> int \<Rightarrow> wrapper \<Rightarrow> (u64_t \<times> int) defined" where
  "report_ready i pid w = (if ctrl_svr w then Some (i, pid) else None)"

definition RaftWrapper_boot ::
  "(string \<Rightarrow> bool) \<Rightarrow> u64_t \<Rightarrow> int \<Rightarrow> config \<Rightarrow> role \<Rightarrow> apply_result mqueue \<Rightarrow> (wrapper \<times> u64_t \<times> int) defined" where
  "RaftWrapper_boot listens t_node_port pid cfg garbage q = do {
     let w = \<lparr>wnode = Raft_new cfg garbage, wid = None, with_ctrl = True, node_svr = False, ctrl_svr = False,
              wready = q, wstop = Some False\<rparr>;
     let w1 = run_tester_node_server listens t_node_port (connect_to_ctrl w);
     meta \<leftarrow> report_ready (cfg_id cfg) pid w1;
     Some (w1\<lparr>wid := Some (cfg_id cfg)\<rparr>, meta)
   }"

text \<open>\<^verbatim>\<open>start_svr_loop\<close> waits on the server, which has to be there.\<close>

definition start_svr_loop :: "wrapper \<Rightarrow> unit defined" where
  "start_svr_loop w = (if node_svr w then Some () else None)"

definition wrapper_cleanup :: "wrapper \<Rightarrow> wrapper" where
  "wrapper_cleanup w = w\<lparr>node_svr := False, ctrl_svr := False, wready := mq_close (wready w)\<rparr>"

section \<open>The tester's service\<close>

definition failure_type :: "int \<Rightarrow> net_interception_type" where
  "failure_type failure =
     (if failure = 0 then NETWORK_FAILURE else if failure = 1 then NETWORK_PARTITION else NETWORK_FAILURE)"

text \<open>Every command answers \<^verbatim>\<open>success = true\<close> and status OK.\<close>

definition Prepare :: "u64_t list \<Rightarrow> int \<Rightarrow> process \<Rightarrow> process \<times> bool \<times> grpc_status" where
  "Prepare world fail_type p =
     (let ids = fold (\<lambda>i s. insert (to_string i) s) world {};
          n = set_type (failure_type fail_type) (setup_rank ids (p_net p))
      in (p\<lparr>p_net := n, p_bytes := setup_rpc_monitor\<rparr>, True, StatusOK))"

definition Run :: "int \<Rightarrow> wrapper \<Rightarrow> wrapper \<times> bool \<times> grpc_status" where
  "Run timer w = (w\<lparr>wnode := run timer (connect_peers (wnode w))\<rparr>, True, StatusOK)"

definition Kill :: "wrapper \<Rightarrow> wrapper \<times> bool \<times> grpc_status" where
  "Kill w = (w\<lparr>wnode := stop_server (kill (wnode w))\<rparr>, True, StatusOK)"

definition Disconnect :: "u64_t list \<Rightarrow> process \<Rightarrow> process \<times> bool \<times> grpc_status" where
  "Disconnect ids p =
     (p\<lparr>p_net := fold (\<lambda>i n. net_disconnect (to_string i) n) ids (p_net p)\<rparr>, True, StatusOK)"

definition Reconnect :: "u64_t list \<Rightarrow> process \<Rightarrow> process \<times> bool \<times> grpc_status" where
  "Reconnect ids p =
     (p\<lparr>p_net := fold (\<lambda>i n. net_reconnect (to_string i) n) ids (p_net p)\<rparr>, True, StatusOK)"

definition GetRPCStats :: "wrapper \<Rightarrow> process \<Rightarrow> rpc_stats" where
  "GetRPCStats w p =
     \<lparr>rs_bytes = get_total_bytes_sent (p_bytes p), rs_count = get_total_rpc_count (p_bytes p), rs_id = wid w\<rparr>"

text \<open>The node is in state \<open>s\<close> when its term is read and in state \<open>s'\<close> when its role is read (see \<open>get_state\<close>).\<close>

definition GetState :: "raft \<Rightarrow> raft \<Rightarrow> wrapper \<Rightarrow> tester_state" where
  "GetState s s' w =
     (let st = get_state s s'
      in \<lparr>ts_term = st_term st, ts_is_leader = st_is_leader st, ts_id = wid w\<rparr>)"

definition tester_result :: "wrapper \<Rightarrow> proposal_result \<Rightarrow> tester_proposal" where
  "tester_result w r =
     \<lparr>tp_index = pr_index r, tp_term = pr_term r, tp_is_leader = pr_is_leader r, tp_id = wid w\<rparr>"

definition Propose :: "string \<Rightarrow> wrapper \<Rightarrow> wrapper \<times> tester_proposal" where
  "Propose data w =
     (case propose data (wnode w) of (s, r) \<Rightarrow> (w\<lparr>wnode := s\<rparr>, tester_result w r))"

text \<open>\<open>None\<close>: the call is still waiting.\<close>

definition ProposeSync :: "string \<Rightarrow> wrapper \<Rightarrow> wrapper \<times> tester_proposal option" where
  "ProposeSync data w =
     (case propose_sync data (wnode w) of (s, r) \<Rightarrow> (w\<lparr>wnode := s\<rparr>, map_option (tester_result w) r))"

section \<open>Streaming applied results\<close>

text \<open>\<^verbatim>\<open>T{}\<close> for \<^verbatim>\<open>ApplyResult\<close>, which \<^verbatim>\<open>dequeue\<close> returns on a closed queue.\<close>

definition default_result :: apply_result where
  "default_result = \<lparr>ar_valid = False, ar_data = [], ar_index = 0\<rparr>"

definition dequeue_value :: "apply_result option \<Rightarrow> apply_result" where
  "dequeue_value r = (case r of Some x \<Rightarrow> x | None \<Rightarrow> default_result)"

definition apply_message :: "wrapper \<Rightarrow> apply_result \<Rightarrow> tester_apply" where
  "apply_message w r = \<lparr>ta_valid = ar_valid r, ta_data = ar_data r, ta_index = ar_index r, ta_id = wid w\<rparr>"

text \<open>
  The loop of \<^verbatim>\<open>applier\<close> on what its iterations read: \<^verbatim>\<open>stop\<close>, the dequeued result, \<^verbatim>\<open>stop\<close> again. The
  result is what has been written and whether the loop is still running after these iterations.
\<close>

fun applier :: "wrapper \<Rightarrow> (bool \<times> apply_result \<times> bool) list \<Rightarrow> tester_apply list \<times> bool" where
  "applier w [] = ([], True)"
| "applier w ((stop1, result, stop2) # rest) =
     (if stop1 then ([], False)
      else if stop2 then ([], False)
      else if ar_valid result then
        (case applier w rest of (ms, running) \<Rightarrow> (apply_message w result # ms, running))
      else applier w rest)"

definition Apply :: "wrapper \<Rightarrow> (bool \<times> apply_result \<times> bool) list \<Rightarrow> (tester_apply list \<times> grpc_status) option" where
  "Apply w inputs = (case applier w inputs of (ms, running) \<Rightarrow> if running then None else Some (ms, StatusOK))"

section \<open>Laws\<close>

text \<open>
  The constructor always returns and reports. Where the port is free it leaves the wrapper of
  \<open>RaftWrapper_ctrl\<close>; where it is taken readiness is reported all the same, and \<^verbatim>\<open>start_svr_loop\<close> is undefined.
\<close>

lemma RaftWrapper_boot_eq:
  "RaftWrapper_boot listens port pid cfg garbage q =
     Some ((RaftWrapper_ctrl cfg garbage q)\<lparr>node_svr := listens (''localhost:'' @ to_string port)\<rparr>, cfg_id cfg, pid)"
  by (simp add: RaftWrapper_boot_def connect_to_ctrl_def run_tester_node_server_def report_ready_def
      RaftWrapper_ctrl_def wrapper_serving_def)

lemma RaftWrapper_boot_listens:
  "listens (''localhost:'' @ to_string port) \<Longrightarrow>
   RaftWrapper_boot listens port pid cfg garbage q = Some (RaftWrapper_ctrl cfg garbage q, cfg_id cfg, pid)"
  by (simp add: RaftWrapper_boot_eq RaftWrapper_ctrl_def wrapper_serving_def)

lemma RaftWrapper_boot_port_taken:
  assumes "\<not> listens (''localhost:'' @ to_string port)"
  obtains w where "RaftWrapper_boot listens port pid cfg garbage q = Some (w, cfg_id cfg, pid)"
    "start_svr_loop w = None" "w = (RaftWrapper_ctrl cfg garbage q)\<lparr>node_svr := False\<rparr>"
  using assms by (simp add: RaftWrapper_boot_eq start_svr_loop_def)

lemma Prepare_net: "p_net (fst (Prepare world ft p)) =
    set_type (failure_type ft) (setup_rank (to_string ` set world) (p_net p))"
proof -
  have "fold (\<lambda>i s. insert (to_string i) s) xs A = to_string ` set xs \<union> A" for xs A
    by (induction xs arbitrary: A) auto
  then show ?thesis by (simp add: Prepare_def Let_def)
qed

lemma fold_to_string: "fold (\<lambda>i n. f (to_string i) n) ids n = fold f (map to_string ids) n"
  by (induction ids arbitrary: n) auto

lemma prepared_and_disconnected:
  "p_net (fst (Disconnect ids (fst (Prepare world ft p)))) =
     isolated_net world ids (failure_type ft) (p_net p)"
  by (simp add: Disconnect_def Prepare_net isolated_net_def fold_to_string)

lemma Reconnect_net: "p_net (fst (Reconnect ids p)) = fold net_reconnect (map to_string ids) (p_net p)"
  by (simp add: Reconnect_def fold_to_string)

text \<open>While it is not stopped, the loop forwards exactly the valid results, in order.\<close>

lemma applier_forwards:
  "applier w (map (\<lambda>r. (False, r, False)) rs) = (map (apply_message w) (filter ar_valid rs), True)"
  by (induction rs) auto

lemma applier_stops:
  "applier w (map (\<lambda>r. (False, r, False)) rs @ (True, r, b) # rest) =
     (map (apply_message w) (filter ar_valid rs), False)"
  by (induction rs) auto

text \<open>
  From the node to the stream: the queue stores a prefix of what the node has handed over (a call of
  \<^verbatim>\<open>enqueue\<close> may still be waiting), the consumer gets a prefix of that, and it is in index order.
\<close>

lemma stream_in_order:
  assumes "reachable cfgs c" "mq_reachable n q" "prefix (pushed q) (ready_queue (nodes c i))"
  shows "applier w (map (\<lambda>r. (False, r, False)) (popped q)) = (map (apply_message w) (popped q), True)"
    "map ar_index (popped q) = map u64 [1..int (length (popped q))]"
proof -
  have ok: "applied_in_order (nodes c i)" using assms(1) by (rule reachable_applied_in_order)
  have "prefix (popped q) (ready_queue (nodes c i))" using mq.received_prefix [OF assms(2)] assms(3) by (rule prefix_order.trans)
  then obtain rest where rest: "ready_queue (nodes c i) = popped q @ rest" by (auto simp: prefix_def)
  then have "filter ar_valid (popped q) = popped q" using ok by (auto simp: applied_in_order_def filter_id_conv)
  then show "applier w (map (\<lambda>r. (False, r, False)) (popped q)) = (map (apply_message w) (popped q), True)"
    by (simp add: applier_forwards)
  let ?k = "length (popped q)" and ?m = "lastApplied (nodes c i)"
  have idx: "map ar_index (popped q @ rest) = map u64 [1..?m]" using ok rest by (simp add: applied_in_order_def)
  then have "length (popped q @ rest) = length [1..?m]" by (metis length_map)
  moreover have "0 \<le> ?m" using ok by (simp add: applied_in_order_def)
  ultimately have k: "int ?k \<le> ?m" by simp
  have "map ar_index (popped q) = take ?k (map u64 [1..?m])" unfolding idx [symmetric] by simp
  also have "\<dots> = map u64 [1..int ?k]"
    using k by (intro nth_equalityI) (auto simp: take_map)
  finally show "map ar_index (popped q) = map u64 [1..int ?k]" .
qed

text \<open>Once the ids are reconnected every call goes through again, whatever the failure mode.\<close>

lemma reconnected_all:
  "Intercept pre meta (p_net (fst (Reconnect ids (fst (Disconnect ids (fst (Prepare world ft p))))))) = None"
proof -
  let ?n = "set_type (failure_type ft) (setup_rank (to_string ` set world) (p_net p))"
  let ?m = "p_net (fst (Reconnect ids (fst (Disconnect ids (fst (Prepare world ft p))))))"
  have "?m = fold net_reconnect (map to_string ids) (fold net_disconnect (map to_string ids) ?n)"
    unfolding Reconnect_net prepared_and_disconnected by (simp add: isolated_net_def)
  then have "rank2 ?m = {}" using netf.round_trip [of ?n] by (simp add: set_type_def setup_rank_def)
  then show ?thesis by (rule nobody_down)
qed

end
