(* ===== verification/NodeApp.thy ===== *)
theory NodeApp
  imports RaftWrapper ConfigGen
begin

text \<open>
  The command-line programs \<^verbatim>\<open>app/node.cpp\<close> and \<^verbatim>\<open>app/multinode.cpp\<close>: the \<^verbatim>\<open>--peers\<close> flag, the
  configuration a node builds from its flags, the two command loops, and the argument with which the
  controller (\<^verbatim>\<open>inc/toolings/test_ctrl.hpp\<close>) spawns a node.

  \<^verbatim>\<open>absl::StrSplit\<close>, \<^verbatim>\<open>absl::StrJoin\<close>, \<^verbatim>\<open>absl::SimpleAtoi\<close> and \<^verbatim>\<open>absl::StripAsciiWhitespace\<close> are
  arguments of the definitions; \<open>absl_strings\<close> is what their documentation says of them.
\<close>

section \<open>The Abseil string functions\<close>

type_synonym split_fn = "string \<Rightarrow> char \<Rightarrow> string list"
type_synonym join_fn = "string list \<Rightarrow> string \<Rightarrow> string"
type_synonym atoi_fn = "string \<Rightarrow> u64_t option"

text \<open>
  Splitting at a character cuts at its occurrences, and a string without it is one piece; joining
  puts the separator between the pieces; a decimal number that fits is parsed.
\<close>

definition absl_strings :: "split_fn \<Rightarrow> join_fn \<Rightarrow> atoi_fn \<Rightarrow> bool" where
  "absl_strings split join atoi \<longleftrightarrow>
     (\<forall>a d. d \<notin> set a \<longrightarrow> split a d = [a]) \<and>
     (\<forall>a d s. d \<notin> set a \<longrightarrow> split (a @ d # s) d = a # split s d) \<and>
     (\<forall>p sep. join [p] sep = p) \<and>
     (\<forall>p q ps sep. join (p # q # ps) sep = p @ sep @ join (q # ps) sep) \<and>
     (\<forall>n. 0 \<le> n \<and> n < 2 ^ 64 \<longrightarrow> atoi (to_string n) = Some n)"

section \<open>The \<open>peers\<close> flag\<close>

text \<open>The first component is \<^verbatim>\<open>*error\<close> when the function returns false.\<close>

fun parse_parts :: "split_fn \<Rightarrow> atoi_fn \<Rightarrow> string list \<Rightarrow> (u64_t \<times> string) list \<Rightarrow> string option \<times> (u64_t \<times> string) list"
where
  "parse_parts split atoi [] out = (None, out)"
| "parse_parts split atoi (part # parts) out =
     (let id_addr = split part (CHR ''+'')
      in if length id_addr \<noteq> 2 then (Some (''Invalid peer address: '' @ part), out)
         else (case atoi (id_addr ! 0) of
                 None \<Rightarrow> (Some (''Invalid peer id: '' @ id_addr ! 0), out)
               | Some i \<Rightarrow> parse_parts split atoi parts (omap_put i (id_addr ! 1) out)))"

definition AbslParseFlag ::
  "split_fn \<Rightarrow> atoi_fn \<Rightarrow> string \<Rightarrow> (u64_t \<times> string) list \<Rightarrow> string option \<times> (u64_t \<times> string) list" where
  "AbslParseFlag split atoi text out =
     (if text = [] then (None, out) else parse_parts split atoi (split text (CHR '','')) out)"

definition AbslUnparseFlag :: "join_fn \<Rightarrow> (u64_t \<times> string) list \<Rightarrow> string" where
  "AbslUnparseFlag join values =
     (let parts = map (\<lambda>(i, addr). to_string i @ ''+'' @ addr) values
      in if parts = [] then '''' else join parts '','')"

text \<open>
  The argument the controller writes: every peer followed by a comma, the last comma cut off.
\<close>

definition ctrl_peers_arg :: "(u64_t \<times> string) list \<Rightarrow> string" where
  "ctrl_peers_arg m =
     (let ss = concat (map (\<lambda>(i, addr). to_string i @ ''+'' @ addr @ '','') m)
      in take (length ss - 1) ss)"

section \<open>The node program\<close>

definition prepare_interceptor :: "int \<Rightarrow> string set \<Rightarrow> net \<Rightarrow> net" where
  "prepare_interceptor failure world n =
     (let n1 = setup_rank world n
      in if failure = 0 then set_type NETWORK_FAILURE n1
         else if failure = 1 then set_type NETWORK_PARTITION n1
         else set_type NETWORK_FAILURE n1)"

text \<open>\<^verbatim>\<open>main\<close>: the configuration and the world from the flags, or exit code 1 without peers.\<close>

definition node_setup :: "u64_t \<Rightarrow> u64_t \<Rightarrow> (u64_t \<times> string) list \<Rightarrow> int + config \<times> string set" where
  "node_setup flag_id port m =
     (if m = [] then Inl 1
      else Inr (\<lparr>cfg_id = flag_id, cfg_addr = ''0.0.0.0:'' @ to_string port, cfg_peer_addrs = m\<rparr>,
                fold (\<lambda>(peer_id, addr) w. insert (to_string peer_id) w) m {to_string flag_id}))"

text \<open>One line of input; the second component tells whether the loop goes on.\<close>

definition node_dispatch :: "int \<Rightarrow> string list \<Rightarrow> raft \<times> net \<Rightarrow> (raft \<times> net) \<times> bool" where
  "node_dispatch timer splits rn =
     (case rn of (s, n) \<Rightarrow>
        (case splits of
           [] \<Rightarrow> (rn, True)
         | [cmd] \<Rightarrow>
             if cmd = ''r'' then ((run timer (connect_peers s), n), True)
             else if cmd = ''k'' then ((stop_server (kill s), n), False)
             else (rn, True)
         | cmd # params \<Rightarrow>
             if cmd = ''dis'' then ((s, fold net_disconnect params n), True)
             else if cmd = ''conn'' then ((s, fold net_reconnect params n), True)
             else (rn, True)))"

text \<open>
  The loop on the lines it reads, each with the election delay a start would draw; the second
  component tells whether the loop is still reading.
\<close>

fun node_command_loop ::
  "(string \<Rightarrow> string) \<Rightarrow> split_fn \<Rightarrow> (string \<times> int) list \<Rightarrow> raft \<times> net \<Rightarrow> (raft \<times> net) \<times> bool" where
  "node_command_loop strip split [] rn = (rn, True)"
| "node_command_loop strip split ((line, timer) # rest) rn =
     (case node_dispatch timer (split (strip line) (CHR '' '')) rn of (rn', go) \<Rightarrow>
        if go then node_command_loop strip split rest rn' else (rn', False))"

section \<open>The multi-node program\<close>

text \<open>\<^verbatim>\<open>std::stoul\<close> in base 10: \<open>None\<close> is an exception.\<close>

definition is_space :: "char \<Rightarrow> bool" where
  "is_space c \<longleftrightarrow> c = CHR '' '' \<or> 9 \<le> (of_char c :: int) \<and> (of_char c :: int) \<le> 13"

definition strtoul_digits :: "bool \<Rightarrow> string \<Rightarrow> u64_t option" where
  "strtoul_digits neg s =
     (let ds = takeWhile is_digit s
      in if ds = [] then None
         else if string_value ds \<ge> 2 ^ 64 then None
         else Some (if neg then u64 (- string_value ds) else string_value ds))"

definition stoul :: "string \<Rightarrow> u64_t option" where
  "stoul s =
     (case dropWhile is_space s of
        [] \<Rightarrow> None
      | c # cs \<Rightarrow>
          if c = CHR ''-'' then strtoul_digits True cs
          else if c = CHR ''+'' then strtoul_digits False cs
          else strtoul_digits False (c # cs))"

datatype ctrl_action = CtrlRun | CtrlKill | CtrlDisconnect "u64_t list" | CtrlReconnect "u64_t list" | CtrlPropose string

text \<open>\<open>Uncaught\<close>: an exception of \<^verbatim>\<open>stoul\<close> leaves \<^verbatim>\<open>main\<close>.\<close>

datatype loop_outcome = Continue | Exit | Uncaught

fun stoul_all :: "string list \<Rightarrow> u64_t list option" where
  "stoul_all [] = Some []"
| "stoul_all (s # ss) =
     (case stoul s of None \<Rightarrow> None | Some i \<Rightarrow> map_option (\<lambda>is. i # is) (stoul_all ss))"

definition multi_dispatch :: "string list \<Rightarrow> ctrl_action list \<times> loop_outcome" where
  "multi_dispatch splits =
     (case splits of
        [] \<Rightarrow> ([], Continue)
      | [cmd] \<Rightarrow>
          if cmd = ''r'' then ([CtrlRun], Continue)
          else if cmd = ''k'' then ([CtrlKill], Exit)
          else ([], Continue)
      | cmd # params \<Rightarrow>
          if cmd = ''dis'' \<or> cmd = ''conn'' then
            (case stoul_all params of
               None \<Rightarrow> ([], Uncaught)
             | Some is \<Rightarrow> ([if cmd = ''dis'' then CtrlDisconnect is else CtrlReconnect is], Continue))
          else if cmd = ''prop'' then ([CtrlPropose (hd params)], Continue)
          else ([], Continue))"

fun multi_command_loop :: "(string \<Rightarrow> string) \<Rightarrow> split_fn \<Rightarrow> string list \<Rightarrow> ctrl_action list \<times> loop_outcome" where
  "multi_command_loop strip split [] = ([], Continue)"
| "multi_command_loop strip split (line # rest) =
     (case multi_dispatch (split (strip line) (CHR '' '')) of (acts, out) \<Rightarrow>
        if out = Continue then
          (case multi_command_loop strip split rest of (acts', out') \<Rightarrow> (acts @ acts', out'))
        else (acts, out))"

section \<open>The flag: printing and parsing\<close>

definition peer_map_ok :: "(u64_t \<times> string) list \<Rightarrow> bool" where
  "peer_map_ok m \<longleftrightarrow>
     sorted_wrt (<) (map fst m) \<and>
     (\<forall>(i, addr) \<in> set m. 0 \<le> i \<and> i < 2 ^ 64 \<and> CHR '','' \<notin> set addr \<and> CHR ''+'' \<notin> set addr)"

lemma digits_only: "0 \<le> n \<Longrightarrow> \<not> is_digit c \<Longrightarrow> c \<notin> set (to_string n)"
  using to_string_digits by blast

lemma separators_not_digits [simp]: "\<not> is_digit (CHR '','')" "\<not> is_digit (CHR ''+'')"
  by (simp_all add: is_digit_def)

lemma split_join:
  assumes "absl_strings split join atoi" "parts \<noteq> []" "\<forall>p \<in> set parts. d \<notin> set p"
  shows "split (join parts [d]) d = parts"
  using assms(2,3)
proof (induction parts rule: induct_list012)
  case (3 p q ps)
  then show ?case using assms(1) by (simp add: absl_strings_def)
qed (use assms(1) in \<open>auto simp: absl_strings_def\<close>)

lemma omap_put_greatest:
  "\<forall>k' \<in> fst ` set m. k' < k \<Longrightarrow> omap_put k v m = m @ [(k, v)]"
  by (induction m) auto

lemma parse_parts_printed:
  assumes "absl_strings split join atoi" "peer_map_ok (out @ m)"
  shows "parse_parts split atoi (map (\<lambda>(i, addr). to_string i @ ''+'' @ addr) m) out = (None, out @ m)"
  using assms(2)
proof (induction m arbitrary: out)
  case (Cons p m)
  obtain i addr where p: "p = (i, addr)" by fastforce
  have i: "0 \<le> i" "i < 2 ^ 64" "CHR ''+'' \<notin> set addr" using Cons(2) by (auto simp: peer_map_ok_def p)
  have "CHR ''+'' \<notin> set (to_string i)" by (rule digits_only [OF i(1)]) simp
  then have "split (to_string i @ ''+'' @ addr) (CHR ''+'') = [to_string i, addr]"
    using assms(1) i(3) by (simp add: absl_strings_def)
  moreover have "atoi (to_string i) = Some i" using assms(1) i by (simp add: absl_strings_def)
  moreover have "omap_put i addr out = out @ [(i, addr)]"
    using Cons(2) by (intro omap_put_greatest) (auto simp: peer_map_ok_def p sorted_wrt_append)
  moreover have "peer_map_ok ((out @ [(i, addr)]) @ m)" using Cons(2) by (simp add: p)
  ultimately show ?case using Cons(1) [of "out @ [(i, addr)]"] by (simp add: p)
qed simp

lemma flag_round_trip:
  assumes "absl_strings split join atoi" "peer_map_ok m"
  shows "AbslParseFlag split atoi (AbslUnparseFlag join m) [] = (None, m)"
proof (cases "m = []")
  case True
  then show ?thesis by (simp add: AbslParseFlag_def AbslUnparseFlag_def)
next
  case False
  let ?parts = "map (\<lambda>(i, addr). to_string i @ ''+'' @ addr) m"
  have "\<forall>p \<in> set ?parts. CHR '','' \<notin> set p"
    using assms(2) digits_only [of _ "CHR '',''"] by (fastforce simp: peer_map_ok_def)
  then have split: "split (join ?parts '','') (CHR '','') = ?parts" using split_join [OF assms(1)] False by simp
  have "join ?parts '','' \<noteq> []"
  proof
    assume "join ?parts '','' = []"
    then have "?parts = [[]]" using split assms(1) by (simp add: absl_strings_def)
    then show False by auto
  qed
  then show ?thesis
    using split parse_parts_printed [OF assms(1), of "[]" m] assms(2) False
    by (simp add: AbslParseFlag_def AbslUnparseFlag_def Let_def)
qed

text \<open>The controller's argument is the printed flag.\<close>

lemma ctrl_peers_arg_eq:
  assumes "absl_strings split join atoi"
  shows "ctrl_peers_arg m = AbslUnparseFlag join m"
proof -
  have "concat (map (\<lambda>(i, addr). to_string i @ ''+'' @ addr @ '','') m) =
      join (map (\<lambda>(i, addr). to_string i @ ''+'' @ addr) m) '','' @ '',''" if "m \<noteq> []"
    using that
  proof (induction m rule: induct_list012)
    case (3 p q ps)
    then show ?case using assms by (cases p; cases q) (simp add: absl_strings_def)
  qed (use assms in \<open>auto simp: absl_strings_def\<close>)
  then show ?thesis by (cases "m = []") (simp_all add: ctrl_peers_arg_def AbslUnparseFlag_def Let_def)
qed

section \<open>Command loops\<close>

text \<open>The node's loop ends at the first line that is the single word \<open>k\<close>, and only there.\<close>

lemma node_dispatch_exit: "snd (node_dispatch timer splits rn) \<longleftrightarrow> splits \<noteq> [''k'']"
  by (cases rn) (auto simp: node_dispatch_def split: list.splits)

lemma node_loop_exit_iff:
  "snd (node_command_loop strip split ls rn) \<longleftrightarrow>
     (\<forall>(line, timer) \<in> set ls. split (strip line) (CHR '' '') \<noteq> [''k''])"
proof (induction ls arbitrary: rn)
  case (Cons l ls)
  obtain line timer where l: "l = (line, timer)" by fastforce
  obtain rn' go where d: "node_dispatch timer (split (strip line) (CHR '' '')) rn = (rn', go)" by fastforce
  then have "go \<longleftrightarrow> split (strip line) (CHR '' '') \<noteq> [''k'']"
    using node_dispatch_exit [of timer "split (strip line) (CHR '' '')" rn] by simp
  with d Cons show ?case by (auto simp: l)
qed simp

lemma node_dispatch_kill:
  "node_dispatch timer [''k''] (s, n) = ((stop_server (kill s), n), False)"
  by (simp add: node_dispatch_def)

lemma node_loop_killed:
  "\<not> snd (node_command_loop strip split ls rn) \<Longrightarrow>
   dead (fst (fst (node_command_loop strip split ls rn))) \<and>
   \<not> server_running (fst (fst (node_command_loop strip split ls rn)))"
proof (induction ls arbitrary: rn)
  case (Cons l ls)
  obtain line timer where l: "l = (line, timer)" by fastforce
  let ?splits = "split (strip line) (CHR '' '')"
  obtain rn' go where d: "node_dispatch timer ?splits rn = (rn', go)" by fastforce
  show ?case
  proof (cases go)
    case True
    with Cons d show ?thesis by (simp add: l)
  next
    case False
    then have "?splits = [''k'']" using node_dispatch_exit [of timer ?splits rn] d by simp
    with d False show ?thesis
      by (cases rn; cases "server_running (fst rn)") (auto simp: l node_dispatch_kill stop_server_def kill_def)
  qed
qed simp

text \<open>\<^verbatim>\<open>stoul\<close> reads back what \<^verbatim>\<open>to_string\<close> prints.\<close>

lemma takeWhile_digits: "0 \<le> n \<Longrightarrow> takeWhile is_digit (to_string n @ s) =
    to_string n @ takeWhile is_digit s"
  by (rule takeWhile_append2) (rule to_string_digits)

lemma to_string_first:
  assumes "0 \<le> n"
  obtains c cs where "to_string n = c # cs" "is_digit c" "\<not> is_space c" "c \<noteq> CHR ''-''" "c \<noteq> CHR ''+''"
proof (cases "to_string n")
  case (Cons c cs)
  have d: "is_digit c" using to_string_digits [OF assms, of c] Cons by simp
  moreover have "\<not> is_space c" using d by (auto simp: is_digit_def is_space_def)
  moreover have "c \<noteq> CHR ''-''" "c \<noteq> CHR ''+''" using d by (auto simp: is_digit_def)
  ultimately show ?thesis using Cons that by blast
qed simp

lemma stoul_to_string:
  assumes "0 \<le> n" "n < 2 ^ 64" "s = [] \<or> \<not> is_digit (hd s)"
  shows "stoul (to_string n @ s) = Some n"
proof -
  obtain c cs where c: "to_string n = c # cs" "\<not> is_space c" "c \<noteq> CHR ''-''" "c \<noteq> CHR ''+''"
    using to_string_first [OF assms(1)] by metis
  have "takeWhile is_digit s = []" using assms(3) by (cases s) auto
  then have "takeWhile is_digit (c # cs @ s) = to_string n"
    using takeWhile_digits [OF assms(1), of s] c(1) by simp
  then have "strtoul_digits False (c # cs @ s) = Some n" using assms(1,2) by (simp add: strtoul_digits_def)
  with c show ?thesis by (simp add: stoul_def)
qed

lemma stoul_all_printed:
  "\<forall>i \<in> set is. 0 \<le> i \<and> i < 2 ^ 64 \<Longrightarrow> stoul_all (map to_string is) = Some is"
proof (induction "is")
  case (Cons i "is")
  then show ?case using stoul_to_string [of i "[]"] by simp
qed simp

lemma multi_dispatch_ids:
  assumes "is \<noteq> []" "\<forall>i \<in> set is. 0 \<le> i \<and> i < 2 ^ 64"
  shows "multi_dispatch (''dis'' # map to_string is) = ([CtrlDisconnect is], Continue)"
    "multi_dispatch (''conn'' # map to_string is) = ([CtrlReconnect is], Continue)"
  using stoul_all_printed [OF assms(2)] assms(1) by (cases "is"; simp add: multi_dispatch_def)+

section \<open>Fault injection from both ends\<close>

text \<open>The node's own set-up and the tester's \<^verbatim>\<open>Prepare\<close> agree.\<close>

lemma prepare_interceptor_eq: "prepare_interceptor f W n = set_type (failure_type f) (setup_rank W n)"
  by (simp add: prepare_interceptor_def failure_type_def Let_def)

text \<open>
  After \<^verbatim>\<open>Prepare\<close> for the ids \<open>world\<close> and \<^verbatim>\<open>Disconnect\<close> of \<open>ids\<close>, a call between two nodes of the world goes
  through: in failure mode exactly when neither end is disconnected; in partition mode exactly when both or
  neither are.
\<close>

lemma isolation_exact:
  assumes "\<forall>i \<in> set world \<union> set ids. 0 \<le> i" "rid s \<in> set world" "to \<in> set world"
  shows "Intercept True (create_context to s) (p_net (fst (Disconnect ids (fst (Prepare world ft p))))) = None \<longleftrightarrow>
    (if ft = 1 then rid s \<in> set ids \<longleftrightarrow> to \<in> set ids else rid s \<notin> set ids \<and> to \<notin> set ids)"
  unfolding prepared_and_disconnected isolated_net_calls [OF assms] by (simp add: failure_type_def)

lemma Prepare_prepare_interceptor:
  "p_net (fst (Prepare world ft p)) = prepare_interceptor ft (to_string ` set world) (p_net p)"
  by (simp add: Prepare_net prepare_interceptor_eq)

lemma node_setup_world:
  "m \<noteq> [] \<Longrightarrow> \<exists>cfg. node_setup i port m = Inr (cfg, to_string ` ({i} \<union> fst ` set m)) \<and>
     cfg_id cfg = i \<and> cfg_peer_addrs cfg = m"
proof -
  have "fold (\<lambda>(peer_id, addr) w. insert (to_string peer_id) w) m A = A \<union> to_string ` fst ` set m"
    for m :: "(int \<times> string) list" and A
    by (induction m arbitrary: A) auto
  then show "m \<noteq> [] \<Longrightarrow> \<exists>cfg. node_setup i port m = Inr (cfg, to_string ` ({i} \<union> fst ` set m)) \<and>
     cfg_id cfg = i \<and> cfg_peer_addrs cfg = m"
    by (simp add: node_setup_def)
qed

section \<open>A concrete instance of the string functions\<close>

fun split_on :: split_fn where
  "split_on [] d = [[]]"
| "split_on (c # cs) d =
     (if c = d then [] # split_on cs d
      else (case split_on cs d of p # ps \<Rightarrow> (c # p) # ps | [] \<Rightarrow> [[c]]))"

fun join_with :: join_fn where
  "join_with [] sep = []"
| "join_with [p] sep = p"
| "join_with (p # q # ps) sep = p @ sep @ join_with (q # ps) sep"

definition atoi_decimal :: atoi_fn where
  "atoi_decimal s =
     (if s \<noteq> [] \<and> list_all is_digit s \<and> string_value s < 2 ^ 64 then Some (string_value s) else None)"

lemma split_on_append: "d \<notin> set a \<Longrightarrow> split_on (a @ d # s) d = a # split_on s d"
  by (induction a) auto

lemma split_on_none: "d \<notin> set a \<Longrightarrow> split_on a d = [a]"
  by (induction a) auto

lemma absl_instance: "absl_strings split_on join_with atoi_decimal"
  using to_string_digits
  by (auto simp: absl_strings_def split_on_append split_on_none atoi_decimal_def list_all_iff)

end
