(* ===== verification/Logging.thy ===== *)
theory Logging
  imports RaftTypes
begin

text \<open>
  Logging as the programs set it up: \<^verbatim>\<open>rafty::utils::logger\<close> (\<^verbatim>\<open>inc/common/logger.hpp\<close>), which wraps a
  logger of spdlog, and the functions of \<^verbatim>\<open>app/node.cpp\<close> and \<^verbatim>\<open>app/tput.cpp\<close> that set levels.

  A logger of spdlog is a record of its name and its sinks. What spdlog decides itself is an argument: what
  \<^verbatim>\<open>spdlog::get\<close> returns, whether a log file can be opened, whether registering throws, and the level a new
  sink has.
\<close>

section \<open>Loggers and sinks\<close>

datatype log_level = LevelTrace | LevelDebug | LevelInfo | LevelWarn | LevelErr | LevelCritical | LevelOff

text \<open>Levels are ordered by severity, with \<^verbatim>\<open>off\<close> above all; a sink writes what is at least at its level.\<close>

fun severity :: "log_level \<Rightarrow> nat" where
  "severity LevelTrace = 0"
| "severity LevelDebug = 1"
| "severity LevelInfo = 2"
| "severity LevelWarn = 3"
| "severity LevelErr = 4"
| "severity LevelCritical = 5"
| "severity LevelOff = 6"

lemma severity_inj: "severity a = severity b \<Longrightarrow> a = b"
  by (cases a; cases b) simp_all

instantiation log_level :: linorder
begin

definition less_eq_log_level :: "log_level \<Rightarrow> log_level \<Rightarrow> bool" where
  "less_eq_log_level a b \<longleftrightarrow> severity a \<le> severity b"

definition less_log_level :: "log_level \<Rightarrow> log_level \<Rightarrow> bool" where
  "less_log_level a b \<longleftrightarrow> severity a < severity b"

instance
  by standard (auto simp: less_eq_log_level_def less_log_level_def dest: severity_inj)

end

lemma level_off_top [simp]: "l \<le> LevelOff"
  by (cases l) (simp_all add: less_eq_log_level_def)

text \<open>The dynamic types of sinks the code tells apart.\<close>

datatype sink_kind = StdoutSink | StdoutColorSink | BasicFileSink string | OtherSink

record sink =
  sink_kind :: sink_kind
  sink_level :: log_level

text \<open>\<open>lg_async\<close>: the logger is an \<^verbatim>\<open>spdlog::async_logger\<close>.\<close>

record spd_logger =
  lg_name :: string
  lg_async :: bool
  lg_sinks :: "sink list"

section \<open>The logger of a node\<close>

definition logger_name :: "u64_t \<Rightarrow> string" where
  "logger_name i = ''rafty_node_'' @ to_string i"

text \<open>
  The constructor. \<open>found\<close> is \<^verbatim>\<open>spdlog::get(name)\<close>; the cast gives null for a logger that is not
  asynchronous. A file that cannot be opened and a name that is taken throw \<^verbatim>\<open>spdlog_ex\<close>, which is caught.
  The result is the member \<^verbatim>\<open>_logger\<close> (\<open>None\<close>: null) and what \<^verbatim>\<open>spdlog::get(name)\<close> returns from then on.
\<close>

definition new_logger :: "log_level \<Rightarrow> string \<Rightarrow> spd_logger" where
  "new_logger initial name =
     \<lparr>lg_name = name, lg_async = True,
      lg_sinks = [\<lparr>sink_kind = StdoutColorSink, sink_level = initial\<rparr>,
                  \<lparr>sink_kind = BasicFileSink (''logs/'' @ name @ ''.log''), sink_level = initial\<rparr>]\<rparr>"

definition logger_init ::
  "log_level \<Rightarrow> (string \<Rightarrow> bool) \<Rightarrow> (spd_logger \<Rightarrow> bool) \<Rightarrow> string \<Rightarrow> spd_logger option \<Rightarrow>
   spd_logger option \<times> spd_logger option" where
  "logger_init initial opens registers name found =
     (let spdlogger = (case found of Some l \<Rightarrow> if lg_async l then Some l else None | None \<Rightarrow> None)
      in case spdlogger of
           None \<Rightarrow>
             if \<not> opens (''logs/'' @ name @ ''.log'') then (None, found)
             else let l = new_logger initial name
                  in if registers l then (Some l, Some l) else (None, found)
         | Some l \<Rightarrow> (Some l, found))"

definition get_logger ::
  "log_level \<Rightarrow> (string \<Rightarrow> bool) \<Rightarrow> (spd_logger \<Rightarrow> bool) \<Rightarrow> u64_t \<Rightarrow> spd_logger option \<Rightarrow>
   spd_logger option \<times> spd_logger option" where
  "get_logger initial opens registers i found = logger_init initial opens registers (logger_name i) found"

section \<open>The methods of the logger\<close>

text \<open>
  Every method passes its request on to the logger of spdlog it wraps, through the member \<^verbatim>\<open>_logger\<close>: \<open>None\<close> is
  a null pointer dereferenced. What spdlog does with the request is not part of the code; the result names
  the logger that gets it. A message is its formatted text.
\<close>

datatype log_request = SetLevel log_level | LogMessage log_level string

definition forward :: "log_request \<Rightarrow> spd_logger option \<Rightarrow> (string \<times> log_request) defined" where
  "forward r member = (case member of None \<Rightarrow> None | Some l \<Rightarrow> Some (lg_name l, r))"

definition logger_set_level :: "log_level \<Rightarrow> spd_logger option \<Rightarrow> (string \<times> log_request) defined" where
  "logger_set_level level = forward (SetLevel level)"

definition logger_trace :: "string \<Rightarrow> spd_logger option \<Rightarrow> (string \<times> log_request) defined" where
  "logger_trace msg = forward (LogMessage LevelTrace msg)"

definition logger_debug :: "string \<Rightarrow> spd_logger option \<Rightarrow> (string \<times> log_request) defined" where
  "logger_debug msg = forward (LogMessage LevelDebug msg)"

definition logger_info :: "string \<Rightarrow> spd_logger option \<Rightarrow> (string \<times> log_request) defined" where
  "logger_info msg = forward (LogMessage LevelInfo msg)"

definition logger_warn :: "string \<Rightarrow> spd_logger option \<Rightarrow> (string \<times> log_request) defined" where
  "logger_warn msg = forward (LogMessage LevelWarn msg)"

definition logger_error :: "string \<Rightarrow> spd_logger option \<Rightarrow> (string \<times> log_request) defined" where
  "logger_error msg = forward (LogMessage LevelErr msg)"

definition logger_critical :: "string \<Rightarrow> spd_logger option \<Rightarrow> (string \<times> log_request) defined" where
  "logger_critical msg = forward (LogMessage LevelCritical msg)"

definition get_raw :: "spd_logger option \<Rightarrow> spd_logger option" where
  "get_raw member = member"

section \<open>The logger of a driver\<close>

text \<open>
  The programs \<^verbatim>\<open>multinode\<close>, \<^verbatim>\<open>latency\<close> and \<^verbatim>\<open>tput\<close> take the logger that is registered under a name or make one
  with \<^verbatim>\<open>spdlog::basic_logger_mt\<close>, which throws when the file cannot be opened or the name is taken. Nothing
  catches the exception: \<open>None\<close>.
\<close>

definition driver_logger ::
  "log_level \<Rightarrow> (string \<Rightarrow> bool) \<Rightarrow> (spd_logger \<Rightarrow> bool) \<Rightarrow> string \<Rightarrow> spd_logger option \<Rightarrow> spd_logger option" where
  "driver_logger initial opens registers name found =
     (case found of
        Some l \<Rightarrow> Some l
      | None \<Rightarrow>
          if \<not> opens (''logs/'' @ name @ ''.log'') then None
          else let l = \<lparr>lg_name = name, lg_async = False,
                        lg_sinks = [\<lparr>sink_kind = BasicFileSink (''logs/'' @ name @ ''.log''), sink_level = initial\<rparr>]\<rparr>
               in if registers l then Some l else None)"

section \<open>Levels\<close>

text \<open>One round of the loop over the sinks.\<close>

definition disable_sink :: "bool \<Rightarrow> sink \<Rightarrow> sink" where
  "disable_sink disable_file_sink sk =
     (case sink_kind sk of
        StdoutSink \<Rightarrow> sk\<lparr>sink_level := LevelOff\<rparr>
      | StdoutColorSink \<Rightarrow> sk\<lparr>sink_level := LevelOff\<rparr>
      | BasicFileSink f \<Rightarrow> if disable_file_sink then sk\<lparr>sink_level := LevelOff\<rparr> else sk
      | OtherSink \<Rightarrow> sk)"

definition DisableConsoleLogging :: "bool \<Rightarrow> spd_logger \<Rightarrow> spd_logger" where
  "DisableConsoleLogging disable_file_sink l = l\<lparr>lg_sinks := map (disable_sink disable_file_sink) (lg_sinks l)\<rparr>"

text \<open>
  \<open>found\<close> is \<^verbatim>\<open>spdlog::get(logger_name)\<close>, a pointer to a shared logger: the second call finds what the first
  has changed. \<open>None\<close> as a whole is a null pointer dereferenced.
\<close>

definition prepare_logging :: "int \<Rightarrow> spd_logger option \<Rightarrow> spd_logger option defined" where
  "prepare_logging verbosity found = do {
     l1 \<leftarrow> (if verbosity < 2 then map_option (\<lambda>l. Some (DisableConsoleLogging False l)) found else Some found);
     if verbosity < 1 then map_option (\<lambda>l. Some (DisableConsoleLogging True l)) l1 else Some l1
   }"

text \<open>The level the throughput program gives its logger.\<close>

definition tput_level :: "int \<Rightarrow> log_level" where
  "tput_level verbosity =
     (if verbosity = 1 then LevelDebug
      else if verbosity = 2 then LevelInfo
      else if verbosity = 3 then LevelWarn
      else if verbosity = 4 then LevelErr
      else if verbosity = 5 then LevelCritical
      else LevelOff)"

section \<open>What the set-up achieves\<close>

definition console_sink :: "sink \<Rightarrow> bool" where
  "console_sink sk \<longleftrightarrow> sink_kind sk = StdoutSink \<or> sink_kind sk = StdoutColorSink"

definition file_sink :: "sink \<Rightarrow> bool" where
  "file_sink sk \<longleftrightarrow> (\<exists>f. sink_kind sk = BasicFileSink f)"

text \<open>
  The effect of \<open>verbosity\<close> on an existing logger: below 2 the consoles are off, below 1 the files too, and
  nothing else changes.
\<close>

definition sink_at :: "int \<Rightarrow> sink \<Rightarrow> sink" where
  "sink_at verbosity sk =
     (if verbosity < 2 \<and> console_sink sk \<or> verbosity < 1 \<and> file_sink sk
      then sk\<lparr>sink_level := LevelOff\<rparr> else sk)"

lemma disable_sink_eq:
  "disable_sink b sk = (if console_sink sk \<or> b \<and> file_sink sk then sk\<lparr>sink_level := LevelOff\<rparr> else sk)"
  by (auto simp: disable_sink_def console_sink_def file_sink_def split: sink_kind.split)

lemma prepare_logging_found:
  "prepare_logging verbosity (Some l) = Some (Some (l\<lparr>lg_sinks := map (sink_at verbosity) (lg_sinks l)\<rparr>))"
proof -
  have id: "map (sink_at verbosity) = id" if "2 \<le> verbosity"
    using that by (auto simp: sink_at_def fun_eq_iff intro: map_idI)
  have one: "sink_at verbosity = disable_sink False" if "verbosity < 2" "1 \<le> verbosity"
    using that by (auto simp: sink_at_def disable_sink_eq fun_eq_iff)
  have both: "sink_at verbosity = disable_sink True \<circ> disable_sink False" if "verbosity < 1"
    using that by (auto simp: sink_at_def disable_sink_eq console_sink_def file_sink_def fun_eq_iff)
  consider "2 \<le> verbosity" | "verbosity < 2" "1 \<le> verbosity" | "verbosity < 1" by linarith
  then show ?thesis
    by cases (simp_all add: prepare_logging_def DisableConsoleLogging_def id one both)
qed

text \<open>Without a registered logger the set-up dereferences null, unless nothing has to be disabled.\<close>

lemma prepare_logging_null: "prepare_logging verbosity None = (if verbosity < 2 then None else Some None)"
  by (simp add: prepare_logging_def)

text \<open>A fresh logger whose file opens has one console and one file sink.\<close>

lemma get_logger_fresh:
  assumes "opens (''logs/'' @ logger_name i @ ''.log'')" "registers (new_logger initial (logger_name i))"
  shows "get_logger initial opens registers i None =
    (Some (new_logger initial (logger_name i)), Some (new_logger initial (logger_name i)))"
  using assms by (simp add: get_logger_def logger_init_def Let_def)

text \<open>If the file cannot be opened, the exception is caught and the member stays null.\<close>

lemma get_logger_no_file:
  "\<not> opens (''logs/'' @ logger_name i @ ''.log'') \<Longrightarrow> get_logger initial opens registers i None = (None, None)"
  by (simp add: get_logger_def logger_init_def Let_def)

text \<open>
  A logger that could be set up passes every message on under the name of its node; one whose file could not
  be opened makes the first call undefined, whatever it logs.
\<close>

lemma forward_after_init:
  assumes "registers (new_logger initial (logger_name i))"
  shows "forward r (fst (get_logger initial opens registers i None)) =
    (if opens (''logs/'' @ logger_name i @ ''.log'') then Some (logger_name i, r) else None)"
  using assms by (auto simp: get_logger_fresh get_logger_no_file forward_def new_logger_def)

text \<open>A synchronous logger under the name of a node is not taken, and the name is taken: no logger either.\<close>

lemma forward_after_foreign:
  assumes "\<not> lg_async l" "\<not> registers (new_logger initial (logger_name i))"
  shows "forward r (fst (get_logger initial opens registers i (Some l))) = None"
  using assms by (simp add: get_logger_def logger_init_def Let_def forward_def)

text \<open>A driver that starts afresh has a logger exactly when its file opens and its name is free.\<close>

lemma driver_logger_fresh:
  "driver_logger initial opens registers name None \<noteq> None \<longleftrightarrow> opens (''logs/'' @ name @ ''.log'') \<and>
     registers \<lparr>lg_name = name, lg_async = False,
       lg_sinks = [\<lparr>sink_kind = BasicFileSink (''logs/'' @ name @ ''.log''), sink_level = initial\<rparr>]\<rparr>"
  by (simp add: driver_logger_def Let_def)

text \<open>The levels a node starts with: the console and the file, by verbosity.\<close>

lemma node_levels:
  assumes "opens (''logs/'' @ logger_name i @ ''.log'')" "registers (new_logger initial (logger_name i))"
  shows "map_option (map_option (map sink_level \<circ> lg_sinks))
      (prepare_logging verbosity (snd (get_logger initial opens registers i None))) =
    Some (Some [if verbosity < 2 then LevelOff else initial, if verbosity < 1 then LevelOff else initial])"
  by (simp add: get_logger_fresh [of opens i registers initial, OF assms] prepare_logging_found new_logger_def sink_at_def
      console_sink_def file_sink_def)

text \<open>The set-up never makes a logger write more than before.\<close>

lemma prepare_logging_quieter:
  assumes "prepare_logging verbosity (Some l) = Some (Some l1)"
  shows "list_all2 (\<lambda>sk sk1. sink_kind sk1 = sink_kind sk \<and> sink_level sk \<le> sink_level sk1) (lg_sinks l) (lg_sinks l1)"
  using assms by (auto simp: prepare_logging_found list_all2_map2 sink_at_def intro!: list.rel_refl_strong)

text \<open>In the throughput program a larger verbosity writes less, except that 0 and anything above 5 write nothing.\<close>

lemma tput_level_mono: "1 \<le> v \<Longrightarrow> v \<le> w \<Longrightarrow> tput_level v \<le> tput_level w"
proof -
  assume "1 \<le> v" "v \<le> w"
  then consider "v = 1" | "v = 2" | "v = 3" | "v = 4" | "v = 5" | "5 < v" by linarith
  then show "tput_level v \<le> tput_level w"
    by cases (use \<open>v \<le> w\<close> in \<open>auto simp: tput_level_def less_eq_log_level_def\<close>)
qed

end
