(* ===== verification/NodeProgram.thy ===== *)
theory NodeProgram
  imports NodeApp Logging
begin

text \<open>
  The whole of \<^verbatim>\<open>app/node.cpp\<close>: \<^verbatim>\<open>main\<close> from its flags to its end, as a process that holds a wrapper, the
  static state of the interceptors and a logger, and the requests of the tester it serves on the way.
\<close>

section \<open>The flags\<close>

type_synonym u16_t = int

record node_flags =
  nf_id :: u16_t
  nf_port :: u16_t
  nf_peers :: "(u64_t \<times> string) list"
  nf_verbosity :: int
  nf_fail_type :: int
  nf_enable_ctrl :: bool
  nf_ctrl_addr :: string
  nf_tester_port :: u64_t

text \<open>
  The declarations of the flags, with their types and defaults, and how Abseil reads a command line of the form the
  controller writes, in which every flag stands once: the word after \<^verbatim>\<open>--name\<close> is the value of a flag, a Boolean
  flag is set by its name alone, and a value that the type of its flag cannot hold is an error.
  \<open>num\<close> is the number a word stands for; \<open>absl_numbers\<close> is what the documentation says of it. On an error, and on a
  name that is not declared, Abseil prints a message and exits with code 1: \<open>None\<close>.
\<close>

type_synonym num_fn = "string \<Rightarrow> int option"

definition absl_numbers :: "num_fn \<Rightarrow> bool" where
  "absl_numbers num \<longleftrightarrow> (\<forall>n \<ge> 0. num (to_string n) = Some n)"

fun arg_after :: "string \<Rightarrow> string list \<Rightarrow> string option" where
  "arg_after name [] = None"
| "arg_after name (w # ws) = (if w = name then (case ws of [] \<Rightarrow> None | v # _ \<Rightarrow> Some v) else arg_after name ws)"

definition flag_value :: "string \<Rightarrow> 'a \<Rightarrow> (string \<Rightarrow> 'a option) \<Rightarrow> string list \<Rightarrow> 'a option" where
  "flag_value name initial parse args =
     (if name \<notin> set args then Some initial else Option.bind (arg_after name args) parse)"

definition int_flag :: "num_fn \<Rightarrow> int \<Rightarrow> int \<Rightarrow> string \<Rightarrow> int option" where
  "int_flag num lo hi text = Option.bind (num text) (\<lambda>n. if lo \<le> n \<and> n \<le> hi then Some n else None)"

definition declared_flags :: "string list" where
  "declared_flags =
     [''--id'', ''--port'', ''--peers'', ''--verbosity'', ''--fail_type'', ''--enable_ctrl'', ''--ctrl_addr'',
      ''--node_tester_port'']"

definition parse_node_flags :: "split_fn \<Rightarrow> atoi_fn \<Rightarrow> num_fn \<Rightarrow> string list \<Rightarrow> node_flags option" where
  "parse_node_flags split atoi num args =
     (if \<exists>a \<in> set args. take 2 a = ''--'' \<and> a \<notin> set declared_flags then None
      else do {
        i \<leftarrow> flag_value ''--id'' 0 (int_flag num 0 (2 ^ 16 - 1)) args;
        port \<leftarrow> flag_value ''--port'' 50051 (int_flag num 0 (2 ^ 16 - 1)) args;
        peer_map \<leftarrow> flag_value ''--peers'' []
          (\<lambda>text. case AbslParseFlag split atoi text [] of (None, m) \<Rightarrow> Some m | (Some err, m) \<Rightarrow> None) args;
        verbosity \<leftarrow> flag_value ''--verbosity'' 1 (int_flag num (- (2 ^ 31)) (2 ^ 31 - 1)) args;
        fail_type \<leftarrow> flag_value ''--fail_type'' 0 (int_flag num (- (2 ^ 31)) (2 ^ 31 - 1)) args;
        ctrl_addr \<leftarrow> flag_value ''--ctrl_addr'' ''localhost:55000'' Some args;
        tester_port \<leftarrow> flag_value ''--node_tester_port'' 55001 (int_flag num 0 (2 ^ 64 - 1)) args;
        Some \<lparr>nf_id = i, nf_port = port, nf_peers = peer_map, nf_verbosity = verbosity, nf_fail_type = fail_type,
              nf_enable_ctrl = (''--enable_ctrl'' \<in> set args), nf_ctrl_addr = ctrl_addr, nf_tester_port = tester_port\<rparr>
      })"

section \<open>A node process\<close>

text \<open>
  What is outside the program: the value of an uninitialised role, spdlog (see \<open>Logging\<close>), the string functions
  of Abseil (see \<open>NodeApp\<close>), the addresses gRPC can bind, and the process id.
\<close>

record node_env =
  ne_garbage :: role
  ne_level :: log_level
  ne_opens :: "string \<Rightarrow> bool"
  ne_registers :: "spd_logger \<Rightarrow> bool"
  ne_strip :: "string \<Rightarrow> string"
  ne_split :: split_fn
  ne_listens :: "string \<Rightarrow> bool"
  ne_pid :: int

text \<open>\<open>np_member\<close>: the node's own logger is not null. \<open>np_logger\<close>: what \<^verbatim>\<open>spdlog::get\<close> finds under its name.\<close>

record node_proc =
  np_wrapper :: wrapper
  np_process :: process
  np_member :: bool
  np_logger :: "spd_logger option"

text \<open>The static members of the interceptors are zero-initialised.\<close>

definition process_initial :: process where
  "process_initial = \<lparr>p_net = net_initial, p_bytes = setup_rpc_monitor\<rparr>"

section \<open>Requests of the tester\<close>

text \<open>\<open>RpcRun\<close> carries the election delay that starting the node draws.\<close>

datatype tester_rpc =
  RpcPrepare "u64_t list" int | RpcRun int | RpcKill | RpcDisconnect "u64_t list" | RpcReconnect "u64_t list"

definition serve :: "tester_rpc \<Rightarrow> node_proc \<Rightarrow> node_proc" where
  "serve r p =
     (case r of
        RpcPrepare world ft \<Rightarrow> p\<lparr>np_process := fst (Prepare world ft (np_process p))\<rparr>
      | RpcRun timer \<Rightarrow> p\<lparr>np_wrapper := fst (Run timer (np_wrapper p))\<rparr>
      | RpcKill \<Rightarrow> p\<lparr>np_wrapper := fst (Kill (np_wrapper p))\<rparr>
      | RpcDisconnect is \<Rightarrow> p\<lparr>np_process := fst (Disconnect is (np_process p))\<rparr>
      | RpcReconnect is \<Rightarrow> p\<lparr>np_process := fst (Reconnect is (np_process p))\<rparr>)"

section \<open>Start-up\<close>

text \<open>
  \<^verbatim>\<open>main\<close> builds the wrapper, sets up the interceptors and the logger, and starts the Raft server, whose
  first act is to log. With a controller the tester's service runs as soon as the wrapper is built, if its port
  is free: \<open>early\<close> are the requests served before the interceptors are set up, \<open>mid\<close> those before the server starts.
\<close>

definition serve_pending :: "tester_rpc list \<Rightarrow> node_proc \<Rightarrow> node_proc" where
  "serve_pending rs p = (if node_svr (np_wrapper p) then fold serve rs p else p)"

definition node_construct :: "node_env \<Rightarrow> node_flags \<Rightarrow> config \<Rightarrow> node_proc defined" where
  "node_construct env fl cfg =
     (case get_logger (ne_level env) (ne_opens env) (ne_registers env) (cfg_id cfg) None of (member, found) \<Rightarrow> do {
        w \<leftarrow> (if nf_enable_ctrl fl
             then map_option fst (RaftWrapper_boot (ne_listens env) (nf_tester_port fl) (ne_pid env) cfg
                                    (ne_garbage env) (MessageQueue 0))
             else Some (RaftWrapper_plain cfg (ne_garbage env) (MessageQueue 0)));
        Some \<lparr>np_wrapper = w, np_process = process_initial, np_member = (member \<noteq> None), np_logger = found\<rparr>
      })"

definition node_prepare :: "node_flags \<Rightarrow> string set \<Rightarrow> node_proc \<Rightarrow> node_proc defined" where
  "node_prepare fl world p = do {
     let pr = np_process p;
     found \<leftarrow> prepare_logging (nf_verbosity fl) (np_logger p);
     Some (p\<lparr>np_process := pr\<lparr>p_net := prepare_interceptor (nf_fail_type fl) world (p_net pr)\<rparr>,
             np_logger := found\<rparr>)
   }"

definition node_start :: "(string \<Rightarrow> bool) \<Rightarrow> node_proc \<Rightarrow> node_proc defined" where
  "node_start listens p =
     (if np_member p then do {
        s \<leftarrow> start_server listens (wnode (np_wrapper p));
        Some (p\<lparr>np_wrapper := (np_wrapper p)\<lparr>wnode := s\<rparr>\<rparr>)
      } else None)"

definition node_boot ::
  "node_env \<Rightarrow> node_flags \<Rightarrow> tester_rpc list \<Rightarrow> tester_rpc list \<Rightarrow> (int + node_proc) defined" where
  "node_boot env fl early mid =
     (case node_setup (nf_id fl) (nf_port fl) (nf_peers fl) of
        Inl code \<Rightarrow> Some (Inl code)
      | Inr (cfg, world) \<Rightarrow> do {
          p0 \<leftarrow> node_construct env fl cfg;
          p1 \<leftarrow> node_prepare fl world (serve_pending early p0);
          p2 \<leftarrow> node_start (ne_listens env) (serve_pending mid p1);
          Some (Inr p2)
        })"

section \<open>The program\<close>

text \<open>
  \<open>NodeServing\<close>: with a controller \<^verbatim>\<open>start_svr_loop\<close> waits for a server that nobody shuts down, and \<^verbatim>\<open>main\<close> never
  reads a command.
  \<open>NodeReading\<close>: the command loop is waiting for its next line.
\<close>

datatype node_outcome = NodeExit int "node_proc option" | NodeServing node_proc | NodeReading node_proc

text \<open>The objects of \<^verbatim>\<open>main\<close> are destroyed in reverse order.\<close>

definition node_destroy :: "node_proc \<Rightarrow> node_proc" where
  "node_destroy p =
     (let w = wrapper_cleanup (np_wrapper p) in p\<lparr>np_wrapper := w\<lparr>wnode := Raft_delete (wnode w)\<rparr>\<rparr>)"

definition node_main ::
  "node_env \<Rightarrow> node_flags \<Rightarrow> tester_rpc list \<Rightarrow> tester_rpc list \<Rightarrow> (string \<times> int) list \<Rightarrow> node_outcome defined" where
  "node_main env fl early mid lines = do {
     r \<leftarrow> node_boot env fl early mid;
     case r of
       Inl code \<Rightarrow> Some (NodeExit code None)
     | Inr p \<Rightarrow>
         if nf_enable_ctrl fl then map_option (\<lambda>_. NodeServing p) (start_svr_loop (np_wrapper p))
         else (case node_command_loop (ne_strip env) (ne_split env) lines
                     (wnode (np_wrapper p), p_net (np_process p)) of
                 ((s, n), go) \<Rightarrow>
                   let p' = p\<lparr>np_wrapper := (np_wrapper p)\<lparr>wnode := s\<rparr>,
                              np_process := (np_process p)\<lparr>p_net := n\<rparr>\<rparr>
                   in Some (if go then NodeReading p' else NodeExit 0 (Some (node_destroy p'))))
   }"

text \<open>
  From its command line. \<open>parse\<close> is what \<^verbatim>\<open>ParseCommandLine\<close> does: the code with which it exits, on an error or on
  \<^verbatim>\<open>--help\<close>, or the flags.
\<close>

definition node_program ::
  "node_env \<Rightarrow> (string list \<Rightarrow> int + node_flags) \<Rightarrow> string list \<Rightarrow> tester_rpc list \<Rightarrow> tester_rpc list \<Rightarrow>
   (string \<times> int) list \<Rightarrow> node_outcome defined" where
  "node_program env parse args early mid lines =
     (case parse args of
        Inl code \<Rightarrow> Some (NodeExit code None)
      | Inr fl \<Rightarrow> node_main env fl early mid lines)"

text \<open>A parser that reads the controller's form.\<close>

definition parse_spawned :: "split_fn \<Rightarrow> atoi_fn \<Rightarrow> num_fn \<Rightarrow> string list \<Rightarrow> int + node_flags" where
  "parse_spawned split atoi num args =
     (case parse_node_flags split atoi num args of None \<Rightarrow> Inl 1 | Some fl \<Rightarrow> Inr fl)"

section \<open>Starting up is defined\<close>

text \<open>The log file opens and the name is free; and the port of the Raft server can be bound.\<close>

definition log_ready :: "node_env \<Rightarrow> u64_t \<Rightarrow> bool" where
  "log_ready env i \<longleftrightarrow>
     ne_opens env (''logs/'' @ logger_name i @ ''.log'') \<and> ne_registers env (new_logger (ne_level env) (logger_name i))"

definition port_ready :: "node_env \<Rightarrow> node_flags \<Rightarrow> bool" where
  "port_ready env fl \<longleftrightarrow> ne_listens env (''0.0.0.0:'' @ to_string (nf_port fl))"

definition tester_port_ready :: "node_env \<Rightarrow> node_flags \<Rightarrow> bool" where
  "tester_port_ready env fl \<longleftrightarrow> ne_listens env (''localhost:'' @ to_string (nf_tester_port fl))"

lemma node_construct_result:
  obtains p where "node_construct env fl cfg = Some p" "np_member p \<longleftrightarrow> log_ready env (cfg_id cfg)"
    "np_logger p = (if log_ready env (cfg_id cfg) then Some (new_logger (ne_level env) (logger_name (cfg_id cfg))) else None)"
    "node_svr (np_wrapper p) \<longleftrightarrow> nf_enable_ctrl fl \<and> tester_port_ready env fl"
    "rid (wnode (np_wrapper p)) = cfg_id cfg" "listening_addr (wnode (np_wrapper p)) = cfg_addr cfg"
proof -
  have log: "get_logger (ne_level env) (ne_opens env) (ne_registers env) (cfg_id cfg) None =
      (let l = (if log_ready env (cfg_id cfg) then Some (new_logger (ne_level env) (logger_name (cfg_id cfg))) else None) in (l, l))"
    by (simp add: get_logger_def logger_init_def Let_def log_ready_def)
  define l where "l = (if log_ready env (cfg_id cfg) then Some (new_logger (ne_level env) (logger_name (cfg_id cfg))) else None)"
  define w where "w = (if nf_enable_ctrl fl
      then (RaftWrapper_ctrl cfg (ne_garbage env) (MessageQueue 0))\<lparr>node_svr := tester_port_ready env fl\<rparr>
      else RaftWrapper_plain cfg (ne_garbage env) (MessageQueue 0))"
  have "node_construct env fl cfg = Some \<lparr>np_wrapper = w, np_process = process_initial, np_member = (l \<noteq> None), np_logger = l\<rparr>"
    by (simp add: node_construct_def log Let_def RaftWrapper_boot_eq tester_port_ready_def l_def w_def)
  moreover have "rid (wnode w) = cfg_id cfg" "listening_addr (wnode w) = cfg_addr cfg"
    "node_svr w \<longleftrightarrow> nf_enable_ctrl fl \<and> tester_port_ready env fl"
    by (simp_all add: w_def RaftWrapper_ctrl_def RaftWrapper_plain_def wrapper_serving_def Raft_new_def)
  ultimately show thesis using that by (simp add: l_def)
qed

lemma serve_keeps [simp]:
  "np_member (serve r p) = np_member p" "np_logger (serve r p) = np_logger p"
  "rid (wnode (np_wrapper (serve r p))) = rid (wnode (np_wrapper p))"
  "listening_addr (wnode (np_wrapper (serve r p))) = listening_addr (wnode (np_wrapper p))"
  "node_svr (np_wrapper (serve r p)) = node_svr (np_wrapper p)"
  by (cases r; simp add: serve_def Run_def Kill_def stop_server_def kill_def run_def connect_peers_def
      become_follower_def start_election_timer_def spawn_def Let_def)+

lemma serve_all_keeps [simp]:
  "np_member (fold serve rs p) = np_member p" "np_logger (fold serve rs p) = np_logger p"
  "rid (wnode (np_wrapper (fold serve rs p))) = rid (wnode (np_wrapper p))"
  "listening_addr (wnode (np_wrapper (fold serve rs p))) = listening_addr (wnode (np_wrapper p))"
  "node_svr (np_wrapper (fold serve rs p)) = node_svr (np_wrapper p)"
  by (induction rs arbitrary: p) simp_all

lemma serve_pending_keeps [simp]:
  "np_member (serve_pending rs p) = np_member p" "np_logger (serve_pending rs p) = np_logger p"
  "rid (wnode (np_wrapper (serve_pending rs p))) = rid (wnode (np_wrapper p))"
  "listening_addr (wnode (np_wrapper (serve_pending rs p))) = listening_addr (wnode (np_wrapper p))"
  "node_svr (np_wrapper (serve_pending rs p)) = node_svr (np_wrapper p)"
  by (simp_all add: serve_pending_def)

lemma node_boot_no_peers: "nf_peers fl = [] \<Longrightarrow> node_boot env fl early mid = Some (Inl 1)"
  by (simp add: node_boot_def node_setup_def)

text \<open>
  Start-up is defined exactly when there is a log and the port is free: without a log file the node's logger is null,
  without a port its server, and start-up dereferences it. When it is defined, the interceptors know the node and its
  peers, everyone connected, before the requests of \<open>mid\<close>.
\<close>

definition node_world :: "node_flags \<Rightarrow> string set" where
  "node_world fl = to_string ` ({nf_id fl} \<union> fst ` set (nf_peers fl))"

lemma node_boot_result:
  assumes "nf_peers fl \<noteq> []"
  shows "if log_ready env (nf_id fl) \<and> port_ready env fl
    then \<exists>p1 s. node_boot env fl early mid = Some (Inr ((serve_pending mid p1)\<lparr>np_wrapper :=
           (np_wrapper (serve_pending mid p1))\<lparr>wnode := serving (wnode (np_wrapper (serve_pending mid p1)))\<rparr>\<rparr>)) \<and>
         p_net (np_process p1) = set_type (failure_type (nf_fail_type fl)) \<lparr>net_type = NETWORK_FAILURE, rank1 = node_world fl, rank2 = {}\<rparr> \<and>
         rid (wnode (np_wrapper p1)) = nf_id fl \<and> (node_svr (np_wrapper p1) \<longleftrightarrow> nf_enable_ctrl fl \<and> tester_port_ready env fl)
    else node_boot env fl early mid = None"
proof -
  obtain cfg where cfg: "node_setup (nf_id fl) (nf_port fl) (nf_peers fl) = Inr (cfg, node_world fl)" "cfg_id cfg = nf_id fl"
    using node_setup_world [OF assms, of "nf_id fl" "nf_port fl"] by (auto simp: node_world_def)
  have addr: "cfg_addr cfg = ''0.0.0.0:'' @ to_string (nf_port fl)"
    using cfg(1) assms by (auto simp: node_setup_def)
  obtain p0 where p0: "node_construct env fl cfg = Some p0" "np_member p0 \<longleftrightarrow> log_ready env (nf_id fl)"
    "np_logger p0 = (if log_ready env (nf_id fl) then Some (new_logger (ne_level env) (logger_name (nf_id fl))) else None)"
    "node_svr (np_wrapper p0) \<longleftrightarrow> nf_enable_ctrl fl \<and> tester_port_ready env fl"
    "rid (wnode (np_wrapper p0)) = nf_id fl" "listening_addr (wnode (np_wrapper p0)) = ''0.0.0.0:'' @ to_string (nf_port fl)"
    by (rule node_construct_result [of env fl cfg]) (simp add: cfg addr)
  define q where "q = serve_pending early p0"
  have boot: "node_boot env fl early mid =
      Option.bind (node_prepare fl (node_world fl) q) (\<lambda>p1. map_option Inr (node_start (ne_listens env) (serve_pending mid p1)))"
    by (simp add: node_boot_def cfg(1) p0(1) q_def Option.bind_map_option map_conv_bind_option comp_def)
  show ?thesis
  proof (cases "log_ready env (nf_id fl)")
    case True
    obtain l where l: "prepare_logging (nf_verbosity fl) (np_logger q) = Some (Some l)"
      using True by (simp add: q_def p0(3) prepare_logging_found)
    define p1 where "p1 = q\<lparr>np_process := (np_process q)\<lparr>p_net :=
      prepare_interceptor (nf_fail_type fl) (node_world fl) (p_net (np_process q))\<rparr>, np_logger := Some l\<rparr>"
    have prep: "node_prepare fl (node_world fl) q = Some p1" by (simp add: node_prepare_def Let_def l p1_def)
    have p1: "np_member p1" "rid (wnode (np_wrapper p1)) = nf_id fl"
      "node_svr (np_wrapper p1) \<longleftrightarrow> nf_enable_ctrl fl \<and> tester_port_ready env fl"
      "listening_addr (wnode (np_wrapper p1)) = ''0.0.0.0:'' @ to_string (nf_port fl)"
      using True by (simp_all add: p1_def q_def p0)
    have "p_net (np_process p1) = set_type (failure_type (nf_fail_type fl)) \<lparr>net_type = NETWORK_FAILURE, rank1 = node_world fl, rank2 = {}\<rparr>"
      by (simp add: p1_def prepare_interceptor_eq setup_rank_def set_type_def)
    with p1 True show ?thesis by (auto simp: boot prep node_start_def start_server_def port_ready_def)
  next
    case False
    then have "node_prepare fl (node_world fl) q = Some p1 \<Longrightarrow> \<not> np_member p1" for p1
      by (auto simp: node_prepare_def Let_def Option.bind_eq_Some_conv q_def p0(2))
    then show ?thesis using False by (cases "node_prepare fl (node_world fl) q") (auto simp: boot node_start_def)
  qed
qed

lemma node_boot_runs:
  assumes "nf_peers fl \<noteq> []" "node_boot env fl early mid = Some (Inr p)"
  obtains p1 where "p = (serve_pending mid p1)\<lparr>np_wrapper :=
           (np_wrapper (serve_pending mid p1))\<lparr>wnode := serving (wnode (np_wrapper (serve_pending mid p1)))\<rparr>\<rparr>"
    "p_net (np_process p1) = set_type (failure_type (nf_fail_type fl)) \<lparr>net_type = NETWORK_FAILURE, rank1 = node_world fl, rank2 = {}\<rparr>"
    "rid (wnode (np_wrapper p1)) = nf_id fl" "node_svr (np_wrapper p1) \<longleftrightarrow> nf_enable_ctrl fl \<and> tester_port_ready env fl"
  using node_boot_result [OF assms(1), of env early mid] assms(2) by (auto split: if_splits)

lemma node_boot_defined:
  assumes "nf_peers fl \<noteq> []" "log_ready env (nf_id fl)" "port_ready env fl"
  obtains p where "node_boot env fl early mid = Some (Inr p)"
  using node_boot_result [OF assms(1), of env early mid] assms(2,3) by auto

section \<open>The end of the program\<close>

definition kill_line :: "node_env \<Rightarrow> string \<Rightarrow> bool" where
  "kill_line env line \<longleftrightarrow> ne_split env (ne_strip env line) (CHR '' '') = [''k'']"

lemma mq_close_closed [simp]: "closed (mq_close m)"
  by (simp add: mq_close_def notify_con_def notify_prod_def)

lemma node_destroy_effect:
  "dead (wnode (np_wrapper (node_destroy p))) = dead (wnode (np_wrapper p))"
  "\<not> server_running (wnode (np_wrapper (node_destroy p)))"
  "closed (wready (np_wrapper (node_destroy p)))"
  by (simp_all add: node_destroy_def Let_def wrapper_cleanup_def Raft_delete_def stop_server_def)

text \<open>
  With a log and free ports: under a controller the program serves for ever; otherwise it reads until a line is the
  single word \<open>k\<close>, then it ends cleanly.
\<close>

lemma node_main_serving:
  assumes "nf_peers fl \<noteq> []" "log_ready env (nf_id fl)" "port_ready env fl" "nf_enable_ctrl fl"
  shows "if tester_port_ready env fl then \<exists>p. node_main env fl early mid lines = Some (NodeServing p) \<and> node_svr (np_wrapper p)
    else node_main env fl early mid lines = None"
proof -
  obtain p where boot: "node_boot env fl early mid = Some (Inr p)"
    by (rule node_boot_defined [OF assms(1-3)])
  then have "node_svr (np_wrapper p) \<longleftrightarrow> tester_port_ready env fl"
    using assms(4) by (auto elim: node_boot_runs [OF assms(1)])
  then show ?thesis by (simp add: node_main_def boot assms(4) start_svr_loop_def)
qed

lemma node_main_cli:
  assumes "nf_peers fl \<noteq> []" "log_ready env (nf_id fl)" "port_ready env fl" "\<not> nf_enable_ctrl fl"
  obtains p where
    "node_main env fl early mid lines =
       Some (if list_ex (\<lambda>(line, timer). kill_line env line) lines then NodeExit 0 (Some p) else NodeReading p)"
    "list_ex (\<lambda>(line, timer). kill_line env line) lines \<Longrightarrow>
       dead (wnode (np_wrapper p)) \<and> \<not> server_running (wnode (np_wrapper p)) \<and> closed (wready (np_wrapper p))"
proof -
  obtain p where boot: "node_boot env fl early mid = Some (Inr p)"
    by (rule node_boot_defined [OF assms(1-3)])
  let ?rn = "(wnode (np_wrapper p), p_net (np_process p))"
  obtain s n go where loop: "node_command_loop (ne_strip env) (ne_split env) lines ?rn = ((s, n), go)"
    by (cases "node_command_loop (ne_strip env) (ne_split env) lines ?rn") (metis prod.exhaust)
  have go: "go \<longleftrightarrow> \<not> list_ex (\<lambda>(line, timer). kill_line env line) lines"
    using node_loop_exit_iff [of "ne_strip env" "ne_split env" lines ?rn] loop
    by (auto simp: list_ex_iff kill_line_def)
  have killed: "\<not> go \<Longrightarrow> dead s"
    using node_loop_killed [of "ne_strip env" "ne_split env" lines ?rn] loop by simp
  define q where "q = p\<lparr>np_wrapper := (np_wrapper p)\<lparr>wnode := s\<rparr>, np_process := (np_process p)\<lparr>p_net := n\<rparr>\<rparr>"
  have main: "node_main env fl early mid lines = Some (if go then NodeReading q else NodeExit 0 (Some (node_destroy q)))"
    by (simp add: node_main_def boot assms(4) loop Let_def q_def)
  have q: "wnode (np_wrapper q) = s" by (simp add: q_def)
  show thesis
  proof (cases go)
    case True
    show ?thesis
      by (rule that [of q]) (use True go in \<open>simp_all add: main\<close>)
  next
    case False
    show ?thesis
      by (rule that [of "node_destroy q"])
        (use False go killed in \<open>simp_all add: main node_destroy_effect q\<close>)
  qed
qed

text \<open>
  At the end of its input \<^verbatim>\<open>std::getline\<close> leaves an empty line, and the loop reads on: no number of such
  lines ends the program.
\<close>

lemma node_main_end_of_input:
  assumes "nf_peers fl \<noteq> []" "log_ready env (nf_id fl)" "port_ready env fl" "\<not> nf_enable_ctrl fl"
    and "\<not> kill_line env []" "\<not> list_ex (\<lambda>(line, timer). kill_line env line) lines"
  shows "\<exists>p. node_main env fl early mid (lines @ replicate k ([], timer)) = Some (NodeReading p)"
proof -
  let ?ls = "lines @ replicate k ([], timer)"
  have no: "\<not> list_ex (\<lambda>(line, timer). kill_line env line) ?ls"
    using assms(5,6) by (auto simp: list_ex_iff)
  obtain p where "node_main env fl early mid ?ls =
      Some (if list_ex (\<lambda>(line, timer). kill_line env line) ?ls then NodeExit 0 (Some p) else NodeReading p)"
    by (rule node_main_cli [OF assms(1-4)])
  with no show ?thesis by simp
qed

text \<open>
  Readiness is reported from the constructor, before the interceptors are set up: whatever the tester
  disconnects in between is connected again when \<open>main\<close> goes on.
\<close>

lemma early_requests_lost:
  assumes "nf_peers fl \<noteq> []" "node_boot env fl early [] = Some (Inr p)"
  shows "rank2 (p_net (np_process p)) = {}"
  by (rule node_boot_runs [OF assms]) (simp add: serve_pending_def set_type_def)

end
