(* ===== verification/TestCtrl.thy ===== *)
theory TestCtrl
  imports NodeProgram "HOL-Library.Multiset"
begin

text \<open>
  Class \<^verbatim>\<open>RaftTestCtrl\<close> (\<^verbatim>\<open>inc/toolings/test_ctrl.hpp\<close>): spawns one process per configuration, waits until
  every one has reported, and sends requests to all of them at once. A node's process is a \<open>node_proc\<close> of
  \<open>NodeProgram\<close>; gRPC decides the fate of each call. The order in which a hash map is visited is an argument:
  \<open>c_nodes\<close> lists the stubs in that order.
\<close>

section \<open>State\<close>

text \<open>\<^verbatim>\<open>uint8_t\<close> parameters.\<close>

type_synonym u8_t = int

definition u8 :: "int \<Rightarrow> u8_t" where
  "u8 n = n mod 2 ^ 8"

record ctrl =
  c_server :: bool
  c_ready :: "(u64_t \<times> bool) list"
  c_pids :: "(u64_t \<times> int) list"
  c_threads :: "(u64_t \<times> string) list"
  c_nodes :: "u64_t list"
  c_addrs :: "u64_t \<rightharpoonup> string"
  c_apply :: "u64_t list"

definition ctrl_initial :: ctrl where
  "ctrl_initial =
     \<lparr>c_server = False, c_ready = [], c_pids = [], c_threads = [], c_nodes = [], c_addrs = Map.empty, c_apply = []\<rparr>"

text \<open>
  \<open>ExitProcess\<close>: \<^verbatim>\<open>std::exit\<close>; \<open>OutOfRange\<close>: the exception of \<^verbatim>\<open>at\<close>; \<open>Terminated\<close>: a thread is assigned to
  one that can still be joined; \<open>NullServer\<close>: the thread that waits on the server dereferences null.
\<close>

datatype 'a ctrl_result = Done 'a | ExitProcess int | OutOfRange | Terminated | NullServer

section \<open>Starting the nodes\<close>

text \<open>\<open>listens\<close> is whether gRPC can bind an address; \<^verbatim>\<open>BuildAndStart\<close> returns null when it cannot.\<close>

definition ctrl_start_server :: "(string \<Rightarrow> bool) \<Rightarrow> string \<Rightarrow> ctrl \<Rightarrow> ctrl ctrl_result" where
  "ctrl_start_server listens addr c = (if listens addr then Done (c\<lparr>c_server := True\<rparr>) else NullServer)"

definition ctrl_command :: "string \<Rightarrow> string \<Rightarrow> u8_t \<Rightarrow> u8_t \<Rightarrow> string" where
  "ctrl_command node_app_path ctrl_addr fail_type verbosity =
     node_app_path @ '' --enable_ctrl --ctrl_addr '' @ ctrl_addr @ '' --fail_type '' @ to_string fail_type @
     '' --verbosity '' @ to_string verbosity"

definition spawn_command :: "string \<Rightarrow> config \<Rightarrow> string \<Rightarrow> u64_t \<Rightarrow> string" where
  "spawn_command command cfg port tester_port =
     command @ '' --id '' @ to_string (cfg_id cfg) @ '' --port '' @ port @
     '' --peers '' @ ctrl_peers_arg (cfg_peer_addrs cfg) @
     '' --node_tester_port '' @ to_string tester_port @
     '' > node_runner_'' @ to_string (cfg_id cfg) @ ''.log 2>&1 &''"

text \<open>One round of the loop over the configurations; the thread runs the command.\<close>

definition spawn_one ::
  "split_fn \<Rightarrow> string \<Rightarrow> (u64_t \<rightharpoonup> u64_t) \<Rightarrow> config \<Rightarrow> ctrl \<Rightarrow> ctrl ctrl_result" where
  "spawn_one split command ports cfg c =
     (let c1 = c\<lparr>c_ready := omap_put (cfg_id cfg) False (c_ready c)\<rparr>;
          splits = split (cfg_addr cfg) (CHR '':'')
      in if length splits \<noteq> 2 then ExitProcess 1
         else (case ports (cfg_id cfg) of
                 None \<Rightarrow> OutOfRange
               | Some tp \<Rightarrow>
                   if map_of (c_threads c1) (cfg_id cfg) \<noteq> None then Terminated
                   else Done (c1\<lparr>c_threads := omap_put (cfg_id cfg) (spawn_command command cfg (splits ! 1) tp)
                                               (c_threads c1)\<rparr>)))"

definition ReportReady :: "u64_t \<Rightarrow> int \<Rightarrow> ctrl \<Rightarrow> ctrl \<times> bool \<times> grpc_status" where
  "ReportReady i pid c =
     (c\<lparr>c_ready := omap_put i True (c_ready c), c_pids := omap_put i pid (c_pids c)\<rparr>, True, StatusOK)"

text \<open>
  The thread of a node runs the shell, and a node reports as soon as its process is up, while the loop is still
  spawning others: a run of the loop, and of the wait after it, is a sequence of its rounds, of reports, and of
  calls of \<^verbatim>\<open>std::system\<close> that return -1, upon which the thread calls \<^verbatim>\<open>std::exit\<close>. The first component is what
  is left of \<^verbatim>\<open>configs\<close>.
\<close>

datatype spawn_event = SpawnNext | Report u64_t int | ShellFailed u64_t

fun spawn_raft_node ::
  "split_fn \<Rightarrow> string \<Rightarrow> (u64_t \<rightharpoonup> u64_t) \<Rightarrow> spawn_event list \<Rightarrow> config list \<times> ctrl \<Rightarrow> (config list \<times> ctrl) ctrl_result"
where
  "spawn_raft_node split command ports [] s = Done s"
| "spawn_raft_node split command ports (Report i pid # evs) (configs, c) =
     spawn_raft_node split command ports evs (configs, fst (ReportReady i pid c))"
| "spawn_raft_node split command ports (ShellFailed i # evs) (configs, c) = ExitProcess 1"
| "spawn_raft_node split command ports (SpawnNext # evs) (configs, c) =
     (case configs of
        [] \<Rightarrow> spawn_raft_node split command ports evs ([], c)
      | cfg # rest \<Rightarrow>
          (case spawn_one split command ports cfg c of
             Done c1 \<Rightarrow> spawn_raft_node split command ports evs (rest, c1)
           | ExitProcess n \<Rightarrow> ExitProcess n
           | OutOfRange \<Rightarrow> OutOfRange
           | Terminated \<Rightarrow> Terminated
           | NullServer \<Rightarrow> NullServer))"

fun is_all_ready :: "(u64_t \<times> bool) list \<Rightarrow> bool" where
  "is_all_ready [] = True"
| "is_all_ready ((i, ready) # rest) = (if \<not> ready then False else is_all_ready rest)"

text \<open>
  \<open>None\<close>: still waiting. \<open>order\<close> is the order in which the keys of the hash map \<^verbatim>\<open>node_tester_ports\<close> are visited; each
  gets a stub for its port on the local host.
\<close>

definition hash_order :: "(u64_t \<rightharpoonup> 'v) \<Rightarrow> u64_t list \<Rightarrow> bool" where
  "hash_order m order \<longleftrightarrow> distinct order \<and> set order = dom m"

definition connect_to_raft_nodes :: "(u64_t \<rightharpoonup> u64_t) \<Rightarrow> u64_t list \<Rightarrow> ctrl \<Rightarrow> ctrl option" where
  "connect_to_raft_nodes ports order c =
     (if is_all_ready (c_ready c)
      then Some (c\<lparr>c_nodes := filter (\<lambda>i. ports i \<noteq> None) order,
                   c_addrs := (\<lambda>i. map_option (\<lambda>port. ''localhost:'' @ to_string port) (ports i))\<rparr>)
      else None)"

definition server_apply_result_from_all_nodes :: "ctrl \<Rightarrow> ctrl" where
  "server_apply_result_from_all_nodes c = c\<lparr>c_apply := c_apply c @ c_nodes c\<rparr>"

text \<open>The constructor: the server, the spawning loop, the wait, and one thread per node that reads its results.\<close>

definition RaftTestCtrl_new ::
  "(string \<Rightarrow> bool) \<Rightarrow> split_fn \<Rightarrow> config list \<Rightarrow> (u64_t \<rightharpoonup> u64_t) \<Rightarrow> string \<Rightarrow> string \<Rightarrow> int \<Rightarrow> int \<Rightarrow>
   spawn_event list \<Rightarrow> u64_t list \<Rightarrow> ctrl option ctrl_result" where
  "RaftTestCtrl_new listens split configs ports node_app_path ctrl_addr fail_type verbosity evs order =
     (case ctrl_start_server listens ctrl_addr ctrl_initial of
        Done c0 \<Rightarrow>
          (case spawn_raft_node split (ctrl_command node_app_path ctrl_addr (u8 fail_type) (u8 verbosity)) ports evs
                  (configs, c0) of
             Done (rest, c) \<Rightarrow>
               Done (if rest = [] then map_option server_apply_result_from_all_nodes (connect_to_raft_nodes ports order c)
                     else None)
           | ExitProcess n \<Rightarrow> ExitProcess n
           | OutOfRange \<Rightarrow> OutOfRange
           | Terminated \<Rightarrow> Terminated
           | NullServer \<Rightarrow> NullServer)
      | _ \<Rightarrow> NullServer)"

text \<open>The loop of \<^verbatim>\<open>serve_apply_result\<close> over what a node streams.\<close>

definition serve_apply_result :: "(tester_apply \<Rightarrow> 's \<Rightarrow> 's) \<Rightarrow> u64_t \<Rightarrow> tester_apply list \<Rightarrow> 's \<Rightarrow> 's" where
  "serve_apply_result applier_func i results = fold (\<lambda>r. applier_func (r\<lparr>ta_id := Some i\<rparr>)) results"

section \<open>Requests to all nodes\<close>

text \<open>What happens to a call: the node never gets it, the node serves it but the answer is lost, or all is well.\<close>

datatype rpc_fate = NotServed | AnswerLost | Served

text \<open>
  One asynchronous call: the status is OK or not, and the response, which has its default value unless an
  answer arrives.
\<close>

definition async_call ::
  "(u64_t \<Rightarrow> rpc_fate) \<Rightarrow> (u64_t \<Rightarrow> 'p \<Rightarrow> 'p \<times> 'r) \<Rightarrow> 'r \<Rightarrow> u64_t \<Rightarrow> (u64_t \<Rightarrow> 'p) \<Rightarrow> (u64_t \<Rightarrow> 'p) \<times> bool \<times> 'r" where
  "async_call fate call blank i w =
     (case fate i of
        NotServed \<Rightarrow> (w, False, blank)
      | AnswerLost \<Rightarrow> (w(i := fst (call i (w i))), False, blank)
      | Served \<Rightarrow> (w(i := fst (call i (w i))), True, snd (call i (w i))))"

text \<open>
  \<^verbatim>\<open>!connected.empty() && !connected.at(id)\<close>; \<open>None\<close> is the exception of \<^verbatim>\<open>at\<close>. The calls launched before the
  exception are still waited for, by the destructors of their futures.
\<close>

definition left_out :: "(u64_t \<times> bool) list \<Rightarrow> u64_t \<Rightarrow> bool option" where
  "left_out connected i = (if connected = [] then Some False else map_option Not (map_of connected i))"

fun call_all ::
  "(u64_t \<Rightarrow> rpc_fate) \<Rightarrow> (u64_t \<Rightarrow> 'p \<Rightarrow> 'p \<times> 'r) \<Rightarrow> 'r \<Rightarrow> (u64_t \<times> bool) list \<Rightarrow> u64_t list \<Rightarrow> (u64_t \<Rightarrow> 'p) \<Rightarrow>
   (u64_t \<Rightarrow> 'p) \<times> (bool \<times> 'r) list option" where
  "call_all fate call blank connected [] w = (w, Some [])"
| "call_all fate call blank connected (i # is) w =
     (case left_out connected i of
        None \<Rightarrow> (w, None)
      | Some True \<Rightarrow> call_all fate call blank connected is w
      | Some False \<Rightarrow>
          (case async_call fate call blank i w of
             (w1, fut) \<Rightarrow>
               (case call_all fate call blank connected is w1 of
                  (w2, futs) \<Rightarrow> (w2, map_option (\<lambda>fs. fut # fs) futs))))"

text \<open>The nodes as the operating system runs them: their processes, and which process ids are alive.\<close>

record system =
  sys_proc :: "u64_t \<Rightarrow> node_proc"
  sys_live :: "int set"

definition all_ok :: "(bool \<times> 'r) list \<Rightarrow> bool" where
  "all_ok futs = list_all fst futs"

text \<open>A command to all nodes: the program exits when one of them fails.\<close>

definition command_all ::
  "(u64_t \<Rightarrow> rpc_fate) \<Rightarrow> (u64_t \<Rightarrow> tester_rpc) \<Rightarrow> (u64_t \<times> bool) list \<Rightarrow> ctrl \<Rightarrow> system \<Rightarrow>
   system \<times> unit ctrl_result" where
  "command_all fate request connected c s =
     (case call_all fate (\<lambda>i p. (serve (request i) p, ())) () connected (c_nodes c) (sys_proc s) of
        (w, None) \<Rightarrow> (s\<lparr>sys_proc := w\<rparr>, OutOfRange)
      | (w, Some futs) \<Rightarrow> (s\<lparr>sys_proc := w\<rparr>, if all_ok futs then Done () else ExitProcess 1))"

text \<open>\<open>timers\<close>: the election delay each node draws.\<close>

definition ctrl_run ::
  "(u64_t \<Rightarrow> rpc_fate) \<Rightarrow> (u64_t \<Rightarrow> int) \<Rightarrow> (u64_t \<times> bool) list \<Rightarrow> ctrl \<Rightarrow> system \<Rightarrow> system \<times> unit ctrl_result" where
  "ctrl_run fate timers = command_all fate (\<lambda>i. RpcRun (timers i))"

definition ctrl_disconnect ::
  "(u64_t \<Rightarrow> rpc_fate) \<Rightarrow> u64_t list \<Rightarrow> ctrl \<Rightarrow> system \<Rightarrow> system \<times> unit ctrl_result" where
  "ctrl_disconnect fate ids = command_all fate (\<lambda>i. RpcDisconnect ids) []"

definition ctrl_reconnect ::
  "(u64_t \<Rightarrow> rpc_fate) \<Rightarrow> u64_t list \<Rightarrow> ctrl \<Rightarrow> system \<Rightarrow> system \<times> unit ctrl_result" where
  "ctrl_reconnect fate ids = command_all fate (\<lambda>i. RpcReconnect ids) []"

text \<open>
  \<^verbatim>\<open>kill\<close> does not look at the answers; then every process that has ever reported gets \<^verbatim>\<open>SIGKILL\<close>, whatever
  \<open>connected\<close> says.
\<close>

definition ctrl_kill ::
  "(u64_t \<Rightarrow> rpc_fate) \<Rightarrow> (u64_t \<times> bool) list \<Rightarrow> ctrl \<Rightarrow> system \<Rightarrow> system \<times> unit ctrl_result" where
  "ctrl_kill fate connected c s =
     (case call_all fate (\<lambda>i p. (serve RpcKill p, ())) () connected (c_nodes c) (sys_proc s) of
        (w, None) \<Rightarrow> (s\<lparr>sys_proc := w\<rparr>, OutOfRange)
      | (w, Some futs) \<Rightarrow>
          (s\<lparr>sys_proc := w, sys_live := fold (\<lambda>(i, pid) live. live - {pid}) (c_pids c) (sys_live s)\<rparr>, Done ()))"

section \<open>Questions to all nodes\<close>

text \<open>A response that has not been filled in has the default values of its message.\<close>

definition no_state :: tester_state where
  "no_state = \<lparr>ts_term = 0, ts_is_leader = False, ts_id = Some 0\<rparr>"

definition no_stats :: rpc_stats where
  "no_stats = \<lparr>rs_bytes = 0, rs_count = 0, rs_id = Some 0\<rparr>"

definition no_proposal :: tester_proposal where
  "no_proposal = \<lparr>tp_index = Some 0, tp_term = Some 0, tp_is_leader = False, tp_id = Some 0\<rparr>"

definition gather :: "system \<Rightarrow> (u64_t \<Rightarrow> node_proc) \<times> (bool \<times> 'r) list option \<Rightarrow> system \<times> 'r list ctrl_result" where
  "gather s r =
     (case r of
        (w, None) \<Rightarrow> (s\<lparr>sys_proc := w\<rparr>, OutOfRange)
      | (w, Some futs) \<Rightarrow> (s\<lparr>sys_proc := w\<rparr>, Done (map snd futs)))"

text \<open>
  A node goes on while it is asked for its state: \<open>reads i p\<close> are the process after the question, and the states of the
  node whose term and whose role are read.
\<close>

type_synonym state_reads = "u64_t \<Rightarrow> node_proc \<Rightarrow> node_proc \<times> raft \<times> raft"

definition get_all_states ::
  "(u64_t \<Rightarrow> rpc_fate) \<Rightarrow> state_reads \<Rightarrow> (u64_t \<times> bool) list \<Rightarrow> ctrl \<Rightarrow> system \<Rightarrow>
   system \<times> tester_state list ctrl_result" where
  "get_all_states fate reads connected c s =
     gather s (call_all fate (\<lambda>i p. case reads i p of (p', sn, sn') \<Rightarrow> (p', GetState sn sn' (np_wrapper p)))
                 no_state connected (c_nodes c) (sys_proc s))"

definition get_all_rpc_stats ::
  "(u64_t \<Rightarrow> rpc_fate) \<Rightarrow> ctrl \<Rightarrow> system \<Rightarrow> system \<times> rpc_stats list ctrl_result" where
  "get_all_rpc_stats fate c s =
     gather s (call_all fate (\<lambda>i p. (p, GetRPCStats (np_wrapper p) (np_process p))) no_stats [] (c_nodes c) (sys_proc s))"

definition get_total_rpc_stats :: "(u64_t \<Rightarrow> rpc_fate) \<Rightarrow> ctrl \<Rightarrow> system \<Rightarrow> rpc_stats option" where
  "get_total_rpc_stats fate c s =
     (case snd (get_all_rpc_stats fate c s) of
        Done stats \<Rightarrow>
          (case fold (\<lambda>st (total_bytes, total_count). (total_bytes + rs_bytes st, total_count + rs_count st)) stats (0, 0) of
             (total_bytes, total_count) \<Rightarrow>
               Some \<lparr>rs_bytes = total_bytes, rs_count = total_count, rs_id = Some 0\<rparr>)
      | _ \<Rightarrow> None)"

definition serve_propose :: "string \<Rightarrow> node_proc \<Rightarrow> node_proc \<times> tester_proposal" where
  "serve_propose data p = (case Propose data (np_wrapper p) of (w, r) \<Rightarrow> (p\<lparr>np_wrapper := w\<rparr>, r))"

definition serve_propose_sync :: "string \<Rightarrow> node_proc \<Rightarrow> node_proc \<times> tester_proposal option" where
  "serve_propose_sync data p = (case ProposeSync data (np_wrapper p) of (w, r) \<Rightarrow> (p\<lparr>np_wrapper := w\<rparr>, r))"

definition propose_to_all ::
  "(u64_t \<Rightarrow> rpc_fate) \<Rightarrow> string \<Rightarrow> (u64_t \<times> bool) list \<Rightarrow> ctrl \<Rightarrow> system \<Rightarrow> system \<times> tester_proposal list ctrl_result" where
  "propose_to_all fate data connected c s =
     gather s (call_all fate (\<lambda>i. serve_propose data) no_proposal connected (c_nodes c) (sys_proc s))"

text \<open>A response \<open>None\<close> is still waited for: the leader has the entry but has not committed it.\<close>

definition propose_to_all_sync ::
  "(u64_t \<Rightarrow> rpc_fate) \<Rightarrow> string \<Rightarrow> (u64_t \<times> bool) list \<Rightarrow> ctrl \<Rightarrow> system \<Rightarrow>
   system \<times> tester_proposal option list ctrl_result" where
  "propose_to_all_sync fate data connected c s =
     gather s (call_all fate (\<lambda>i. serve_propose_sync data) (Some no_proposal) connected (c_nodes c) (sys_proc s))"

text \<open>\<open>Done None\<close>: \<^verbatim>\<open>std::nullopt\<close>.\<close>

definition propose_to_one ::
  "(u64_t \<Rightarrow> rpc_fate) \<Rightarrow> u64_t \<Rightarrow> string \<Rightarrow> ctrl \<Rightarrow> system \<Rightarrow> system \<times> tester_proposal option" where
  "propose_to_one fate i data c s =
     (if i \<notin> set (c_nodes c) then (s, None)
      else (case async_call fate (\<lambda>i. serve_propose data) no_proposal i (sys_proc s) of
              (w, ok, response) \<Rightarrow> (s\<lparr>sys_proc := w\<rparr>, if ok then Some response else None)))"

text \<open>Here the outer \<open>None\<close> says that the answer is still waited for.\<close>

definition propose_to_one_sync ::
  "(u64_t \<Rightarrow> rpc_fate) \<Rightarrow> u64_t \<Rightarrow> string \<Rightarrow> ctrl \<Rightarrow> system \<Rightarrow> system \<times> tester_proposal option option" where
  "propose_to_one_sync fate i data c s =
     (if i \<notin> set (c_nodes c) then (s, Some None)
      else (case async_call fate (\<lambda>i. serve_propose_sync data) (Some no_proposal) i (sys_proc s) of
              (w, ok, response) \<Rightarrow>
                (s\<lparr>sys_proc := w\<rparr>, if ok then map_option Some response else Some None)))"

section \<open>The start of a controller\<close>

text \<open>Reports come from processes that have been spawned.\<close>

fun genuine :: "u64_t set \<Rightarrow> config list \<Rightarrow> spawn_event list \<Rightarrow> bool" where
  "genuine up cs [] = True"
| "genuine up cs (Report i pid # evs) = (i \<in> up \<and> genuine up cs evs)"
| "genuine up cs (ShellFailed i # evs) = (i \<in> up \<and> genuine up cs evs)"
| "genuine up cs (SpawnNext # evs) =
     (case cs of [] \<Rightarrow> genuine up [] evs | cfg # rest \<Rightarrow> genuine (insert (cfg_id cfg) up) rest evs)"

definition shell_failed :: "spawn_event list \<Rightarrow> bool" where
  "shell_failed evs \<longleftrightarrow> (\<exists>i. ShellFailed i \<in> set evs)"

lemma shell_failed_simps [simp]:
  "\<not> shell_failed []" "shell_failed (SpawnNext # evs) \<longleftrightarrow> shell_failed evs"
  "shell_failed (Report i pid # evs) \<longleftrightarrow> shell_failed evs" "shell_failed (ShellFailed i # evs)"
  by (auto simp: shell_failed_def)

definition reported :: "spawn_event list \<Rightarrow> u64_t set" where
  "reported evs = {i. \<exists>pid. Report i pid \<in> set evs}"

lemma reported_simps [simp]:
  "reported [] = {}" "reported (SpawnNext # evs) = reported evs"
  "reported (Report i pid # evs) = insert i (reported evs)" "reported (ShellFailed i # evs) = reported evs"
  by (auto simp: reported_def)

lemma is_all_ready_iff: "is_all_ready m \<longleftrightarrow> (\<forall>(i, ready) \<in> set m. ready)"
  by (induction m rule: is_all_ready.induct) auto

lemma is_all_ready_keys:
  assumes "sorted_wrt (<) (map fst m)"
  shows "is_all_ready m \<longleftrightarrow> (\<forall>i \<in> fst ` set m. map_of m i = Some True)"
proof -
  have d: "distinct (map fst m)" using assms by (simp add: strict_sorted_iff)
  have "map_of m i = Some True \<longleftrightarrow> ready" if "(i, ready) \<in> set m" for i ready
    using map_of_is_SomeI [OF d that] by simp
  then show ?thesis by (fastforce simp: is_all_ready_iff)
qed

text \<open>What the loop has to find: every address has a port, every node a tester port.\<close>

definition spawnable :: "split_fn \<Rightarrow> (u64_t \<rightharpoonup> u64_t) \<Rightarrow> config \<Rightarrow> bool" where
  "spawnable split ports cfg \<longleftrightarrow> length (split (cfg_addr cfg) (CHR '':'')) = 2 \<and> ports (cfg_id cfg) \<noteq> None"

definition command_of :: "split_fn \<Rightarrow> string \<Rightarrow> (u64_t \<rightharpoonup> u64_t) \<Rightarrow> config \<Rightarrow> string" where
  "command_of split command ports cfg =
     spawn_command command cfg (split (cfg_addr cfg) (CHR '':'') ! 1) (the (ports (cfg_id cfg)))"

lemma spawn_one_done:
  assumes "spawnable split ports cfg" "cfg_id cfg \<notin> fst ` set (c_threads c)"
  shows "spawn_one split command ports cfg c =
    Done (c\<lparr>c_ready := omap_put (cfg_id cfg) False (c_ready c),
            c_threads := omap_put (cfg_id cfg) (command_of split command ports cfg) (c_threads c)\<rparr>)"
proof -
  have "map_of (c_threads c) (cfg_id cfg) = None" using assms(2) by (simp add: map_of_eq_None_iff)
  with assms(1) show ?thesis by (auto simp: spawn_one_def Let_def spawnable_def command_of_def)
qed

text \<open>
  The state after a run of the loop that began with \<open>c\<close>: the configurations \<open>ds\<close> have been spawned, each with
  its command, and exactly those that have reported are ready.
\<close>

definition spawned_from ::
  "split_fn \<Rightarrow> string \<Rightarrow> (u64_t \<rightharpoonup> u64_t) \<Rightarrow> ctrl \<Rightarrow> config list \<Rightarrow> u64_t set \<Rightarrow> ctrl \<Rightarrow> bool" where
  "spawned_from split command ports c ds reps c' \<longleftrightarrow>
     fst ` set (c_ready c') = fst ` set (c_ready c) \<union> cfg_id ` set ds \<and>
     sorted_wrt (<) (map fst (c_ready c')) \<and>
     (\<forall>i. map_of (c_ready c') i = Some True \<longleftrightarrow> map_of (c_ready c) i = Some True \<or> i \<in> reps) \<and>
     reps \<subseteq> fst ` set (c_ready c') \<and>
     (\<forall>i. map_of (c_threads c') i =
        (case find (\<lambda>cfg. cfg_id cfg = i) ds of
           Some cfg \<Rightarrow> Some (command_of split command ports cfg) | None \<Rightarrow> map_of (c_threads c) i)) \<and>
     c_apply c' = c_apply c"

lemma spawn_raft_node_runs:
  assumes "genuine (fst ` set (c_ready c)) cs evs" "\<not> shell_failed evs" "\<forall>cfg \<in> set cs. spawnable split ports cfg"
    and "distinct (map cfg_id cs)" "cfg_id ` set cs \<inter> fst ` set (c_ready c) = {}"
    and "cfg_id ` set cs \<inter> fst ` set (c_threads c) = {}" "sorted_wrt (<) (map fst (c_ready c))"
  shows "\<exists>ds cs' c'. spawn_raft_node split command ports evs (cs, c) = Done (cs', c') \<and> cs = ds @ cs' \<and>
    spawned_from split command ports c ds (reported evs) c'"
  using assms
proof (induction evs arbitrary: cs c)
  case Nil
  then show ?case by (simp add: spawned_from_def)
next
  case (Cons ev evs)
  show ?case
  proof (cases ev)
    case (Report i pid)
    define c1 where "c1 = fst (ReportReady i pid c)"
    have i: "i \<in> fst ` set (c_ready c)" using Cons.prems(1) by (simp add: Report)
    have keys: "fst ` set (c_ready c1) = fst ` set (c_ready c)"
      using i by (auto simp: c1_def ReportReady_def set_keys_omap_put)
    have same: "c_threads c1 = c_threads c" "c_apply c1 = c_apply c"
      by (simp_all add: c1_def ReportReady_def)
    have sorted: "sorted_wrt (<) (map fst (c_ready c1))"
      using Cons.prems(7) by (simp add: c1_def ReportReady_def sorted_omap_put)
    have ready: "map_of (c_ready c1) = (map_of (c_ready c))(i \<mapsto> True)"
      by (simp add: c1_def ReportReady_def map_of_omap_put)
    obtain ds cs' c' where run: "spawn_raft_node split command ports evs (cs, c1) = Done (cs', c')" "cs = ds @ cs'"
      and from1: "spawned_from split command ports c1 ds (reported evs) c'"
      using Cons.IH [of c1 cs] Cons.prems keys same sorted by (auto simp: Report)
    have "spawned_from split command ports c ds (reported (ev # evs)) c'"
      using from1 i unfolding spawned_from_def keys same ready Report by auto
    with run show ?thesis by (auto simp: Report c1_def)
  next
    case (ShellFailed i)
    with Cons.prems(2) show ?thesis by simp
  next
    case SpawnNext
    show ?thesis
    proof (cases cs)
      case Nil
      then show ?thesis using Cons.IH [of c "[]"] Cons.prems by (simp add: SpawnNext)
    next
      case (Cons cfg rest)
      define c1 where "c1 = c\<lparr>c_ready := omap_put (cfg_id cfg) False (c_ready c),
            c_threads := omap_put (cfg_id cfg) (command_of split command ports cfg) (c_threads c)\<rparr>"
      have one: "spawn_one split command ports cfg c = Done c1"
        unfolding c1_def by (rule spawn_one_done) (use Cons.prems Cons in auto)
      have new: "map_of (c_ready c) (cfg_id cfg) = None" "cfg_id cfg \<notin> cfg_id ` set rest"
        using Cons.prems(4,5) Cons by (auto simp: map_of_eq_None_iff)
      have keys: "fst ` set (c_ready c1) = insert (cfg_id cfg) (fst ` set (c_ready c))"
        "fst ` set (c_threads c1) = insert (cfg_id cfg) (fst ` set (c_threads c))"
        by (simp_all add: c1_def set_keys_omap_put)
      have sorted: "sorted_wrt (<) (map fst (c_ready c1))"
        using Cons.prems(7) by (simp add: c1_def sorted_omap_put)
      have maps: "map_of (c_ready c1) = (map_of (c_ready c))(cfg_id cfg \<mapsto> False)"
        "map_of (c_threads c1) = (map_of (c_threads c))(cfg_id cfg \<mapsto> command_of split command ports cfg)"
        by (simp_all add: c1_def map_of_omap_put)
      have same: "c_apply c1 = c_apply c" by (simp add: c1_def)
      obtain ds cs' c' where run: "spawn_raft_node split command ports evs (rest, c1) = Done (cs', c')" "rest = ds @ cs'"
        and from1: "spawned_from split command ports c1 ds (reported evs) c'"
        using Cons.IH [of c1 rest] Cons.prems keys sorted new(2) by (auto simp: SpawnNext Cons)
      have "find (\<lambda>x. cfg_id x = cfg_id cfg) ds = None"
        unfolding find_None_iff using new(2) run(2) by (metis Un_iff imageI set_append)
      then have "spawned_from split command ports c (cfg # ds) (reported (ev # evs)) c'"
        using from1 new(1) unfolding spawned_from_def keys same maps SpawnNext by (auto split: option.split)
      with run one show ?thesis by (auto simp: SpawnNext Cons)
    qed
  qed
qed

text \<open>A shell that cannot be started ends the program, whatever else happens.\<close>

lemma spawn_raft_node_append:
  "spawn_raft_node split command ports (evs @ evs') s =
     (case spawn_raft_node split command ports evs s of
        Done s' \<Rightarrow> spawn_raft_node split command ports evs' s'
      | ExitProcess n \<Rightarrow> ExitProcess n | OutOfRange \<Rightarrow> OutOfRange | Terminated \<Rightarrow> Terminated | NullServer \<Rightarrow> NullServer)"
  by (induction split command ports evs s rule: spawn_raft_node.induct)
    (auto split: list.split ctrl_result.split)

lemma genuine_append: "genuine up cs (evs @ evs') \<Longrightarrow> genuine up cs evs"
  by (induction up cs evs rule: genuine.induct) (auto split: list.splits)

lemma spawn_raft_node_fails:
  assumes "genuine (fst ` set (c_ready c)) cs evs" "shell_failed evs" "\<forall>cfg \<in> set cs. spawnable split ports cfg"
    and "distinct (map cfg_id cs)" "cfg_id ` set cs \<inter> fst ` set (c_ready c) = {}"
    and "cfg_id ` set cs \<inter> fst ` set (c_threads c) = {}" "sorted_wrt (<) (map fst (c_ready c))"
  shows "spawn_raft_node split command ports evs (cs, c) = ExitProcess 1"
proof -
  obtain evs1 i evs2 where evs: "evs = evs1 @ ShellFailed i # evs2" "\<not> shell_failed evs1"
  proof -
    have "\<exists>ev \<in> set evs. \<exists>i. ev = ShellFailed i" using assms(2) by (auto simp: shell_failed_def)
    from split_list_first_prop [OF this] show thesis using that by (fastforce simp: shell_failed_def)
  qed
  obtain cs' c' where "spawn_raft_node split command ports evs1 (cs, c) = Done (cs', c')"
    using spawn_raft_node_runs [OF genuine_append evs(2) assms(3-7)] assms(1) evs(1) by blast
  then show ?thesis by (simp add: evs(1) spawn_raft_node_append)
qed

text \<open>
  The constructor on spawnable configurations: without its port it dereferences null, and if a shell cannot be
  started it exits. Otherwise it returns exactly when every configured node has reported; then every node has its
  command, a stub for its tester port and a thread that reads its results.
\<close>

lemma RaftTestCtrl_new_fails:
  "\<not> listens addr \<Longrightarrow> RaftTestCtrl_new listens split cs ports path addr ft vb evs order = NullServer"
  "listens addr \<Longrightarrow> shell_failed evs \<Longrightarrow> genuine {} cs evs \<Longrightarrow> \<forall>cfg \<in> set cs. spawnable split ports cfg \<Longrightarrow>
     distinct (map cfg_id cs) \<Longrightarrow> RaftTestCtrl_new listens split cs ports path addr ft vb evs order = ExitProcess 1"
  using spawn_raft_node_fails [of "ctrl_initial\<lparr>c_server := True\<rparr>" cs evs split ports]
  by (simp_all add: RaftTestCtrl_new_def ctrl_start_server_def ctrl_initial_def)

lemma RaftTestCtrl_new_returns:
  fixes split
  defines "command \<equiv> \<lambda>path addr ft vb. ctrl_command path addr (u8 ft) (u8 vb)"
  assumes "genuine {} cs evs" "\<forall>cfg \<in> set cs. spawnable split ports cfg" "distinct (map cfg_id cs)"
    and "listens addr" "\<not> shell_failed evs" "hash_order ports order"
  obtains r where "RaftTestCtrl_new listens split cs ports path addr ft vb evs order = Done r"
    "r \<noteq> None \<longleftrightarrow> cfg_id ` set cs \<subseteq> reported evs"
    "\<And>c. r = Some c \<Longrightarrow> c_nodes c = order \<and> c_apply c = order \<and>
       c_addrs c = (\<lambda>i. map_option (\<lambda>port. ''localhost:'' @ to_string port) (ports i)) \<and>
       (\<forall>cfg \<in> set cs. map_of (c_threads c) (cfg_id cfg) = Some (command_of split (command path addr ft vb) ports cfg))"
proof -
  let ?cmd = "command path addr ft vb" and ?c0 = "ctrl_initial\<lparr>c_server := True\<rparr>"
  obtain ds cs' c where run: "spawn_raft_node split ?cmd ports evs (cs, ?c0) = Done (cs', c)" "cs = ds @ cs'"
    and s: "spawned_from split ?cmd ports ?c0 ds (reported evs) c"
    using spawn_raft_node_runs [of ?c0 cs evs split ports ?cmd] assms(2-4,6) by (auto simp: ctrl_initial_def)
  define r where "r = (if cs' = [] then map_option server_apply_result_from_all_nodes (connect_to_raft_nodes ports order c) else None)"
  have keys: "fst ` set (c_ready c) = cfg_id ` set ds" and sorted: "sorted_wrt (<) (map fst (c_ready c))"
    and ready: "\<And>i. map_of (c_ready c) i = Some True \<longleftrightarrow> i \<in> reported evs"
    using s by (simp_all add: spawned_from_def ctrl_initial_def)
  have rep: "reported evs \<subseteq> cfg_id ` set ds" using s keys by (simp add: spawned_from_def)
  have disj: "cfg_id ` set ds \<inter> cfg_id ` set cs' = {}" using assms(4) run(2) by auto
  have all: "is_all_ready (c_ready c) \<longleftrightarrow> cfg_id ` set ds \<subseteq> reported evs"
    unfolding is_all_ready_keys [OF sorted] keys using ready by auto
  have some: "r \<noteq> None \<longleftrightarrow> cfg_id ` set cs \<subseteq> reported evs"
  proof (cases "cs' = []")
    case True
    then show ?thesis using run(2) all by (simp add: r_def connect_to_raft_nodes_def)
  next
    case False
    then obtain x where x: "x \<in> set cs'" by (cases cs') auto
    then have "cfg_id x \<notin> reported evs" using rep disj by auto
    with x run(2) False show ?thesis by (auto simp: r_def)
  qed
  show thesis
  proof (rule that [of r])
    show "RaftTestCtrl_new listens split cs ports path addr ft vb evs order = Done r"
      using run(1) assms(5) by (simp add: RaftTestCtrl_new_def ctrl_start_server_def r_def command_def)
    fix c'
    assume c': "r = Some c'"
    then have cs: "cs' = []" "ds = cs" using run(2) by (auto simp: r_def split: if_splits)
    have "filter (\<lambda>i. ports i \<noteq> None) order = order"
      using assms(7) by (auto simp: hash_order_def filter_id_conv)
    then have c'_eq: "c' = server_apply_result_from_all_nodes (c\<lparr>c_nodes := order,
        c_addrs := (\<lambda>i. map_option (\<lambda>port. ''localhost:'' @ to_string port) (ports i))\<rparr>)"
      using c' cs by (auto simp: r_def connect_to_raft_nodes_def split: if_splits)
    have apply_nil: "c_apply c = []" using s by (simp add: spawned_from_def ctrl_initial_def)
    have "map_of (c_threads c) (cfg_id cfg) = Some (command_of split ?cmd ports cfg)" if "cfg \<in> set cs" for cfg
    proof -
      have "find (\<lambda>x. cfg_id x = cfg_id cfg) cs = Some cfg"
        using that assms(4) by (induction cs) (auto simp: image_iff)
      then show ?thesis using s cs(2) by (simp add: spawned_from_def)
    qed
    with apply_nil show "c_nodes c' = order \<and> c_apply c' = order \<and>
       c_addrs c' = (\<lambda>i. map_option (\<lambda>port. ''localhost:'' @ to_string port) (ports i)) \<and>
       (\<forall>cfg \<in> set cs. map_of (c_threads c') (cfg_id cfg) = Some (command_of split ?cmd ports cfg))"
      by (simp add: c'_eq server_apply_result_from_all_nodes_def)
  qed (rule some)
qed

section \<open>Calls to all nodes\<close>

definition participants :: "(u64_t \<times> bool) list \<Rightarrow> u64_t list \<Rightarrow> u64_t list" where
  "participants connected is = filter (\<lambda>i. left_out connected i = Some False) is"

text \<open>
  Every node that takes part gets its call once, on the state it had before, whatever the order in which the
  others are called; the results come in the order of the stubs.
\<close>

lemma call_all_result:
  assumes "distinct is" "\<forall>i \<in> set is. left_out connected i \<noteq> None"
  shows "call_all fate call blank connected is w =
    (\<lambda>i. if i \<in> set (participants connected is) \<and> fate i \<noteq> NotServed then fst (call i (w i)) else w i,
     Some (map (\<lambda>i. if fate i = Served then (True, snd (call i (w i))) else (False, blank)) (participants connected is)))"
  using assms
proof (induction "is" arbitrary: w)
  case Nil
  then show ?case by (simp add: participants_def)
next
  case (Cons i "is")
  show ?case
  proof (cases "left_out connected i")
    case None
    with Cons.prems show ?thesis by simp
  next
    case (Some b)
    show ?thesis
    proof (cases b)
      case True
      with Some Cons show ?thesis by (simp add: participants_def)
    next
      case False
      obtain w1 fut where one: "async_call fate call blank i w = (w1, fut)"
        by (cases "async_call fate call blank i w") auto
      then have w1: "w1 = w(i := if fate i \<noteq> NotServed then fst (call i (w i)) else w i)"
        and fut: "fut = (if fate i = Served then (True, snd (call i (w i))) else (False, blank))"
        by (auto simp: async_call_def split: rpc_fate.splits)
      let ?ps = "participants connected is"
      have notin: "i \<notin> set ?ps" using Cons.prems(1) by (simp add: participants_def)
      have "map (\<lambda>i. if fate i = Served then (True, snd (call i (w1 i))) else (False, blank)) ?ps =
          map (\<lambda>i. if fate i = Served then (True, snd (call i (w i))) else (False, blank)) ?ps"
        by (rule map_cong [OF refl]) (use notin w1 in auto)
      with Cons.IH [of w1] Cons.prems have rest: "call_all fate call blank connected is w1 =
          (\<lambda>i. if i \<in> set ?ps \<and> fate i \<noteq> NotServed then fst (call i (w1 i)) else w1 i,
           Some (map (\<lambda>i. if fate i = Served then (True, snd (call i (w i))) else (False, blank)) ?ps))"
        by simp
      have ps: "participants connected (i # is) = i # ?ps" using Some False by (simp add: participants_def)
      have "(\<lambda>j. if j \<in> set ?ps \<and> fate j \<noteq> NotServed then fst (call j (w1 j)) else w1 j) =
          (\<lambda>j. if j \<in> set (i # ?ps) \<and> fate j \<noteq> NotServed then fst (call j (w j)) else w j)"
        using notin by (intro ext) (auto simp: w1)
      with Some False show ?thesis by (simp add: one rest ps fut)
    qed
  qed
qed

corollary call_all_order:
  assumes "distinct is" "mset is = mset js" "\<forall>i \<in> set is. left_out connected i \<noteq> None"
  shows "fst (call_all fate call blank connected is w) = fst (call_all fate call blank connected js w)"
proof -
  have "set is = set js" "distinct js" using assms(1,2) by (auto dest: mset_eq_setD mset_eq_imp_distinct_iff)
  with assms(1,3) show ?thesis by (simp add: call_all_result participants_def fun_eq_iff)
qed

lemma left_out_nobody [simp]: "left_out [] i = Some False"
  by (simp add: left_out_def)

lemma participants_nobody [simp]: "participants [] is = is"
  by (simp add: participants_def)

lemma all_ok_map: "all_ok (map (\<lambda>i. if P i then (True, f i) else (False, g i)) is) \<longleftrightarrow> list_all P is"
  by (induction "is") (auto simp: all_ok_def)

lemma command_all_nodes:
  assumes "distinct (c_nodes c)"
  shows "sys_proc (fst (command_all fate request [] c s)) =
      (\<lambda>i. if i \<in> set (c_nodes c) \<and> fate i \<noteq> NotServed then serve (request i) (sys_proc s i) else sys_proc s i)"
    and "snd (command_all fate request [] c s) =
      (if \<forall>i \<in> set (c_nodes c). fate i = Served then Done () else ExitProcess 1)"
  using assms by (auto simp: command_all_def call_all_result all_ok_map list_all_iff)

lemma command_all_live [simp]: "sys_live (fst (command_all fate request connected c s)) = sys_live s"
  by (auto simp: command_all_def split: prod.split option.split)

text \<open>The total is the sum of the counters of all nodes, modulo \<open>2 ^ 64\<close>, when every node answers.\<close>

lemma total_rpc_stats:
  assumes "distinct (c_nodes c)"
  shows "get_total_rpc_stats (\<lambda>_. Served) c s =
    Some \<lparr>rs_bytes = (\<Sum>i \<leftarrow> c_nodes c. total_bytes_sent (p_bytes (np_process (sys_proc s i)))),
          rs_count = (\<Sum>i \<leftarrow> c_nodes c. total_rpc_count (p_bytes (np_process (sys_proc s i)))), rs_id = Some 0\<rparr>"
proof -
  have "fold (\<lambda>st (b, n). (b + rs_bytes st, n + rs_count st)) sts (b, n) =
      (b + sum_list (map rs_bytes sts), n + sum_list (map rs_count sts))" for sts :: "rpc_stats list" and b n
    by (induction sts arbitrary: b n) (auto simp: add.assoc)
  then show ?thesis
    using assms
    by (simp add: get_total_rpc_stats_def get_all_rpc_stats_def gather_def call_all_result comp_def
        GetRPCStats_def get_total_bytes_sent_def get_total_rpc_count_def)
qed

text \<open>After \<^verbatim>\<open>kill\<close> every node that got the request is dead, and no process that ever reported is alive.\<close>

lemma ctrl_kill_effect:
  assumes "distinct (c_nodes c)"
  shows "snd (ctrl_kill fate [] c s) = Done ()"
    and "i \<in> set (c_nodes c) \<Longrightarrow> fate i \<noteq> NotServed \<Longrightarrow>
      dead (wnode (np_wrapper (sys_proc (fst (ctrl_kill fate [] c s)) i)))"
    and "snd ` set (c_pids c) \<inter> sys_live (fst (ctrl_kill fate [] c s)) = {}"
proof -
  have live: "fold (\<lambda>(i, pid) live. live - {pid}) ps A = A - snd ` set ps" for ps :: "(int \<times> int) list" and A
    by (induction ps arbitrary: A) auto
  show "snd (ctrl_kill fate [] c s) = Done ()"
    "snd ` set (c_pids c) \<inter> sys_live (fst (ctrl_kill fate [] c s)) = {}"
    using assms by (auto simp: ctrl_kill_def call_all_result live)
  show "i \<in> set (c_nodes c) \<Longrightarrow> fate i \<noteq> NotServed \<Longrightarrow>
      dead (wnode (np_wrapper (sys_proc (fst (ctrl_kill fate [] c s)) i)))"
    using assms by (simp add: ctrl_kill_def call_all_result serve_def Kill_def stop_server_def kill_def)
qed

section \<open>Fault injection from the controller\<close>

text \<open>A node of a cluster \<open>{0..<n}\<close> as its \<^verbatim>\<open>main\<close> leaves it: it knows its id, and nobody is disconnected.\<close>

definition joined :: "int \<Rightarrow> int \<Rightarrow> u64_t \<Rightarrow> node_proc \<Rightarrow> bool" where
  "joined n ft i p \<longleftrightarrow>
     rid (wnode (np_wrapper p)) = i \<and>
     p_net (np_process p) =
       set_type (failure_type ft) \<lparr>net_type = NETWORK_FAILURE, rank1 = to_string ` {0..<n}, rank2 = {}\<rparr>"

lemma node_boot_joined:
  assumes "nf_peers fl \<noteq> []" "insert (nf_id fl) (fst ` set (nf_peers fl)) = {0..<n}"
    and "node_boot env fl early [] = Some (Inr p)"
  shows "joined n (nf_fail_type fl) (nf_id fl) p"
proof -
  have world: "node_world fl = to_string ` {0..<n}" unfolding node_world_def assms(2) [symmetric] by simp
  show ?thesis
    by (rule node_boot_runs [OF assms(1,3)]) (simp add: world joined_def serve_pending_def serving_def)
qed

lemma joined_run: "joined n ft i p \<Longrightarrow> joined n ft i (serve (RpcRun timer) p)"
  by (simp add: joined_def) (simp add: serve_def)

text \<open>
  What a controller may rely on in its nodes: every request keeps the property a node has. Then calling all of
  them keeps it for all, whatever the fates of the calls and whoever takes part.
\<close>

locale node_contract =
  fixes good :: "u64_t \<Rightarrow> 'p \<Rightarrow> bool" and call :: "u64_t \<Rightarrow> 'p \<Rightarrow> 'p \<times> 'r"
  assumes keeps: "good i p \<Longrightarrow> good i (fst (call i p))"
begin

lemma async_call_keeps: "good j (w j) \<Longrightarrow> good j (fst (async_call fate call blank i w) j)"
  by (auto simp: async_call_def keeps split: rpc_fate.split)

lemma call_all_keeps: "good j (w j) \<Longrightarrow> good j (fst (call_all fate call blank connected is w) j)"
proof (induction "is" arbitrary: w)
  case (Cons i "is")
  then have "good j (fst (async_call fate call blank i w) j)" by (intro async_call_keeps)
  with Cons show ?case by (fastforce split: option.split bool.split prod.split)
qed simp

end

interpretation runs: node_contract "joined n ft" "\<lambda>i p. (serve (RpcRun (timers i)) p, ())" for n ft timers
  by unfold_locales (simp add: joined_run)

lemma propose_rid:
  "rid (wnode (np_wrapper (fst (serve_propose data p)))) = rid (wnode (np_wrapper p))"
  "rid (wnode (np_wrapper (fst (serve_propose_sync data p)))) = rid (wnode (np_wrapper p))"
  "np_process (fst (serve_propose data p)) = np_process p" "np_process (fst (serve_propose_sync data p)) = np_process p"
  by (auto simp: serve_propose_def serve_propose_sync_def Propose_def ProposeSync_def propose_def push_proposal_def
      propose_sync_def sync_finish_def spawn_def Let_def split: prod.splits if_splits)

interpretation proposes: node_contract "joined n ft" "\<lambda>i. serve_propose data" for n ft data
  by unfold_locales (simp add: joined_def propose_rid)

interpretation sync_proposes: node_contract "joined n ft" "\<lambda>i. serve_propose_sync data" for n ft data
  by unfold_locales (simp add: joined_def propose_rid)

text \<open>Running the cluster and proposing to it leave its network alone.\<close>

lemma joined_kept:
  "joined n ft i (sys_proc s i) \<Longrightarrow> joined n ft i (sys_proc (fst (ctrl_run fate timers connected c s)) i)"
  "joined n ft i (sys_proc s i) \<Longrightarrow> joined n ft i (sys_proc (fst (propose_to_all fate data connected c s)) i)"
  "joined n ft i (sys_proc s i) \<Longrightarrow> joined n ft i (sys_proc (fst (propose_to_all_sync fate data connected c s)) i)"
proof -
  assume j: "joined n ft i (sys_proc s i)"
  show "joined n ft i (sys_proc (fst (ctrl_run fate timers connected c s)) i)"
    using runs.call_all_keeps [where w = "sys_proc s" and j = i, OF j, of fate timers "()" connected "c_nodes c"]
    by (auto simp: ctrl_run_def command_all_def split: prod.split option.split)
  show "joined n ft i (sys_proc (fst (propose_to_all fate data connected c s)) i)"
    using proposes.call_all_keeps [where w = "sys_proc s" and j = i, OF j, of fate data no_proposal connected "c_nodes c"]
    by (auto simp: propose_to_all_def gather_def split: prod.split option.split)
  show "joined n ft i (sys_proc (fst (propose_to_all_sync fate data connected c s)) i)"
    using sync_proposes.call_all_keeps [where w = "sys_proc s" and j = i, OF j, of fate data "Some no_proposal" connected "c_nodes c"]
    by (auto simp: propose_to_all_sync_def gather_def split: prod.split option.split)
qed

text \<open>The network of a joined node after the request to disconnect \<open>ids\<close>.\<close>

lemma joined_disconnected:
  assumes "joined n ft i p"
  shows "p_net (np_process (serve (RpcDisconnect ids) p)) =
    isolated_net [0..n - 1] ids (failure_type ft) net_initial"
proof -
  have "set [0..n - 1] = {0..<n}" by auto
  with assms show ?thesis
    by (simp add: joined_def serve_def Disconnect_def isolated_net_def fold_to_string setup_rank_def
        net_initial_def)
qed

definition call_passes :: "system \<Rightarrow> u64_t \<Rightarrow> u64_t \<Rightarrow> bool" where
  "call_passes s i k \<longleftrightarrow>
     Intercept True (create_context k (wnode (np_wrapper (sys_proc s i)))) (p_net (np_process (sys_proc s i))) = None"

lemma disconnected_calls:
  assumes "distinct (c_nodes c)" "set (c_nodes c) = {0..<n}" "\<forall>i \<in> {0..<n}. joined n ft i (sys_proc s i)"
    and "\<forall>i \<in> set ids. 0 \<le> i" "i \<in> {0..<n}" "k \<in> {0..<n}"
  shows "call_passes (fst (ctrl_disconnect (\<lambda>_. Served) ids c s)) i k \<longleftrightarrow>
    (if ft = 1 then i \<in> set ids \<longleftrightarrow> k \<in> set ids else i \<notin> set ids \<and> k \<notin> set ids)"
proof -
  let ?p = "serve (RpcDisconnect ids) (sys_proc s i)"
  have after: "sys_proc (fst (ctrl_disconnect (\<lambda>_. Served) ids c s)) i = ?p"
    using assms(1,2,5) by (simp add: ctrl_disconnect_def command_all_nodes)
  have i: "joined n ft i (sys_proc s i)" using assms(3,5) by blast
  then have r: "rid (wnode (np_wrapper ?p)) = i" by (simp add: joined_def)
  have "\<forall>i \<in> set [0..n - 1] \<union> set ids. 0 \<le> i" "rid (wnode (np_wrapper ?p)) \<in> set [0..n - 1]" "k \<in> set [0..n - 1]"
    using assms(4-6) r by auto
  from isolated_net_calls [OF this, of "failure_type ft" net_initial] r show ?thesis
    unfolding call_passes_def after joined_disconnected [OF i] by (simp add: failure_type_def)
qed

lemma reconnected_calls:
  assumes "distinct (c_nodes c)" "set (c_nodes c) = {0..<n}" "\<forall>i \<in> {0..<n}. joined n ft i (sys_proc s i)"
    and "i \<in> {0..<n}"
  shows "call_passes (fst (ctrl_reconnect (\<lambda>_. Served) ids c (fst (ctrl_disconnect (\<lambda>_. Served) ids c s)))) i k"
proof -
  let ?p = "serve (RpcReconnect ids) (serve (RpcDisconnect ids) (sys_proc s i))"
  have after: "sys_proc (fst (ctrl_reconnect (\<lambda>_. Served) ids c (fst (ctrl_disconnect (\<lambda>_. Served) ids c s)))) i = ?p"
    using assms(1,2,4) by (simp add: ctrl_disconnect_def ctrl_reconnect_def command_all_nodes)
  have i: "joined n ft i (sys_proc s i)" using assms(3,4) by blast
  have "p_net (np_process ?p) = fold net_reconnect (map to_string ids) (p_net (np_process (serve (RpcDisconnect ids) (sys_proc s i))))"
    by (simp add: serve_def Reconnect_net)
  then have "rank2 (p_net (np_process ?p)) = {}"
    unfolding joined_disconnected [OF i] isolated_net_def
    using netf.round_trip [of "set_type (failure_type ft) (setup_rank (to_string ` set [0..n - 1]) net_initial)"]
    by (simp add: set_type_def setup_rank_def)
  then show ?thesis unfolding call_passes_def after by (rule nobody_down)
qed

end
