(* ===== verification/SpawnedNodes.thy ===== *)
theory SpawnedNodes
  imports TestCtrl
begin

text \<open>
  From a driver to its nodes: the command line with which the controller spawns a node, read back by the
  flags of \<^verbatim>\<open>app/node.cpp\<close>, gives the node the identity, the port and the peers its configuration has, and
  the nodes of a cluster that has been started this way form the network the controller's fault injection
  is about.
\<close>

section \<open>The words of a command\<close>

definition command_words :: "string \<Rightarrow> string \<Rightarrow> u8_t \<Rightarrow> u8_t \<Rightarrow> config \<Rightarrow> string \<Rightarrow> u64_t \<Rightarrow> string list" where
  "command_words path addr ft vb cfg port tester_port =
     [path, ''--enable_ctrl'', ''--ctrl_addr'', addr, ''--fail_type'', to_string ft, ''--verbosity'', to_string vb,
      ''--id'', to_string (cfg_id cfg), ''--port'', port, ''--peers'', ctrl_peers_arg (cfg_peer_addrs cfg),
      ''--node_tester_port'', to_string tester_port, ''>'', ''node_runner_'' @ to_string (cfg_id cfg) @ ''.log'',
      ''2>&1'', ''&'']"

lemma spawn_command_join:
  assumes "absl_strings split join atoi"
  shows "spawn_command (ctrl_command path addr ft vb) cfg port tester_port =
    join (command_words path addr ft vb cfg port tester_port) '' ''"
  using assms by (simp add: absl_strings_def spawn_command_def ctrl_command_def command_words_def)

text \<open>
  What the shell leaves of the words for the program: the first is the program itself, and the redirections from
  \<^verbatim>\<open>>\<close> on are its own.
\<close>

definition spawned_args :: "string list \<Rightarrow> string list" where
  "spawned_args ws = takeWhile (\<lambda>w. w \<noteq> ''>'') (tl ws)"

lemma space_not_digit [simp]: "\<not> is_digit (CHR '' '')"
  by (simp add: is_digit_def)

lemma no_space_to_string [simp]: "0 \<le> n \<Longrightarrow> CHR '' '' \<notin> set (to_string n)"
  by (rule digits_only) simp_all

text \<open>Words that begin with a digit are no flags.\<close>

definition digit_word :: "string \<Rightarrow> bool" where
  "digit_word w \<longleftrightarrow> w \<noteq> [] \<and> is_digit (hd w)"

lemma digit_word_not_flag [simp]:
  assumes "digit_word w"
  shows "w \<noteq> CHR ''-'' # s" "CHR ''-'' # s \<noteq> w" "w \<noteq> CHR ''>'' # s" "take 2 w \<noteq> CHR ''-'' # s"
  using assms by (auto simp: digit_word_def is_digit_def take_Cons' neq_Nil_conv)

lemma digit_word_to_string [simp]: "0 \<le> n \<Longrightarrow> digit_word (to_string n)"
  using to_string_first [of n] by (fastforce simp: digit_word_def)

lemma digit_word_peers_arg:
  assumes "m \<noteq> []" "\<And>i a. (i, a) \<in> set m \<Longrightarrow> 0 \<le> i"
  shows "digit_word (ctrl_peers_arg m)"
proof -
  obtain i a rest where m: "m = (i, a) # rest" using assms(1) by (cases m) auto
  then have "0 \<le> i" using assms(2) [of i a] by simp
  then obtain c cs where "to_string i = c # cs" "is_digit c" using to_string_first by metis
  then show ?thesis by (simp add: m ctrl_peers_arg_def digit_word_def Let_def)
qed

section \<open>The configurations of the drivers\<close>

lemma driver_peers_value:
  "(i, a) \<in> set (gen_peers (gen_local_instances n p) j) \<Longrightarrow> a = ''localhost:'' @ to_string (u64 (p + i))"
proof -
  have put: "set (omap_put k v m) \<subseteq> insert (k, v) (set m)" for k :: int and v :: string and m
    by (induction k v m rule: omap_put.induct) auto
  have "(i, a) \<in> set (fold (\<lambda>peer m. if ic_id peer \<noteq> j then omap_put (ic_id peer) (ic_external_addr peer) m else m) insts m)
      \<Longrightarrow> (i, a) \<in> set m \<or> (i, a) \<in> (\<lambda>x. (ic_id x, ic_external_addr x)) ` set insts" for insts m
  proof (induction insts arbitrary: m)
    case (Cons x xs)
    then show ?case using put [of "ic_id x" "ic_external_addr x" m] by (fastforce split: if_splits)
  qed simp
  from this [of "gen_local_instances n p" "[]"]
  show "(i, a) \<in> set (gen_peers (gen_local_instances n p) j) \<Longrightarrow> a = ''localhost:'' @ to_string (u64 (p + i))"
    by (auto simp: gen_peers_def gen_local_instances_def local_instance_def Let_def)
qed

lemma driver_peer_id:
  assumes "(i, a) \<in> set (gen_peers (gen_local_instances n p) j)"
  shows "0 \<le> i \<and> i < n"
proof -
  have "i \<in> ic_id ` set (gen_local_instances n p)"
    using imageI [OF assms, of fst] gen_peers_keys [of "gen_local_instances n p" j] by simp
  then show ?thesis by (auto simp: gen_local_instances_def local_instance_def Let_def)
qed

lemma driver_peer_map_ok:
  assumes "n \<le> 2 ^ 64"
  shows "peer_map_ok (gen_peers (gen_local_instances n p) j)"
proof -
  let ?m = "gen_peers (gen_local_instances n p) j"
  have "sorted_wrt (<) (map fst ?m)"
    using gen_peers_fold [of "[]" j "gen_local_instances n p"] by (simp add: gen_peers_def)
  moreover have "0 \<le> i \<and> i < 2 ^ 64 \<and> CHR '','' \<notin> set a \<and> CHR ''+'' \<notin> set a" if "(i, a) \<in> set ?m" for i a
  proof -
    have "0 \<le> i" "i < n" using driver_peer_id [OF that] by simp_all
    then show ?thesis
      using driver_peers_value [OF that] assms digits_only [OF u64_nonneg, of "CHR '',''"]
        digits_only [OF u64_nonneg, of "CHR ''+''"] by auto
  qed
  ultimately show ?thesis by (auto simp: peer_map_ok_def)
qed

lemma driver_peers_arg_words:
  assumes "absl_strings split join atoi"
  shows "CHR '' '' \<notin> set (ctrl_peers_arg (gen_peers (gen_local_instances n p) j))"
proof -
  let ?m = "gen_peers (gen_local_instances n p) j"
  have "CHR '' '' \<notin> set (to_string i @ ''+'' @ a @ '','')" if "(i, a) \<in> set ?m" for i a
  proof -
    have "0 \<le> i" using driver_peer_id [OF that] by simp
    then show ?thesis using driver_peers_value [OF that] by (simp add: u64_nonneg)
  qed
  then show ?thesis
    unfolding ctrl_peers_arg_def Let_def by (fastforce dest: in_set_takeD)
qed

text \<open>A configuration of a local cluster.\<close>

lemma driver_config:
  assumes "cfg \<in> set (fst (driver_setup (gen_local_instances n p)))"
  shows "0 \<le> cfg_id cfg" "cfg_id cfg < n" "cfg_addr cfg = ''localhost:'' @ to_string (u64 (p + cfg_id cfg))"
    "cfg_peer_addrs cfg = gen_peers (gen_local_instances n p) (cfg_id cfg)"
  using assms
  by (auto simp: driver_setup_configs gen_raft_configs_def gen_local_instances_def local_instance_def Let_def)

lemma driver_config_peers:
  assumes "cfg \<in> set (fst (driver_setup (gen_local_instances n p)))"
  shows "insert (cfg_id cfg) (fst ` set (cfg_peer_addrs cfg)) = {0..<n}"
    "2 \<le> n \<Longrightarrow> cfg_peer_addrs cfg \<noteq> []"
proof -
  have ids: "ic_id ` set (gen_local_instances n p) = {0..<n}"
    by (force simp: gen_local_instances_def local_instance_def Let_def)
  show eq: "insert (cfg_id cfg) (fst ` set (cfg_peer_addrs cfg)) = {0..<n}"
    using driver_config [OF assms] by (auto simp: gen_peers_keys ids)
  show "cfg_peer_addrs cfg \<noteq> []" if "2 \<le> n"
  proof
    assume "cfg_peer_addrs cfg = []"
    with eq have "{0..<n} = {cfg_id cfg}" by simp
    moreover have "0 \<in> {0..<n}" "1 \<in> {0..<n}" using that by auto
    ultimately show False by auto
  qed
qed

lemma split_addr:
  assumes "absl_strings split join atoi"
  shows "split (''localhost:'' @ to_string (u64 x)) (CHR '':'') = [''localhost'', to_string (u64 x)]"
proof -
  have "CHR '':'' \<notin> set (to_string (u64 x))" by (rule digits_only [OF u64_nonneg]) (simp add: is_digit_def)
  then have "split (to_string (u64 x)) (CHR '':'') = [to_string (u64 x)]" using assms by (simp add: absl_strings_def)
  moreover have "split (''localhost'' @ CHR '':'' # to_string (u64 x)) (CHR '':'') = ''localhost'' # split (to_string (u64 x)) (CHR '':'')"
    using assms unfolding absl_strings_def by (elim conjE allE [where x = "''localhost''"]) simp
  ultimately show ?thesis by simp
qed

lemma driver_spawnable:
  assumes "absl_strings split join atoi" "cfg \<in> set (fst (driver_setup (gen_local_instances n p)))"
  shows "spawnable split (snd (driver_setup (gen_local_instances n p))) cfg"
    "snd (driver_setup (gen_local_instances n p)) (cfg_id cfg) = Some (55001 + cfg_id cfg)"
proof -
  let ?insts = "gen_local_instances n p"
  have d: "distinct (map ic_id ?insts)" by simp
  have "cfg_id cfg \<in> ic_id ` set ?insts"
    using assms(2) by (auto simp: driver_setup_configs gen_raft_configs_def)
  then obtain k where k: "k < length ?insts" "cfg_id cfg = ic_id (?insts ! k)" by (auto simp: in_set_conv_nth)
  have "ic_id (?insts ! k) = [0..n - 1] ! k" using k(1) by (metis gen_local_ids nth_map)
  moreover have "k < length [0..n - 1]" using k(1) by (metis gen_local_ids length_map)
  ultimately have "cfg_id cfg = int k" using k(2) by simp
  with driver_setup_ports [OF d k(1)] k(2) show port: "snd (driver_setup ?insts) (cfg_id cfg) = Some (55001 + cfg_id cfg)" by simp
  then show "spawnable split (snd (driver_setup ?insts)) cfg"
    using split_addr [OF assms(1)] driver_config(3) [OF assms(2)] by (auto simp: spawnable_def)
qed

lemma driver_setup_outside:
  "i \<notin> ic_id ` set insts \<Longrightarrow> snd (driver_setup insts) i = None"
  using driver_fold_ports(1) [of i insts "\<lambda>inst. \<lparr>cfg_id = ic_id inst, cfg_addr = ic_listening_addr inst,
      cfg_peer_addrs = driver_peers insts inst\<rparr>" "[]" Map.empty 55001]
  by (auto simp: driver_setup_def split: prod.splits)

section \<open>A spawned node gets its configuration\<close>

text \<open>The flags the node program finds in the command of node \<open>i\<close>.\<close>

definition flags_of :: "u64_t \<Rightarrow> int \<Rightarrow> int \<Rightarrow> u64_t \<Rightarrow> node_flags" where
  "flags_of n ft vb i =
     \<lparr>nf_id = i, nf_port = 50050 + i, nf_peers = gen_peers (gen_local_instances n 50050) i,
      nf_verbosity = u8 vb, nf_fail_type = u8 ft, nf_enable_ctrl = True,
      nf_ctrl_addr = ''0.0.0.0:55000'', nf_tester_port = 55001 + i\<rparr>"

lemma spawned_words:
  assumes absl: "absl_strings split join atoi" and cfg: "cfg \<in> set (fst (driver_setup (gen_local_instances n p)))"
    and "CHR '' '' \<notin> set path" "CHR '' '' \<notin> set addr" "0 \<le> ft" "0 \<le> vb"
  shows "split (command_of split (ctrl_command path addr ft vb)
      (snd (driver_setup (gen_local_instances n p))) cfg) (CHR '' '') =
    command_words path addr ft vb cfg (to_string (u64 (p + cfg_id cfg))) (55001 + cfg_id cfg)"
proof -
  note port = driver_spawnable(2) [OF absl cfg]
  let ?ws = "command_words path addr ft vb cfg (to_string (u64 (p + cfg_id cfg))) (55001 + cfg_id cfg)"
  have "\<forall>w \<in> set ?ws. CHR '' '' \<notin> set w"
    using driver_config [OF cfg] driver_peers_arg_words [OF absl, of n p "cfg_id cfg"] assms(3-)
    by (simp add: command_words_def u64_nonneg)
  then have "split (join ?ws '' '') (CHR '' '') = ?ws"
    by (rule split_join [OF absl, rotated]) (simp add: command_words_def)
  then show ?thesis
    unfolding command_of_def driver_config(3) [OF cfg] split_addr [OF absl] port
    by (simp add: spawn_command_join [OF absl])
qed

text \<open>
  The words parse to these flags as long as the port fits into its \<^verbatim>\<open>uint16_t\<close>. From node 15486 on it does not,
  parsing fails and the node exits.
\<close>

lemma spawned_flags:
  assumes absl: "absl_strings split join atoi" "absl_numbers num"
    and cfg: "cfg \<in> set (fst (driver_setup (gen_local_instances n 50050)))" and n: "2 \<le> n" "n \<le> 2 ^ 64"
    and ws: "ws = command_words ''./node'' ''0.0.0.0:55000'' (u8 ft) (u8 vb) cfg
      (to_string (u64 (50050 + cfg_id cfg))) (55001 + cfg_id cfg)"
  shows "parse_node_flags split atoi num (spawned_args ws) =
    (if cfg_id cfg < 15486 then Some (flags_of n ft vb (cfg_id cfg)) else None)"
proof -
  let ?i = "cfg_id cfg" and ?m = "cfg_peer_addrs cfg"
  have i: "0 \<le> ?i" "?i < n" using driver_config(1,2) [OF cfg] by simp_all
  have u8: "0 \<le> u8 x" "u8 x < 2 ^ 8" for x by (simp_all add: u8_def)
  have m: "?m = gen_peers (gen_local_instances n 50050) ?i" by (rule driver_config(4) [OF cfg])
  have "digit_word (ctrl_peers_arg ?m)"
    using driver_config_peers(2) [OF cfg n(1)] driver_peer_id [of _ _ n 50050 ?i] unfolding m by (intro digit_word_peers_arg) auto
  then have args: "spawned_args ws = [''--enable_ctrl'', ''--ctrl_addr'', ''0.0.0.0:55000'', ''--fail_type'', to_string (u8 ft),
      ''--verbosity'', to_string (u8 vb), ''--id'', to_string ?i, ''--port'', to_string (u64 (50050 + ?i)),
      ''--peers'', ctrl_peers_arg ?m, ''--node_tester_port'', to_string (55001 + ?i)]"
    and known: "\<not> (\<exists>a \<in> set (spawned_args ws). take 2 a = ''--'' \<and> a \<notin> set declared_flags)"
    and peers_word: "digit_word (ctrl_peers_arg ?m)"
    using i u8 by (simp_all add: ws spawned_args_def command_words_def u64_nonneg declared_flags_def)
  have num: "num (to_string x) = Some x" if "0 \<le> x" for x using absl(2) that by (simp add: absl_numbers_def)
  have peers: "AbslParseFlag split atoi (ctrl_peers_arg ?m) [] = (None, ?m)"
    using flag_round_trip [OF absl(1)] driver_peer_map_ok [OF n(2)] by (simp add: m ctrl_peers_arg_eq [OF absl(1)])
  have port: "u64 (50050 + ?i) = 50050 + ?i" if "?i < 2 ^ 16" using that i by (intro u64_id) auto
  have u8': "- (2 ^ 31) \<le> u8 x" "u8 x \<le> 2 ^ 31 - 1" for x using u8 [of x] by simp_all
  have vals: "flag_value ''--peers'' [] (\<lambda>text. case AbslParseFlag split atoi text [] of (None, m) \<Rightarrow> Some m | (Some err, m) \<Rightarrow> None)
        (spawned_args ws) = Some ?m"
    "flag_value ''--verbosity'' 1 (int_flag num (- (2 ^ 31)) (2 ^ 31 - 1)) (spawned_args ws) = Some (u8 vb)"
    "flag_value ''--fail_type'' 0 (int_flag num (- (2 ^ 31)) (2 ^ 31 - 1)) (spawned_args ws) = Some (u8 ft)"
    "flag_value ''--ctrl_addr'' ''localhost:55000'' Some (spawned_args ws) = Some ''0.0.0.0:55000''"
    "flag_value ''--id'' 0 f (spawned_args ws) = f (to_string ?i)"
    "flag_value ''--port'' 50051 f (spawned_args ws) = f (to_string (u64 (50050 + ?i)))"
    "flag_value ''--node_tester_port'' 55001 f (spawned_args ws) = f (to_string (55001 + ?i))" for f
    using peers_word i u8 u8' by (simp_all add: args flag_value_def int_flag_def num peers u64_nonneg)
  show ?thesis
  proof (cases "?i < 15486")
    case True
    with i show ?thesis unfolding parse_node_flags_def if_not_P [OF known] vals
      by (simp add: int_flag_def num port args flags_of_def m)
  next
    case False
    then show ?thesis unfolding parse_node_flags_def if_not_P [OF known] vals
      using i by (auto simp: int_flag_def num port u64_nonneg)
  qed
qed

text \<open>What \<^verbatim>\<open>main\<close> makes of the flags.\<close>

lemma flags_of_setup:
  assumes "cfg \<in> set (fst (driver_setup (gen_local_instances n 50050)))" "2 \<le> n"
    and "fl = flags_of n ft vb (cfg_id cfg)"
  shows "nf_peers fl = cfg_peer_addrs cfg"
    "\<exists>cfg'. node_setup (nf_id fl) (nf_port fl) (nf_peers fl) = Inr (cfg', to_string ` {0..<n}) \<and>
       cfg_id cfg' = cfg_id cfg \<and> cfg_peer_addrs cfg' = cfg_peer_addrs cfg"
proof -
  show peers: "nf_peers fl = cfg_peer_addrs cfg" using driver_config(4) [OF assms(1)] by (simp add: assms(3) flags_of_def)
  have "to_string ` ({cfg_id cfg} \<union> fst ` set (cfg_peer_addrs cfg)) = to_string ` {0..<n}"
    using driver_config_peers(1) [OF assms(1)] by simp
  moreover have "nf_id fl = cfg_id cfg" by (simp add: assms(3) flags_of_def)
  ultimately show "\<exists>cfg'. node_setup (nf_id fl) (nf_port fl) (nf_peers fl) = Inr (cfg', to_string ` {0..<n}) \<and>
       cfg_id cfg' = cfg_id cfg \<and> cfg_peer_addrs cfg' = cfg_peer_addrs cfg"
    using node_setup_world [OF driver_config_peers(2) [OF assms(1,2)], of "cfg_id cfg" "nf_port fl"] by (simp add: peers)
qed

text \<open>Decimal numbers satisfy the assumption on the numbers of Abseil.\<close>

definition num_decimal :: num_fn where
  "num_decimal text = (if text \<noteq> [] \<and> list_all is_digit text then Some (string_value text) else None)"

lemma numbers_instance: "absl_numbers num_decimal"
  using to_string_digits by (auto simp: absl_numbers_def num_decimal_def list_all_iff)

end
