(* ===== verification/Bench.thy ===== *)
theory Bench
  imports Complex_Main RaftWrapper "HOL-Library.Multiset"
begin

text \<open>
  The measurement programs \<^verbatim>\<open>app/latency.cpp\<close> and \<^verbatim>\<open>app/tput.cpp\<close>: the percentile of a sample, the
  accounting of successful operations, and the memory a measurement asks for.

  Samples are values of a linear order. Of floating point one product is left to an argument: \<open>scaled p n\<close> is the
  \<^verbatim>\<open>double\<close> that \<^verbatim>\<open>percentile / 100.0 * values.size()\<close> rounds to, for a percentile \<open>p\<close> and \<open>n\<close> values.
\<close>

section \<open>Percentiles\<close>

text \<open>
  From the rank on, which is cast to \<^verbatim>\<open>size_t\<close>: subtracting one wraps. The result is the reordered sample
  and the value; an empty sample gives 0.
\<close>

definition percentile_at :: "bool \<Rightarrow> 'a::{linorder, zero} list \<Rightarrow> u64_t \<Rightarrow> 'a list \<times> 'a" where
  "percentile_at sorted_arg xs rank =
     (if xs = [] then (xs, 0)
      else
        let ys = (if \<not> sorted_arg then sort xs else xs);
            n = int (length ys);
            idx = u64 (rank - 1);
            idx' = (if idx \<ge> n then n - 1 else idx)
        in (ys, ys ! nat idx'))"

definition percentile_rank :: "(rat \<Rightarrow> nat \<Rightarrow> rat) \<Rightarrow> rat \<Rightarrow> nat \<Rightarrow> int" where
  "percentile_rank scaled percentile n =
     (let p1 = (if percentile < 0 then 0 else percentile);
          p2 = (if p1 > 100 then 100 else p1)
      in \<lceil>scaled p2 n\<rceil>)"

definition compute_percentile ::
  "(rat \<Rightarrow> nat \<Rightarrow> rat) \<Rightarrow> bool \<Rightarrow> 'a::{linorder, zero} list \<Rightarrow> rat \<Rightarrow> 'a list \<times> 'a" where
  "compute_percentile scaled sorted_arg xs percentile =
     percentile_at sorted_arg xs (percentile_rank scaled percentile (length xs))"

definition compute_p50 :: "(rat \<Rightarrow> nat \<Rightarrow> rat) \<Rightarrow> 'a::{linorder, zero} list \<Rightarrow> 'a" where
  "compute_p50 scaled xs = snd (compute_percentile scaled False xs 50)"

section \<open>Measurement\<close>

text \<open>The loop over the responses: \<^verbatim>\<open>success\<close>.\<close>

fun accepted :: "tester_proposal list \<Rightarrow> bool" where
  "accepted [] = False"
| "accepted (r # rs) = (if tp_is_leader r then True else accepted rs)"

text \<open>The iterations of one client: the responses and the time each proposal took.\<close>

fun latency_loop :: "(tester_proposal list \<times> 'a) list \<Rightarrow> 'a list \<Rightarrow> 'a list" where
  "latency_loop [] latencies = latencies"
| "latency_loop ((responses, elapsed) # rest) latencies =
     latency_loop rest (if accepted responses then latencies @ [elapsed] else latencies)"

fun client_loop :: "(tester_proposal list \<times> 'a) list \<Rightarrow> 'a list \<times> nat \<Rightarrow> 'a list \<times> nat" where
  "client_loop [] acc = acc"
| "client_loop ((responses, elapsed) # rest) (latencies, successful_ops) =
     client_loop rest
       (if accepted responses then (latencies @ [elapsed], successful_ops + 1)
        else (latencies, successful_ops))"

text \<open>
  The clients merge their results under a mutex, in the order in which they finish: \<open>runs\<close> lists
  the iterations of the clients in that order.
\<close>

definition measure_clients :: "(tester_proposal list \<times> 'a) list list \<Rightarrow> 'a list \<times> nat" where
  "measure_clients runs =
     fold (\<lambda>its (all_latencies, total). case client_loop its ([], 0) of
             (latencies, ops) \<Rightarrow> (all_latencies @ latencies, total + ops)) runs ([], 0)"

text \<open>
  \<^verbatim>\<open>all_latencies.reserve(N * clientCount)\<close>: the product wraps, more \<^verbatim>\<open>double\<close>s than \<open>2 ^ 63 - 1\<close> bytes hold are refused
  with an exception, and so is what cannot be allocated.
\<close>

definition reserve_ok :: "(u64_t \<Rightarrow> bool) \<Rightarrow> u64_t \<Rightarrow> bool" where
  "reserve_ok alloc clientCount \<longleftrightarrow>
     (let wanted = u64 (1000 * clientCount) in wanted \<le> 2 ^ 60 - 1 \<and> (wanted = 0 \<or> alloc wanted))"

section \<open>Percentiles are order statistics\<close>

lemma u64_pred: "1 \<le> k \<Longrightarrow> k < 2 ^ 64 \<Longrightarrow> u64 (k - 1) = k - 1"
  by (rule u64_id) auto

lemma percentile_value:
  assumes "1 \<le> rank" "rank \<le> int (length xs)" "int (length xs) < 2 ^ 64"
  shows "percentile_at False xs rank = (sort xs, sort xs ! nat (rank - 1))"
  using assms by (auto simp: percentile_at_def Let_def u64_pred)

lemma sorted_nth_count_le:
  assumes "sorted ys" "i < length ys"
  shows "i < length (filter (\<lambda>x. x \<le> ys ! i) ys)"
proof -
  have "filter (\<lambda>x. x \<le> ys ! i) (take (Suc i) ys) = take (Suc i) ys"
    using assms by (auto simp: filter_id_conv in_set_conv_nth sorted_nth_mono)
  moreover have "length (filter (\<lambda>x. x \<le> ys ! i) (take (Suc i) ys)) \<le> length (filter (\<lambda>x. x \<le> ys ! i) ys)"
    by (metis append_take_drop_id filter_append le_add1 length_append)
  ultimately show ?thesis using assms(2) by simp
qed

lemma sorted_nth_count_ge:
  assumes "sorted ys" "i < length ys"
  shows "length ys - i \<le> length (filter (\<lambda>x. ys ! i \<le> x) ys)"
proof -
  have "filter (\<lambda>x. ys ! i \<le> x) (drop i ys) = drop i ys"
    using assms by (auto simp: filter_id_conv in_set_conv_nth sorted_nth_mono)
  moreover have "length (filter (\<lambda>x. ys ! i \<le> x) (drop i ys)) \<le> length (filter (\<lambda>x. ys ! i \<le> x) ys)"
    by (metis append_take_drop_id filter_append le_add2 length_append)
  ultimately show ?thesis by simp
qed

lemma length_filter_sort: "length (filter P (sort xs)) = length (filter P xs)"
  by (metis mset_filter mset_sort size_mset)

text \<open>At least \<open>rank\<close> samples are at most the percentile, and at least \<open>n - rank + 1\<close> are at least it.\<close>

lemma percentile_order_statistic:
  assumes "1 \<le> rank" "rank \<le> int (length xs)" "int (length xs) < 2 ^ 64"
    and "v = snd (percentile_at False xs rank)"
  shows "v \<in> set xs" "rank \<le> int (length (filter (\<lambda>x. x \<le> v) xs))"
    "int (length xs) - rank + 1 \<le> int (length (filter (\<lambda>x. v \<le> x) xs))"
proof -
  have i: "nat (rank - 1) < length (sort xs)" and v: "v = sort xs ! nat (rank - 1)"
    using assms by (auto simp: percentile_value)
  show "v \<in> set xs" using i v by (metis nth_mem set_sort)
  show "rank \<le> int (length (filter (\<lambda>x. x \<le> v) xs))"
    using sorted_nth_count_le [OF sorted_sort i] assms(1) unfolding v length_filter_sort by linarith
  show "int (length xs) - rank + 1 \<le> int (length (filter (\<lambda>x. v \<le> x) xs))"
    using sorted_nth_count_ge [OF sorted_sort i] assms(1,2) unfolding v length_filter_sort by simp
qed

text \<open>Halving a \<^verbatim>\<open>double\<close> does not round; then the median has this rank.\<close>

lemma median_rank: "scaled 50 n = of_nat n / 2 \<Longrightarrow> percentile_rank scaled 50 n = (int n + 1) div 2"
proof -
  assume "scaled 50 n = of_nat n / 2"
  then have "\<lceil>scaled 50 n\<rceil> = \<lceil>of_int (int n) / (of_int 2 :: rat)\<rceil>" by (metis of_int_numeral of_int_of_nat_eq)
  then show ?thesis unfolding percentile_rank_def ceiling_divide_eq_div by (simp add: Let_def)
qed

text \<open>Rank 0 wraps around to the largest sample.\<close>

lemma percentile_zero:
  assumes "xs \<noteq> []" "int (length xs) < 2 ^ 64"
  shows "snd (percentile_at False xs 0) = Max (set xs)"
proof -
  have "u64 (0 - 1) = 2 ^ 64 - 1" by (simp add: u64_def)
  moreover have "nat (int (length xs) - 1) = length xs - 1" by simp
  ultimately have "snd (percentile_at False xs 0) = sort xs ! (length xs - 1)"
    using assms by (simp add: percentile_at_def Let_def)
  also have "\<dots> = Max (set xs)"
  proof (rule sym, rule Max_eqI)
    show "sort xs ! (length xs - 1) \<in> set xs" using assms(1) by (metis diff_less length_greater_0_conv
          length_sort nth_mem set_sort zero_less_one)
    fix y
    assume "y \<in> set xs"
    then obtain j where "j < length (sort xs)" "sort xs ! j = y" by (metis in_set_conv_nth set_sort)
    then show "y \<le> sort xs ! (length xs - 1)"
      using sorted_nth_mono [of "sort xs" j "length xs - 1"] by auto
  qed simp
  finally show ?thesis .
qed

section \<open>Accounting\<close>

lemma accepted_iff: "accepted rs \<longleftrightarrow> (\<exists>r \<in> set rs. tp_is_leader r)"
  by (induction rs) auto

lemma latency_loop_eq: "latency_loop its ls = ls @ map snd (filter (\<lambda>(rs, t). accepted rs) its)"
  by (induction its ls rule: latency_loop.induct) auto

lemma client_loop_eq:
  "client_loop its (ls, n) = (ls @ map snd (filter (\<lambda>(rs, t). accepted rs) its),
     n + length (filter (\<lambda>(rs, t). accepted rs) its))"
  by (induction its arbitrary: ls n) auto

lemma measure_clients_eq:
  "measure_clients runs =
     (concat (map (\<lambda>its. map snd (filter (\<lambda>(rs, t). accepted rs) its)) runs),
      length (concat (map (\<lambda>its. filter (\<lambda>(rs, t). accepted rs) its) runs)))"
proof -
  have "fold (\<lambda>its (all_latencies, total). case client_loop its ([], 0) of
             (latencies, ops) \<Rightarrow> (all_latencies @ latencies, total + ops)) runs (ls, n) =
     (ls @ concat (map (\<lambda>its. map snd (filter (\<lambda>(rs, t). accepted rs) its)) runs),
      n + length (concat (map (\<lambda>its. filter (\<lambda>(rs, t). accepted rs) its) runs)))" for ls n
    by (induction runs arbitrary: ls n) (auto simp: client_loop_eq)
  then show ?thesis by (simp add: measure_clients_def)
qed

lemma length_measure_clients: "length (fst (measure_clients runs)) = snd (measure_clients runs)"
  by (simp add: measure_clients_eq length_concat comp_def)

text \<open>The order in which the clients finish does not matter.\<close>

lemma measure_clients_perm:
  "mset runs = mset runs' \<Longrightarrow>
   mset (fst (measure_clients runs)) = mset (fst (measure_clients runs')) \<and>
   snd (measure_clients runs) = snd (measure_clients runs')"
proof -
  assume eq: "mset runs = mset runs'"
  have "mset (fst (measure_clients rs)) = sum_mset (image_mset (\<lambda>its. mset (map snd (filter (\<lambda>(rs, t). accepted rs) its))) (mset rs))"
    for rs :: "(tester_proposal list \<times> 'a) list list"
    by (simp add: measure_clients_eq mset_concat sum_mset_sum_list comp_def flip: mset_map)
  then have m: "mset (fst (measure_clients runs)) = mset (fst (measure_clients runs'))" by (simp only: eq)
  moreover have "size (mset (fst (measure_clients rs))) = snd (measure_clients rs)"
    for rs :: "(tester_proposal list \<times> 'a) list list"
    by (simp add: length_measure_clients)
  ultimately show ?thesis by metis
qed

section \<open>Memory\<close>

text \<open>With \<open>2 ^ 51\<close> clients a measurement throws; with any smaller power of two it depends on the allocator.\<close>

lemma reserve_ok_power:
  "k \<le> 50 \<Longrightarrow> reserve_ok alloc (2 ^ k) \<longleftrightarrow> alloc (1000 * 2 ^ k)"
  "\<not> reserve_ok alloc (2 ^ 51)"
proof -
  assume "k \<le> 50"
  then have "(2 :: int) ^ k \<le> 2 ^ 50" by (intro power_increasing) auto
  then show "reserve_ok alloc (2 ^ k) \<longleftrightarrow> alloc (1000 * 2 ^ k)"
    by (simp add: reserve_ok_def Let_def u64_id)
qed (simp add: reserve_ok_def u64_def)

end
