(* ===== verification/Programs.thy ===== *)
theory Programs
  imports SpawnedNodes Bench
begin

text \<open>
  The \<^verbatim>\<open>main\<close> functions of the drivers \<^verbatim>\<open>app/multinode.cpp\<close>, \<^verbatim>\<open>app/latency.cpp\<close> and \<^verbatim>\<open>app/tput.cpp\<close>, over
  the controller of \<open>TestCtrl\<close>: a cluster is configured, spawned and started, commanded or measured, and
  killed. The times of the calls and the product a percentile rounds are arguments. \<^verbatim>\<open>absl::ParseCommandLine\<close> exits on
  \<^verbatim>\<open>--help\<close>, on an unknown flag and on a value that does not fit; what it does with a command line is an argument of
  \<open>tput_main\<close>, and the other programs are modelled from the flags on.
\<close>

section \<open>What the drivers share\<close>

text \<open>
  \<open>dr_evs\<close> and \<open>dr_order\<close> are what the spawning loop and the hash map of stubs do, \<open>dr_system\<close> the node
  processes as the controller finds them, \<open>dr_listens\<close> the addresses that can be bound; the fates are those of the
  calls that run and kill the cluster.
\<close>

record driver_env =
  dr_split :: split_fn
  dr_listens :: "string \<Rightarrow> bool"
  dr_evs :: "spawn_event list"
  dr_order :: "u64_t list"
  dr_system :: system
  dr_run_fate :: "u64_t \<Rightarrow> rpc_fate"
  dr_timers :: "u64_t \<Rightarrow> int"
  dr_kill_fate :: "u64_t \<Rightarrow> rpc_fate"

text \<open>\<^verbatim>\<open>SIGINT\<close>: the exit code, by whether the process group could be killed; other signals are ignored.\<close>

definition signal_handler :: "int \<Rightarrow> bool \<Rightarrow> int option" where
  "signal_handler signal killed = (if signal = 2 then Some (if killed then 0 else 1) else None)"

text \<open>The configurations and the controller, for the flags \<^verbatim>\<open>num\<close>, \<^verbatim>\<open>fail_type\<close> and \<^verbatim>\<open>verbosity\<close>.\<close>

definition driver_ctrl :: "driver_env \<Rightarrow> u64_t \<Rightarrow> int \<Rightarrow> int \<Rightarrow> ctrl option ctrl_result" where
  "driver_ctrl env num fail_type verbosity =
     (case driver_setup (gen_local_instances num 50050) of (configs, node_tester_ports) \<Rightarrow>
        RaftTestCtrl_new (dr_listens env) (dr_split env) configs node_tester_ports ''./node'' ''0.0.0.0:55000'' fail_type verbosity
          (dr_evs env) (dr_order env))"

text \<open>\<^verbatim>\<open>run_raft_servers\<close> registers a handler that does nothing, and \<^verbatim>\<open>cleanup_raft_servers\<close> only kills.\<close>

definition run_raft_servers :: "driver_env \<Rightarrow> ctrl \<Rightarrow> system \<Rightarrow> system \<times> unit ctrl_result" where
  "run_raft_servers env c s = ctrl_run (dr_run_fate env) (dr_timers env) [] c s"

definition cleanup_raft_servers :: "driver_env \<Rightarrow> ctrl \<Rightarrow> system \<Rightarrow> system \<times> unit ctrl_result" where
  "cleanup_raft_servers env c s = ctrl_kill (dr_kill_fate env) [] c s"

text \<open>
  How a driver stops: it waits for nodes that have not reported, it exits, an exception leaves \<^verbatim>\<open>main\<close>, or its
  behaviour is undefined, as it has no server.
\<close>

datatype stopped = StopWaiting | StopExit int | StopUncaught | StopUndefined

text \<open>
  A measurement is bracketed by starting and killing the cluster. \<open>answers\<close> is what the measurement reads off
  the running cluster, a function of the system it finds; \<open>None\<close>: it throws.
\<close>

definition measured_run ::
  "driver_env \<Rightarrow> u64_t \<Rightarrow> int \<Rightarrow> int \<Rightarrow> (system \<Rightarrow> (system \<times> 'm) option) \<Rightarrow> stopped + system \<times> 'm" where
  "measured_run env num fail_type verbosity answers =
     (case driver_ctrl env num fail_type verbosity of
        Done None \<Rightarrow> Inl StopWaiting
      | Done (Some c) \<Rightarrow>
          (case run_raft_servers env c (dr_system env) of
             (s1, Done _) \<Rightarrow>
               (case answers s1 of
                  None \<Rightarrow> Inl StopUncaught
                | Some (s2, m) \<Rightarrow>
                    (case cleanup_raft_servers env c s2 of
                       (s3, Done _) \<Rightarrow> Inr (s3, m)
                     | (s3, ExitProcess n) \<Rightarrow> Inl (StopExit n)
                     | (s3, _) \<Rightarrow> Inl StopUncaught))
           | (s1, ExitProcess n) \<Rightarrow> Inl (StopExit n)
           | (s1, _) \<Rightarrow> Inl StopUncaught)
      | ExitProcess n \<Rightarrow> Inl (StopExit n)
      | OutOfRange \<Rightarrow> Inl StopUncaught
      | Terminated \<Rightarrow> Inl StopUncaught
      | NullServer \<Rightarrow> Inl StopUndefined)"

section \<open>Measured values\<close>

text \<open>Samples are numbers of an ordered field, so that averages are exact.\<close>

definition compute_avg :: "'a::linordered_field list \<Rightarrow> 'a" where
  "compute_avg xs = (if xs = [] then 0 else fold (\<lambda>x sum. sum + x) xs 0 / of_nat (length xs))"

definition compute_p90 :: "(rat \<Rightarrow> nat \<Rightarrow> rat) \<Rightarrow> 'a::{linorder, zero} list \<Rightarrow> 'a" where
  "compute_p90 scaled xs = snd (compute_percentile scaled False xs 90)"

definition compute_p99 :: "(rat \<Rightarrow> nat \<Rightarrow> rat) \<Rightarrow> 'a::{linorder, zero} list \<Rightarrow> 'a" where
  "compute_p99 scaled xs = snd (compute_percentile scaled False xs 99)"

record 'a result_row =
  row_clients :: u64_t
  row_avg :: 'a
  row_p50 :: 'a
  row_p90 :: 'a
  row_p99 :: 'a
  row_throughput :: 'a

text \<open>
  \<open>runs\<close> are the iterations of the clients in the order in which they finish, and \<open>total_time_sec\<close> is the time
  the measurement took.
\<close>

definition result_of ::
  "(rat \<Rightarrow> nat \<Rightarrow> rat) \<Rightarrow> 'a \<Rightarrow> u64_t \<Rightarrow> (tester_proposal list \<times> 'a::linordered_field) list list \<Rightarrow> 'a result_row"
where
  "result_of scaled total_time_sec clientCount runs =
     (case measure_clients runs of
        (all_latencies, total_successful_ops) \<Rightarrow>
          if all_latencies \<noteq> [] then
            \<lparr>row_clients = clientCount, row_avg = compute_avg all_latencies, row_p50 = compute_p50 scaled all_latencies,
             row_p90 = compute_p90 scaled all_latencies, row_p99 = compute_p99 scaled all_latencies,
             row_throughput = of_nat total_successful_ops / total_time_sec\<rparr>
          else
            \<lparr>row_clients = clientCount, row_avg = 0, row_p50 = 0, row_p90 = 0, row_p99 = 0, row_throughput = 0\<rparr>)"

text \<open>The three numbers the latency program prints.\<close>

definition latency_result ::
  "(rat \<Rightarrow> nat \<Rightarrow> rat) \<Rightarrow> (tester_proposal list \<times> 'a::linordered_field) list \<Rightarrow> 'a \<times> 'a \<times> 'a" where
  "latency_result scaled its =
     (let latencies = latency_loop its []
      in (compute_avg latencies, compute_p50 scaled latencies, compute_p99 scaled latencies))"

section \<open>The latency program\<close>

text \<open>\<open>asked\<close>: what the 1000 proposals do to the cluster, their answers and their times; \<open>None\<close>: no memory for them.\<close>

definition latency_main ::
  "driver_env \<Rightarrow> u64_t \<Rightarrow> int \<Rightarrow> int \<Rightarrow> (rat \<Rightarrow> nat \<Rightarrow> rat) \<Rightarrow>
   (system \<Rightarrow> (system \<times> (tester_proposal list \<times> 'a::linordered_field) list) option) \<Rightarrow> stopped \<times> ('a \<times> 'a \<times> 'a) option" where
  "latency_main env num fail_type verbosity scaled asked =
     (case measured_run env num fail_type verbosity asked of
        Inl stop \<Rightarrow> (stop, None)
      | Inr (s, its) \<Rightarrow> (StopExit 0, Some (latency_result scaled its)))"

section \<open>The throughput program\<close>

text \<open>
  The loop over the client counts, with one measured run for each; \<open>tput_rounds_end\<close> shows that it ends. The rows are
  those written to the file so far.
\<close>

partial_function (option) tput_rounds ::
  "(u64_t \<Rightarrow> stopped + 'r) \<Rightarrow> u64_t \<Rightarrow> u64_t \<Rightarrow> 'r list \<Rightarrow> (stopped \<times> 'r list) option" where
  "tput_rounds measured maxClientCount clientCount rows =
     (if clientCount \<le> maxClientCount then
        (case measured clientCount of
           Inl stop \<Rightarrow> Some (stop, rows)
         | Inr r \<Rightarrow> tput_rounds measured maxClientCount (u64 (clientCount * 2)) (rows @ [r]))
      else Some (StopExit 0, rows))"

text \<open>
  \<open>file_opens\<close>: \<^verbatim>\<open>result.txt\<close> can be written; \<open>envs\<close> and \<open>asked\<close> give the run for each client count.
\<close>

definition tput_round ::
  "(u64_t \<Rightarrow> driver_env) \<Rightarrow> u64_t \<Rightarrow> int \<Rightarrow> int \<Rightarrow> (rat \<Rightarrow> nat \<Rightarrow> rat) \<Rightarrow> (u64_t \<Rightarrow> bool) \<Rightarrow> (u64_t \<Rightarrow> 'a) \<Rightarrow>
   (u64_t \<Rightarrow> system \<Rightarrow> system \<times> (tester_proposal list \<times> 'a::linordered_field) list list) \<Rightarrow>
   u64_t \<Rightarrow> stopped + 'a result_row" where
  "tput_round envs num fail_type verbosity scaled alloc total_time_sec asked clientCount =
     (case measured_run (envs clientCount) num fail_type verbosity
             (\<lambda>s. if reserve_ok alloc clientCount then Some (asked clientCount s) else None) of
        Inl stop \<Rightarrow> Inl stop
      | Inr (s, runs) \<Rightarrow> Inr (result_of scaled (total_time_sec clientCount) clientCount runs))"

text \<open>\<open>parse argv\<close>: the code with which \<^verbatim>\<open>ParseCommandLine\<close> exits, if it does. It does not change \<^verbatim>\<open>argv\<close>.\<close>

definition tput_main ::
  "(string list \<Rightarrow> int option) \<Rightarrow> string list \<Rightarrow> bool \<Rightarrow> (u64_t \<Rightarrow> stopped + 'r) \<Rightarrow> (stopped \<times> 'r list) option" where
  "tput_main parse argv file_opens measured =
     (case parse argv of
        Some code \<Rightarrow> Some (StopExit code, [])
      | None \<Rightarrow>
          if length argv < 2 then Some (StopExit 1, [])
          else
            (case stoul (argv ! 1) of
               None \<Rightarrow> Some (StopUncaught, [])
             | Some maxClientCount \<Rightarrow>
                 if \<not> file_opens then Some (StopExit 1, [])
                 else tput_rounds measured maxClientCount 1 []))"

section \<open>The multi-node program\<close>

definition perform ::
  "(ctrl_action \<Rightarrow> u64_t \<Rightarrow> rpc_fate) \<Rightarrow> (u64_t \<Rightarrow> int) \<Rightarrow> ctrl \<Rightarrow> ctrl_action \<Rightarrow> system \<Rightarrow> system \<times> unit ctrl_result" where
  "perform fate timers c act s =
     (case act of
        CtrlRun \<Rightarrow> ctrl_run (fate act) timers [] c s
      | CtrlKill \<Rightarrow> ctrl_kill (fate act) [] c s
      | CtrlDisconnect ids \<Rightarrow> ctrl_disconnect (fate act) ids c s
      | CtrlReconnect ids \<Rightarrow> ctrl_reconnect (fate act) ids c s
      | CtrlPropose data \<Rightarrow>
          (case propose_to_all (fate act) data [] c s of
             (s1, Done _) \<Rightarrow> (s1, Done ())
           | (s1, ExitProcess n) \<Rightarrow> (s1, ExitProcess n)
           | (s1, OutOfRange) \<Rightarrow> (s1, OutOfRange)
           | (s1, Terminated) \<Rightarrow> (s1, Terminated)
           | (s1, NullServer) \<Rightarrow> (s1, NullServer)))"

text \<open>The actions of the loop, one after the other, until one ends the program.\<close>

fun perform_all ::
  "(ctrl_action \<Rightarrow> u64_t \<Rightarrow> rpc_fate) \<Rightarrow> (u64_t \<Rightarrow> int) \<Rightarrow> ctrl \<Rightarrow> ctrl_action list \<Rightarrow> system \<Rightarrow> system \<times> unit ctrl_result" where
  "perform_all fate timers c [] s = (s, Done ())"
| "perform_all fate timers c (act # acts) s =
     (case perform fate timers c act s of
        (s1, Done _) \<Rightarrow> perform_all fate timers c acts s1
      | (s1, r) \<Rightarrow> (s1, r))"

text \<open>\<open>None\<close>: the loop is waiting for its next line.\<close>

definition multi_main ::
  "driver_env \<Rightarrow> u64_t \<Rightarrow> int \<Rightarrow> int \<Rightarrow> (string \<Rightarrow> string) \<Rightarrow> (ctrl_action \<Rightarrow> u64_t \<Rightarrow> rpc_fate) \<Rightarrow> string list \<Rightarrow>
   system \<times> stopped option" where
  "multi_main env num fail_type verbosity strip fate lines =
     (case driver_ctrl env num fail_type verbosity of
        Done None \<Rightarrow> (dr_system env, Some StopWaiting)
      | Done (Some c) \<Rightarrow>
          (case multi_command_loop strip (dr_split env) lines of
             (acts, outcome) \<Rightarrow>
               (case perform_all fate (dr_timers env) c acts (dr_system env) of
                  (s, Done _) \<Rightarrow>
                    (s, case outcome of Continue \<Rightarrow> None | Exit \<Rightarrow> Some (StopExit 0) | Uncaught \<Rightarrow> Some StopUncaught)
                | (s, ExitProcess n) \<Rightarrow> (s, Some (StopExit n))
                | (s, _) \<Rightarrow> (s, Some StopUncaught)))
      | ExitProcess n \<Rightarrow> (dr_system env, Some (StopExit n))
      | OutOfRange \<Rightarrow> (dr_system env, Some StopUncaught)
      | Terminated \<Rightarrow> (dr_system env, Some StopUncaught)
      | NullServer \<Rightarrow> (dr_system env, Some StopUndefined))"

section \<open>The programs with their loggers\<close>

text \<open>
  \<open>logger\<close> is what \<open>driver_logger\<close> gives: without one the exception leaves \<^verbatim>\<open>main\<close>, before a node is spawned in the
  multi-node and the latency program, and after \<^verbatim>\<open>result.txt\<close> has been opened in the throughput program, which also
  sets the level of its logger.
\<close>

definition multi_program ::
  "spd_logger option \<Rightarrow> driver_env \<Rightarrow> u64_t \<Rightarrow> int \<Rightarrow> int \<Rightarrow> (string \<Rightarrow> string) \<Rightarrow> (ctrl_action \<Rightarrow> u64_t \<Rightarrow> rpc_fate) \<Rightarrow>
   string list \<Rightarrow> system \<times> stopped option" where
  "multi_program logger env num fail_type verbosity strip fate lines =
     (case logger of
        None \<Rightarrow> (dr_system env, Some StopUncaught)
      | Some l \<Rightarrow> multi_main env num fail_type verbosity strip fate lines)"

definition latency_program ::
  "spd_logger option \<Rightarrow> driver_env \<Rightarrow> u64_t \<Rightarrow> int \<Rightarrow> int \<Rightarrow> (rat \<Rightarrow> nat \<Rightarrow> rat) \<Rightarrow>
   (system \<Rightarrow> (system \<times> (tester_proposal list \<times> 'a::linordered_field) list) option) \<Rightarrow> stopped \<times> ('a \<times> 'a \<times> 'a) option" where
  "latency_program logger env num fail_type verbosity scaled asked =
     (case logger of
        None \<Rightarrow> (StopUncaught, None)
      | Some l \<Rightarrow> latency_main env num fail_type verbosity scaled asked)"

definition tput_logger :: "int \<Rightarrow> spd_logger option \<Rightarrow> (spd_logger \<times> log_request) option" where
  "tput_logger verbosity logger = map_option (\<lambda>l. (l, SetLevel (tput_level verbosity))) logger"

definition tput_program ::
  "(string list \<Rightarrow> int option) \<Rightarrow> spd_logger option \<Rightarrow> int \<Rightarrow> string list \<Rightarrow> bool \<Rightarrow> (u64_t \<Rightarrow> stopped + 'r) \<Rightarrow>
   (stopped \<times> 'r list) option" where
  "tput_program parse logger verbosity argv file_opens measured =
     (case parse argv of
        Some code \<Rightarrow> Some (StopExit code, [])
      | None \<Rightarrow>
          if length argv < 2 then Some (StopExit 1, [])
          else
            (case stoul (argv ! 1) of
               None \<Rightarrow> Some (StopUncaught, [])
             | Some maxClientCount \<Rightarrow>
                 if \<not> file_opens then Some (StopExit 1, [])
                 else
                   (case tput_logger verbosity logger of
                      None \<Rightarrow> Some (StopUncaught, [])
                    | Some (l, r) \<Rightarrow> tput_rounds measured maxClientCount 1 [])))"

text \<open>With a logger the programs are those of the sections above; without one they end and measure nothing.\<close>

lemma programs_with_logger:
  "multi_program (Some l) env num ft vb strip fate lines = multi_main env num ft vb strip fate lines"
  "latency_program (Some l) env num ft vb scaled asked = latency_main env num ft vb scaled asked"
  "tput_program parse (Some l) vb argv file_opens measured = tput_main parse argv file_opens measured"
  by (simp_all add: multi_program_def latency_program_def tput_program_def tput_main_def tput_logger_def split: option.split)

lemma programs_without_logger:
  "multi_program None env num ft vb strip fate lines = (dr_system env, Some StopUncaught)"
  "latency_program None env num ft vb scaled asked = (StopUncaught, None)"
  "\<exists>stop. tput_program parse None vb argv file_opens measured = Some (stop, [])"
  by (simp_all add: multi_program_def latency_program_def tput_program_def tput_logger_def split: option.split)

section \<open>The drivers start their cluster\<close>

lemma driver_ids: "map cfg_id (fst (driver_setup (gen_local_instances n p))) = [0..n - 1]"
  by (simp add: driver_setup_configs)

text \<open>
  For the configurations of a driver: the outcome of the constructor of its controller, and what the controller then
  holds. The stub of node \<open>i\<close> is for the tester port its command has told it.
\<close>

definition driver_commands :: "driver_env \<Rightarrow> u64_t \<Rightarrow> int \<Rightarrow> int \<Rightarrow> config \<Rightarrow> string" where
  "driver_commands env n ft vb =
     command_of (dr_split env) (ctrl_command ''./node'' ''0.0.0.0:55000'' (u8 ft) (u8 vb))
       (snd (driver_setup (gen_local_instances n 50050)))"

lemma driver_ports:
  assumes "absl_strings split join atoi"
  shows "snd (driver_setup (gen_local_instances n 50050)) = (\<lambda>i. if i \<in> {0..<n} then Some (55001 + i) else None)"
proof
  fix i
  let ?su = "driver_setup (gen_local_instances n 50050)"
  show "snd ?su i = (if i \<in> {0..<n} then Some (55001 + i) else None)"
  proof (cases "i \<in> {0..<n}")
    case True
    then have "i \<in> set (map cfg_id (fst ?su))" unfolding driver_ids by simp
    then show ?thesis using driver_spawnable(2) [OF assms] True by auto
  next
    case False
    moreover have "ic_id ` set (gen_local_instances n 50050) = {0..<n}"
      unfolding set_map [symmetric] gen_local_ids set_upto by auto
    ultimately have "i \<notin> ic_id ` set (gen_local_instances n 50050)" by simp
    with False show ?thesis using driver_setup_outside by (metis (no_types, lifting))
  qed
qed

lemma driver_order:
  assumes "absl_strings split join atoi"
  shows "hash_order (snd (driver_setup (gen_local_instances n 50050))) order \<longleftrightarrow> distinct order \<and> set order = {0..<n}"
proof -
  have "dom (snd (driver_setup (gen_local_instances n 50050))) = {0..<n}"
    unfolding driver_ports [OF assms] by (auto simp: dom_def)
  then show ?thesis by (simp add: hash_order_def)
qed

lemma driver_ctrl_outcome:
  assumes "absl_strings (dr_split env) join atoi" "genuine {} (fst (driver_setup (gen_local_instances n 50050))) (dr_evs env)"
    and "hash_order (snd (driver_setup (gen_local_instances n 50050))) (dr_order env)"
  shows "\<not> dr_listens env ''0.0.0.0:55000'' \<Longrightarrow> driver_ctrl env n ft vb = NullServer"
    "dr_listens env ''0.0.0.0:55000'' \<Longrightarrow> shell_failed (dr_evs env) \<Longrightarrow> driver_ctrl env n ft vb = ExitProcess 1"
    "dr_listens env ''0.0.0.0:55000'' \<Longrightarrow> \<not> shell_failed (dr_evs env) \<Longrightarrow>
      \<exists>r. driver_ctrl env n ft vb = Done r \<and> (r \<noteq> None \<longleftrightarrow> {0..<n} \<subseteq> reported (dr_evs env)) \<and>
        (\<forall>c. r = Some c \<longrightarrow> c_nodes c = dr_order env \<and> c_apply c = dr_order env \<and>
           (\<forall>cfg \<in> set (fst (driver_setup (gen_local_instances n 50050))).
              map_of (c_threads c) (cfg_id cfg) = Some (driver_commands env n ft vb cfg) \<and>
              c_addrs c (cfg_id cfg) = Some (''localhost:'' @ to_string (55001 + cfg_id cfg))))"
proof -
  let ?su = "driver_setup (gen_local_instances n 50050)"
  have spawn: "\<forall>cfg \<in> set (fst ?su). spawnable (dr_split env) (snd ?su) cfg"
    using driver_spawnable(1) [OF assms(1)] by blast
  have d: "distinct (map cfg_id (fst ?su))" by (simp add: driver_ids)
  have ids: "cfg_id ` set (fst ?su) = {0..<n}"
    using arg_cong [OF driver_ids [of n 50050], of set] by auto
  have eq: "driver_ctrl env n ft vb = RaftTestCtrl_new (dr_listens env) (dr_split env) (fst ?su) (snd ?su)
      ''./node'' ''0.0.0.0:55000'' ft vb (dr_evs env) (dr_order env)"
    by (simp add: driver_ctrl_def split: prod.split)
  show "\<not> dr_listens env ''0.0.0.0:55000'' \<Longrightarrow> driver_ctrl env n ft vb = NullServer"
    "dr_listens env ''0.0.0.0:55000'' \<Longrightarrow> shell_failed (dr_evs env) \<Longrightarrow> driver_ctrl env n ft vb = ExitProcess 1"
    unfolding eq by (rule RaftTestCtrl_new_fails(1), assumption) (rule RaftTestCtrl_new_fails(2) [OF _ _ assms(2) spawn d])
  assume l: "dr_listens env ''0.0.0.0:55000''" "\<not> shell_failed (dr_evs env)"
  obtain r where r: "driver_ctrl env n ft vb = Done r" "r \<noteq> None \<longleftrightarrow> {0..<n} \<subseteq> reported (dr_evs env)"
    and held: "\<And>c. r = Some c \<Longrightarrow> c_nodes c = dr_order env \<and> c_apply c = dr_order env \<and>
       c_addrs c = (\<lambda>i. map_option (\<lambda>port. ''localhost:'' @ to_string port) (snd ?su i)) \<and>
       (\<forall>cfg \<in> set (fst ?su). map_of (c_threads c) (cfg_id cfg) = Some (driver_commands env n ft vb cfg))"
    by (rule RaftTestCtrl_new_returns [where listens = "dr_listens env" and addr = "''0.0.0.0:55000''",
          OF assms(2) spawn d l assms(3), of "''./node''" ft vb])
      (simp add: eq ids driver_commands_def)
  have "snd ?su (cfg_id cfg) = Some (55001 + cfg_id cfg)" if "cfg \<in> set (fst ?su)" for cfg
    by (rule driver_spawnable(2) [OF assms(1) that])
  with held have "\<forall>c. r = Some c \<longrightarrow> c_nodes c = dr_order env \<and> c_apply c = dr_order env \<and>
       (\<forall>cfg \<in> set (fst ?su). map_of (c_threads c) (cfg_id cfg) = Some (driver_commands env n ft vb cfg) \<and>
          c_addrs c (cfg_id cfg) = Some (''localhost:'' @ to_string (55001 + cfg_id cfg)))" by auto
  with r show "\<exists>r. driver_ctrl env n ft vb = Done r \<and> (r \<noteq> None \<longleftrightarrow> {0..<n} \<subseteq> reported (dr_evs env)) \<and>
        (\<forall>c. r = Some c \<longrightarrow> c_nodes c = dr_order env \<and> c_apply c = dr_order env \<and>
           (\<forall>cfg \<in> set (fst ?su).
              map_of (c_threads c) (cfg_id cfg) = Some (driver_commands env n ft vb cfg) \<and>
              c_addrs c (cfg_id cfg) = Some (''localhost:'' @ to_string (55001 + cfg_id cfg))))" by blast
qed

text \<open>The system consists of the processes those flags start, whatever the tester has asked of them early.\<close>

definition nodes_up :: "driver_env \<Rightarrow> u64_t \<Rightarrow> int \<Rightarrow> int \<Rightarrow> bool" where
  "nodes_up env n ft vb \<longleftrightarrow>
     distinct (dr_order env) \<and> set (dr_order env) = {0..<n} \<and>
     dr_listens env ''0.0.0.0:55000'' \<and> \<not> shell_failed (dr_evs env) \<and>
     genuine {} (fst (driver_setup (gen_local_instances n 50050))) (dr_evs env) \<and>
     {0..<n} \<subseteq> reported (dr_evs env) \<and>
     (\<forall>i \<in> {0..<n}. \<exists>nenv early. node_boot nenv (flags_of n ft vb i) early [] = Some (Inr (sys_proc (dr_system env) i)))"

lemma flags_of_peers:
  assumes "0 \<le> i" "i < n"
  shows "insert i (fst ` set (nf_peers (flags_of n ft vb i))) = {0..<n}"
    "2 \<le> n \<Longrightarrow> nf_peers (flags_of n ft vb i) \<noteq> []"
proof -
  have "i \<in> set (map cfg_id (fst (driver_setup (gen_local_instances n 50050))))" unfolding driver_ids using assms by simp
  then obtain cfg where cfg: "cfg \<in> set (fst (driver_setup (gen_local_instances n 50050)))" "cfg_id cfg = i" by auto
  then have eq: "nf_peers (flags_of n ft vb i) = cfg_peer_addrs cfg"
    using driver_config(4) [OF cfg(1)] by (simp add: flags_of_def)
  show "insert i (fst ` set (nf_peers (flags_of n ft vb i))) = {0..<n}"
    "2 \<le> n \<Longrightarrow> nf_peers (flags_of n ft vb i) \<noteq> []"
    using driver_config_peers [OF cfg(1)] cfg(2) by (simp_all add: eq)
qed

lemma nodes_up_joined:
  assumes "nodes_up env n ft vb" "2 \<le> n"
  shows "\<forall>i \<in> {0..<n}. joined n (u8 ft) i (sys_proc (dr_system env) i)"
proof
  fix i
  assume i: "i \<in> {0..<n}"
  then obtain nenv early where boot: "node_boot nenv (flags_of n ft vb i) early [] = Some (Inr (sys_proc (dr_system env) i))"
    using assms(1) unfolding nodes_up_def by blast
  have f: "nf_id (flags_of n ft vb i) = i" "nf_fail_type (flags_of n ft vb i) = u8 ft" by (simp_all add: flags_of_def)
  show "joined n (u8 ft) i (sys_proc (dr_system env) i)"
    using node_boot_joined [OF _ _ boot, of n] flags_of_peers [of i n ft vb] i assms(2) f by simp
qed

lemma nodes_up_ctrl:
  assumes "absl_strings (dr_split env) join atoi" "nodes_up env n ft vb"
  obtains c where "driver_ctrl env n ft vb = Done (Some c)" "distinct (c_nodes c)" "set (c_nodes c) = {0..<n}"
proof -
  have up: "genuine {} (fst (driver_setup (gen_local_instances n 50050))) (dr_evs env)" "{0..<n} \<subseteq> reported (dr_evs env)"
    "distinct (dr_order env)" "set (dr_order env) = {0..<n}" "dr_listens env ''0.0.0.0:55000''" "\<not> shell_failed (dr_evs env)"
    using assms(2) by (auto simp: nodes_up_def)
  have "hash_order (snd (driver_setup (gen_local_instances n 50050))) (dr_order env)"
    using up(3,4) by (simp add: driver_order [OF assms(1)])
  from driver_ctrl_outcome(3) [OF assms(1) up(1) this up(5,6), of ft vb] up(2)
  obtain c where "driver_ctrl env n ft vb = Done (Some c)" "c_nodes c = dr_order env" by blast
  with that up(3,4) show thesis by simp
qed

section \<open>The multi-node program injects faults\<close>

text \<open>What the loop makes of the lines \<open>r\<close>, \<open>dis\<close> \<dots> and \<open>conn\<close> \<dots>.\<close>

definition typed :: "driver_env \<Rightarrow> (string \<Rightarrow> string) \<Rightarrow> string list \<Rightarrow> string \<Rightarrow> bool" where
  "typed env strip words line \<longleftrightarrow> dr_split env (strip line) (CHR '' '') = words"

lemma multi_loop_line:
  "typed env strip words line \<Longrightarrow> multi_dispatch words = (acts, Continue) \<Longrightarrow>
   multi_command_loop strip (dr_split env) (line # rest) =
     (acts @ fst (multi_command_loop strip (dr_split env) rest), snd (multi_command_loop strip (dr_split env) rest))"
  by (simp add: typed_def split: prod.split)

lemma ctrl_commands_done:
  assumes "distinct (c_nodes c)"
  shows "snd (ctrl_run (\<lambda>_. Served) timers [] c s) = Done ()"
    "snd (ctrl_disconnect (\<lambda>_. Served) ids c s) = Done ()" "snd (ctrl_reconnect (\<lambda>_. Served) ids c s) = Done ()"
  using assms by (simp_all add: ctrl_run_def ctrl_disconnect_def ctrl_reconnect_def command_all_nodes)

lemma typed_session:
  assumes absl: "absl_strings (dr_split env) join atoi" and up: "nodes_up env n ft vb" and n: "2 \<le> n"
    and ids: "ids \<noteq> []" "\<forall>i \<in> set ids. 0 \<le> i \<and> i < 2 ^ 64"
    and lines: "typed env strip [''r''] l0" "typed env strip (''dis'' # map to_string ids) l1"
  obtains c s1 where
    "multi_main env n ft vb strip (\<lambda>_ _. Served) [l0, l1] = (fst (ctrl_disconnect (\<lambda>_. Served) ids c s1), None)"
    "\<And>l2. typed env strip (''conn'' # map to_string ids) l2 \<Longrightarrow>
      multi_main env n ft vb strip (\<lambda>_ _. Served) [l0, l1, l2] =
      (fst (ctrl_reconnect (\<lambda>_. Served) ids c (fst (ctrl_disconnect (\<lambda>_. Served) ids c s1))), None)"
    "distinct (c_nodes c)" "set (c_nodes c) = {0..<n}" "\<forall>i \<in> {0..<n}. joined n (u8 ft) i (sys_proc s1 i)"
proof -
  obtain c where c: "driver_ctrl env n ft vb = Done (Some c)" "distinct (c_nodes c)" "set (c_nodes c) = {0..<n}"
    by (rule nodes_up_ctrl [OF absl up])
  define s1 where "s1 = fst (ctrl_run (\<lambda>_. Served) (dr_timers env) [] c (dr_system env))"
  have joined: "\<forall>i \<in> {0..<n}. joined n (u8 ft) i (sys_proc s1 i)"
    unfolding s1_def using nodes_up_joined [OF up n] by (blast intro: joined_kept)
  have r: "multi_dispatch [''r''] = ([CtrlRun], Continue)" by (simp add: multi_dispatch_def)
  note loop = multi_loop_line [OF lines(1) r] multi_loop_line [OF lines(2) multi_dispatch_ids(1) [OF ids]]
  have acts: "multi_command_loop strip (dr_split env) [l0, l1] = ([CtrlRun, CtrlDisconnect ids], Continue)"
    unfolding loop by simp
  have acts2: "multi_command_loop strip (dr_split env) [l0, l1, l2] = ([CtrlRun, CtrlDisconnect ids, CtrlReconnect ids], Continue)"
    if "typed env strip (''conn'' # map to_string ids) l2" for l2
    unfolding loop multi_loop_line [OF that multi_dispatch_ids(2) [OF ids]] by simp
  have run: "perform (\<lambda>_ _. Served) (dr_timers env) c CtrlRun (dr_system env) = (s1, Done ())"
    using ctrl_commands_done(1) [OF c(2)] by (simp add: perform_def s1_def prod_eq_iff)
  have dis: "perform (\<lambda>_ _. Served) (dr_timers env) c (CtrlDisconnect ids) s = (fst (ctrl_disconnect (\<lambda>_. Served) ids c s), Done ())" for s
    using ctrl_commands_done(2) [OF c(2)] by (simp add: perform_def prod_eq_iff)
  have con: "perform (\<lambda>_ _. Served) (dr_timers env) c (CtrlReconnect ids) s = (fst (ctrl_reconnect (\<lambda>_. Served) ids c s), Done ())" for s
    using ctrl_commands_done(3) [OF c(2)] by (simp add: perform_def prod_eq_iff)
  show thesis
    by (rule that [OF _ _ c(2,3) joined]) (simp_all add: multi_main_def c(1) acts acts2 run dis con del: multi_command_loop.simps)
qed

section \<open>The throughput sweep\<close>

text \<open>
  The loop over the client counts: at the latest the measurement with \<open>2 ^ 51\<close> clients throws. If all measurements
  before succeed, there is one row for every power of two up to the maximum.
\<close>

lemma tput_rounds_end:
  assumes "measured (2 ^ 51) = Inl stop" "k \<le> 51"
  shows "\<exists>stop rs. tput_rounds measured maxc (2 ^ k) rows = Some (stop, rows @ rs) \<and> length rs \<le> 51 - k"
  using assms(2)
proof (induction "51 - k" arbitrary: k rows)
  case 0
  then have "k = 51" by simp
  then show ?case using assms(1) by (subst tput_rounds.simps) simp
next
  case (Suc d)
  have k: "k < 51" using Suc(2) by simp
  then have "(2 :: int) ^ Suc k < 2 ^ 64" by (intro power_strict_increasing) auto
  then have u: "u64 (2 ^ k * 2) = 2 ^ Suc k" by (simp add: u64_def mult.commute)
  show ?case
  proof (cases "(2 :: int) ^ k \<le> maxc")
    case True
    show ?thesis
    proof (cases "measured (2 ^ k)")
      case (Inl x)
      with True show ?thesis by (subst tput_rounds.simps) simp
    next
      case (Inr y)
      have d: "d = 51 - Suc k" "Suc k \<le> 51" using Suc(2) k by simp_all
      obtain stop rs where "tput_rounds measured maxc (2 ^ Suc k) (rows @ [y]) = Some (stop, rows @ y # rs)" "length rs \<le> 51 - Suc k"
        using Suc(1) [OF d, of "rows @ [y]"] by auto
      with True Inr u k show ?thesis by (subst tput_rounds.simps) (auto intro!: exI [of _ "y # rs"])
    qed
  qed (subst tput_rounds.simps, simp)
qed

lemma tput_rounds_rows:
  assumes "measured (2 ^ 51) = Inl stop" "\<And>j. j < 51 \<Longrightarrow> 2 ^ j \<le> maxc \<Longrightarrow> measured (2 ^ j) = Inr (f j)" "k \<le> 51"
  shows "tput_rounds measured maxc (2 ^ k) rows =
    Some (if maxc < 2 ^ 51 then StopExit 0 else stop, rows @ map f (filter (\<lambda>j. 2 ^ j \<le> maxc) [k..<51]))"
  using assms(3)
proof (induction "51 - k" arbitrary: k rows)
  case 0
  then have "k = 51" by simp
  then show ?case using assms(1) by (subst tput_rounds.simps) simp
next
  case (Suc d)
  have k: "k < 51" using Suc(2) by simp
  then have "(2 :: int) ^ Suc k < 2 ^ 64" by (intro power_strict_increasing) auto
  then have u: "u64 (2 ^ k * 2) = 2 ^ Suc k" by (simp add: u64_def mult.commute)
  have IH: "tput_rounds measured maxc (2 ^ Suc k) (rows @ [f k]) =
      Some (if maxc < 2 ^ 51 then StopExit 0 else stop, (rows @ [f k]) @ map f (filter (\<lambda>j. 2 ^ j \<le> maxc) [Suc k..<51]))"
    using Suc(2) k by (intro Suc(1)) auto
  show ?case
  proof (cases "(2 :: int) ^ k \<le> maxc")
    case True
    have "tput_rounds measured maxc (2 ^ k) rows = tput_rounds measured maxc (2 ^ Suc k) (rows @ [f k])"
      using True assms(2) [OF k True] u by (subst tput_rounds.simps) simp
    with True IH k show ?thesis by (simp add: upt_conv_Cons)
  next
    case False
    have less: "maxc < 2 ^ j" if "k \<le> j" for j
      using False power_increasing [OF that, of "2 :: int"] by linarith
    have none: "filter (\<lambda>j. 2 ^ j \<le> maxc) [k..<51] = []" by (auto simp: filter_empty_conv not_le less)
    show ?thesis unfolding none using False less [of 51] k by (subst tput_rounds.simps) simp
  qed
qed

lemma tput_round_51:
  "\<exists>stop. tput_round envs num ft vb scaled alloc time asked (2 ^ 51) = Inl stop"
  using reserve_ok_power(2) [of alloc]
  by (simp add: tput_round_def measured_run_def split: ctrl_result.split option.split prod.split sum.split)

text \<open>A flag before the number is taken for the number, and \<^verbatim>\<open>stoull\<close> throws.\<close>

lemma stoul_flag: "stoul (CHR ''-'' # CHR ''-'' # s) = None"
  by (simp add: stoul_def strtoul_digits_def is_space_def is_digit_def)

section \<open>Result rows\<close>

lemma percentile_mono:
  fixes xs :: "'a::{linorder, zero} list"
  assumes "1 \<le> a" "a \<le> b" "b \<le> int (length xs)" "int (length xs) < 2 ^ 64"
  shows "snd (percentile_at False xs a) \<le> snd (percentile_at False xs b)"
  using assms by (simp add: percentile_value sorted_nth_mono)

text \<open>The percentiles of a row are in order when the ranks are, and a row without a success is zero.\<close>

lemma result_row_ordered:
  fixes runs :: "(tester_proposal list \<times> 'a::linordered_field) list list"
  assumes "measure_clients runs = (xs, k)" "xs \<noteq> []" "int (length xs) < 2 ^ 64"
    and "1 \<le> percentile_rank scaled 50 (length xs)"
      "percentile_rank scaled 50 (length xs) \<le> percentile_rank scaled 90 (length xs)"
      "percentile_rank scaled 90 (length xs) \<le> percentile_rank scaled 99 (length xs)"
      "percentile_rank scaled 99 (length xs) \<le> int (length xs)"
  shows "row_p50 (result_of scaled t n runs) \<le> row_p90 (result_of scaled t n runs) \<and>
    row_p90 (result_of scaled t n runs) \<le> row_p99 (result_of scaled t n runs) \<and>
    row_throughput (result_of scaled t n runs) = of_nat (length xs) / t"
proof -
  have k: "k = length xs" using length_measure_clients [of runs] assms(1) by simp
  have r: "percentile_rank scaled 90 (length xs) \<le> int (length xs)" "1 \<le> percentile_rank scaled 90 (length xs)"
    using assms(4-) by linarith+
  then show ?thesis
    using percentile_mono [OF assms(4,5) r(1) assms(3)] percentile_mono [OF r(2) assms(6,7,3)] assms(1,2)
    by (simp add: result_of_def compute_p50_def compute_p90_def compute_p99_def compute_percentile_def k)
qed

section \<open>A concrete cluster\<close>

text \<open>Three nodes that have started without a fault.\<close>

definition sample_nenv :: node_env where
  "sample_nenv =
     \<lparr>ne_garbage = Follower, ne_level = LevelTrace, ne_opens = (\<lambda>_. True), ne_registers = (\<lambda>_. True),
      ne_strip = (\<lambda>s. s), ne_split = split_on, ne_listens = (\<lambda>_. True), ne_pid = 1\<rparr>"

definition sample_driver :: "int \<Rightarrow> driver_env" where
  "sample_driver ft =
     \<lparr>dr_split = split_on, dr_listens = (\<lambda>_. True),
      dr_evs = [SpawnNext, SpawnNext, Report 1 101, SpawnNext, Report 2 102, Report 0 100],
      dr_order = [2, 0, 1],
      dr_system = \<lparr>sys_proc = (\<lambda>i. projr (the (node_boot sample_nenv (flags_of 3 ft 1 i) [] []))), sys_live = {100, 101, 102}\<rparr>,
      dr_run_fate = (\<lambda>_. Served), dr_timers = (\<lambda>_. 500), dr_kill_fate = (\<lambda>_. Served)\<rparr>"

lemma sample_absl: "absl_strings (dr_split (sample_driver ft)) join_with atoi_decimal"
  by (simp add: sample_driver_def absl_instance)

lemma sample_genuine:
  "genuine {} (fst (driver_setup (gen_local_instances 3 50050))) (dr_evs (sample_driver ft))"
proof -
  have "map cfg_id (fst (driver_setup (gen_local_instances 3 50050))) = [0, 1, 2]"
    unfolding driver_ids by (simp add: upto.simps)
  then show ?thesis by (auto simp: sample_driver_def map_eq_Cons_conv)
qed

lemma sample_up: "nodes_up (sample_driver ft) 3 ft 1"
proof -
  have three: "{0..<3 :: int} = {0, 1, 2}" by auto
  have "node_boot sample_nenv (flags_of 3 ft 1 i) [] [] = Some (Inr (sys_proc (dr_system (sample_driver ft)) i))"
    if "i \<in> {0..<3}" for i
  proof -
    have "nf_peers (flags_of 3 ft 1 i) \<noteq> []" using that flags_of_peers(2) [of i 3 ft 1] by simp
    moreover have "log_ready sample_nenv (nf_id (flags_of 3 ft 1 i))" "port_ready sample_nenv (flags_of 3 ft 1 i)"
      by (simp_all add: log_ready_def port_ready_def sample_nenv_def)
    ultimately obtain p where "node_boot sample_nenv (flags_of 3 ft 1 i) [] [] = Some (Inr p)" by (rule node_boot_defined)
    then show ?thesis by (simp add: sample_driver_def)
  qed
  moreover have "distinct (dr_order (sample_driver ft))" "set (dr_order (sample_driver ft)) = {0..<3}"
    "{0..<3} \<subseteq> reported (dr_evs (sample_driver ft))" "\<not> shell_failed (dr_evs (sample_driver ft))"
    "dr_listens (sample_driver ft) ''0.0.0.0:55000''"
    unfolding three by (auto simp: sample_driver_def)
  ultimately show ?thesis unfolding nodes_up_def using sample_genuine by blast
qed

text \<open>Its measurement succeeds.\<close>

lemma nodes_up_measured:
  assumes "absl_strings (dr_split env) join atoi" "nodes_up env n ft vb"
    and "dr_run_fate env = (\<lambda>_. Served)" "\<And>s. answers s = Some (h s)"
  obtains s m where "measured_run env n ft vb answers = Inr (s, m)"
proof -
  obtain c where c: "driver_ctrl env n ft vb = Done (Some c)" "distinct (c_nodes c)"
    by (rule nodes_up_ctrl [OF assms(1,2)])
  obtain s1 where s1: "run_raft_servers env c (dr_system env) = (s1, Done ())"
    using ctrl_commands_done(1) [OF c(2), of "dr_timers env" "dr_system env"]
    by (cases "run_raft_servers env c (dr_system env)") (simp add: run_raft_servers_def assms(3))
  obtain s2 m where m: "h s1 = (s2, m)" by fastforce
  obtain s3 where "cleanup_raft_servers env c s2 = (s3, Done ())"
    using ctrl_kill_effect(1) [OF c(2), of "dr_kill_fate env" s2]
    by (cases "cleanup_raft_servers env c s2") (simp add: cleanup_raft_servers_def)
  with that show thesis by (simp add: measured_run_def c(1) s1 assms(4) m)
qed

end
