(* ===== verification/VoteSpec.thy ===== *)
theory VoteSpec
  imports ElectionSafety
begin

text \<open>
  The abstract specification of leader election, and that the cluster implements it. The
  specification knows only which votes have been cast and who has won which term: a member casts at
  most one vote per term, and a candidate wins a term with the votes of a quorum. Everything else of
  the program (threads, timers, calls in flight, lost messages, logs) is a stuttering step.
\<close>

section \<open>The specification\<close>

record ballot =
  cast_votes :: "(u64_t \<times> i64_t \<times> i64_t) set"
  winners :: "(i64_t \<times> u64_t) set"

inductive ballot_step :: "u64_t set \<Rightarrow> ballot \<Rightarrow> ballot \<Rightarrow> bool" for M where
  cast: "v \<in> M \<Longrightarrow> \<nexists>y. (v, T, y) \<in> cast_votes b \<Longrightarrow>
    ballot_step M b (b\<lparr>cast_votes := insert (v, T, x) (cast_votes b)\<rparr>)"
| win: "Q \<subseteq> M \<Longrightarrow> card Q > (card M - 1) div 2 \<Longrightarrow> \<forall>v \<in> Q. (v, T, i) \<in> cast_votes b \<Longrightarrow>
    ballot_step M b (b\<lparr>winners := insert (T, i) (winners b)\<rparr>)"

definition ballot_init :: "ballot \<Rightarrow> bool" where
  "ballot_init b \<longleftrightarrow> b = \<lparr>cast_votes = {}, winners = {}\<rparr>"

section \<open>What the specification promises\<close>

definition ballot_inv :: "u64_t set \<Rightarrow> ballot \<Rightarrow> bool" where
  "ballot_inv M b \<longleftrightarrow>
     (\<forall>v T x y. (v, T, x) \<in> cast_votes b \<longrightarrow> (v, T, y) \<in> cast_votes b \<longrightarrow> x = y) \<and>
     elected_ok M (cast_votes b) (winners b)"

lemma ballot_step_inv:
  assumes "ballot_inv M b" "ballot_step M b b'"
  shows "ballot_inv M b'"
  using assms(2)
proof (cases rule: ballot_step.cases)
  case (cast v T x)
  have "elected_ok M (insert (v, T, x) (cast_votes b)) (winners b)"
    using assms(1) by (auto simp: ballot_inv_def intro: elected_ok_mono)
  then show ?thesis using assms(1) cast by (auto simp: ballot_inv_def)
next
  case (win Q T i)
  with assms(1) show ?thesis by (auto simp: ballot_inv_def elected_ok_def)
qed

interpretation ballots: inductive_invariant ballot_init "ballot_step M" "ballot_inv M" for M
  by unfold_locales (simp add: ballot_init_def ballot_inv_def elected_ok_def, rule ballot_step_inv)

section \<open>The cluster implements it\<close>

definition ballot_of :: "cluster \<Rightarrow> ballot" where
  "ballot_of c = \<lparr>cast_votes = granted c, winners = elected c\<rparr>"

lemma record_vote:
  assumes "v \<in> M" "\<And>y. (v, T, y) \<in> insert (v, T, x) G \<Longrightarrow> y = x"
  shows "(ballot_step M)\<^sup>*\<^sup>* \<lparr>cast_votes = G, winners = E\<rparr> \<lparr>cast_votes = insert (v, T, x) G, winners = E\<rparr>"
proof (cases "(v, T, x) \<in> G")
  case False
  with assms have "\<nexists>y. (v, T, y) \<in> G" by blast
  with assms(1) show ?thesis using ballot_step.cast [of v M T "\<lparr>cast_votes = G, winners = E\<rparr>" x] by auto
qed (simp add: insert_absorb)

lemma record_winner:
  assumes "elected_ok M G (insert (T, i) E)"
  shows "(ballot_step M)\<^sup>*\<^sup>* \<lparr>cast_votes = G, winners = E\<rparr> \<lparr>cast_votes = G, winners = insert (T, i) E\<rparr>"
proof -
  obtain Q where "Q \<subseteq> M" "card Q > (card M - 1) div 2" "\<forall>v \<in> Q. (v, T, i) \<in> G"
    using assms by (auto simp: elected_ok_def)
  then show ?thesis using ballot_step.win [of Q M T i "\<lparr>cast_votes = G, winners = E\<rparr>"] by auto
qed

lemma step_refines:
  assumes inv: "election_inv c'" and ex: "exec ev c = Some c'"
  shows "(ballot_step (set (members c)))\<^sup>*\<^sup>* (ballot_of c) (ballot_of c')"
  using ex
proof (cases rule: exec_shape)
  case (drop cs)
  then show ?thesis by (simp add: ballot_of_def)
next
  case (put i s cs n)
  let ?M = "set (members c)"
  have M: "set (members c') = ?M" by (simp add: put)
  have fn: "x = y" if "(v, T, x) \<in> granted c'" "(v, T, y) \<in> granted c'" for v T x y
    using inv that unfolding election_inv_def Let_def history_ok_def by blast
  have "(ballot_step ?M)\<^sup>*\<^sup>* (ballot_of c) \<lparr>cast_votes = granted c', winners = elected c\<rparr>"
  proof (cases "votedFor s = -1")
    case False
    then have g: "granted c' = insert (i, currentTerm s, votedFor s) (granted c)" by (simp add: put)
    show ?thesis unfolding g ballot_of_def by (rule record_vote) (use put(1) fn g in blast)+
  qed (simp add: put ballot_of_def)
  also have "(ballot_step ?M)\<^sup>*\<^sup>* \<lparr>cast_votes = granted c', winners = elected c\<rparr> (ballot_of c')"
  proof (cases "active s \<and> currentRole s = Leader")
    case True
    then have e: "elected c' = insert (currentTerm s, i) (elected c)" by (simp add: put)
    have "elected_ok ?M (granted c') (elected c')" using inv by (simp add: election_inv_def Let_def M)
    then show ?thesis unfolding ballot_of_def e by (rule record_winner)
  next
    case False
    then have "elected c' = elected c" by (auto simp: put)
    then show ?thesis by (simp add: ballot_of_def)
  qed
  finally show ?thesis .
qed

lemma exec_members_same: "exec ev c = Some c' \<Longrightarrow> members c' = members c"
  by (erule exec_shape) simp_all

lemma reachable_members: "reachable cfgs c \<Longrightarrow> members c = map cfg_id cfgs"
  by (induction rule: reach.induct) (auto simp: cluster_init_def cluster_step_iff exec_members_same)

interpretation ballot_sim: simulation "cluster_init cfgs" cluster_step ballot_of ballot_init
  "ballot_step (cfg_id ` set cfgs)" for cfgs
proof
  fix c c'
  assume c: "reachable cfgs c" and st: "cluster_step c c'"
  then obtain ev where ev: "exec ev c = Some c'" by (auto simp: cluster_step_iff)
  have "election_inv c'" using reach.step [OF c st] by (rule election.always)
  from step_refines [OF this ev] show "(ballot_step (cfg_id ` set cfgs))\<^sup>*\<^sup>* (ballot_of c) (ballot_of c')"
    by (simp add: reachable_members [OF c])
qed (auto simp: cluster_init_def ballot_init_def ballot_of_def)

section \<open>The history only grows\<close>

lemma execs_elected: "execs evs c = Some c' \<Longrightarrow> elected c \<subseteq> elected c'"
proof (induction evs arbitrary: c)
  case (Cons ev evs)
  then obtain d where d: "exec ev c = Some d" "execs evs d = Some c'" by (auto split: option.splits)
  from d(1) have "elected c \<subseteq> elected d" by (cases rule: exec_shape) auto
  with Cons.IH [OF d(2)] show ?case by blast
qed simp

end
