(* ===== verification/Harness.thy ===== *)
theory Harness
  imports RaftWrapper VoteSpec TermBound "HOL-Library.AList"
begin

text \<open>
  The checks of the test harness (\<^verbatim>\<open>inc/toolings/test_config.hpp\<close>) on the results the nodes stream and
  on the states they report: \<^verbatim>\<open>check_logs\<close> with the handler that calls it, and the decision of
  \<^verbatim>\<open>check_one_leader\<close>. The loops that sleep and look again are in \<open>HarnessLoops\<close>, the controller is in \<open>TestCtrl\<close>.
\<close>

section \<open>Checking applied results\<close>

datatype apply_error = CommitMismatch u64_t string | OutOfOrder u64_t

record harness =
  hlogs :: "(u64_t \<times> (u64_t \<rightharpoonup> string)) list"
  hmax_index :: u64_t
  hstopped :: "u64_t \<Rightarrow> bool"
  hstop :: bool
  hfailed :: bool
  happly_err :: "u64_t \<rightharpoonup> apply_error"

definition log_of_server :: "u64_t \<Rightarrow> harness \<Rightarrow> u64_t \<rightharpoonup> string" where
  "log_of_server i h = (case map_of (hlogs h) i of Some l \<Rightarrow> l | None \<Rightarrow> Map.empty)"

text \<open>The last mismatch found is the one reported.\<close>

definition check_logs :: "u64_t \<Rightarrow> apply_result \<Rightarrow> harness \<Rightarrow> harness \<times> apply_error option \<times> bool" where
  "check_logs i m h =
     (let err = fold (\<lambda>(j, l) e. case l (ar_index m) of
                        Some v \<Rightarrow> if v \<noteq> ar_data m then Some (CommitMismatch j v) else e
                      | None \<Rightarrow> e) (hlogs h) None;
          prevok = (case map_of (hlogs h) i of
                      Some l \<Rightarrow> l (u64 (ar_index m - 1)) \<noteq> None | None \<Rightarrow> False);
          h' = h\<lparr>hlogs := AList.update i ((log_of_server i h)(ar_index m \<mapsto> ar_data m)) (hlogs h),
                 hmax_index := (if ar_index m > hmax_index h then ar_index m else hmax_index h)\<rparr>
      in (h', err, prevok))"

text \<open>The handler registered with the controller; an error stops the test.\<close>

definition apply_handler :: "u64_t \<Rightarrow> apply_result \<Rightarrow> harness \<Rightarrow> harness" where
  "apply_handler i m h =
     (if hstop h \<or> hfailed h \<or> hstopped h i then h
      else if \<not> ar_valid m then h
      else
        (case check_logs i m h of (h1, err, preok) \<Rightarrow>
           let err' = (if ar_index m > 1 \<and> \<not> preok then Some (OutOfOrder (ar_index m)) else err)
           in (case err' of
                 None \<Rightarrow> h1
               | Some e \<Rightarrow> h1\<lparr>happly_err := (happly_err h1)(i \<mapsto> e), hfailed := True, hstop := True\<rparr>)))"

definition harness_begin :: "u64_t list \<Rightarrow> harness" where
  "harness_begin ids =
     \<lparr>hlogs = map (\<lambda>i. (i, Map.empty)) ids, hmax_index = 0, hstopped = (\<lambda>_. False), hstop = False,
      hfailed = False, happly_err = Map.empty\<rparr>"

text \<open>The streams of all servers, interleaved.\<close>

definition feed :: "(u64_t \<times> apply_result) list \<Rightarrow> harness \<Rightarrow> harness" where
  "feed evs h = fold (\<lambda>(i, m). apply_handler i m) evs h"

definition stream_of :: "u64_t \<Rightarrow> (u64_t \<times> apply_result) list \<Rightarrow> apply_result list" where
  "stream_of i evs = map snd (filter (\<lambda>p. fst p = i) evs)"

section \<open>Checking leaders\<close>

definition i32 :: "int \<Rightarrow> int" where
  "i32 x = (x + 2 ^ 31) mod 2 ^ 32 - 2 ^ 31"

text \<open>The leaders reported, by term.\<close>

definition leaders_by_term :: "tester_state list \<Rightarrow> u64_t \<Rightarrow> u64_t option list" where
  "leaders_by_term states t = map ts_id (filter (\<lambda>s. ts_is_leader s \<and> ts_term s = t) states)"

datatype leader_check = TooMany u64_t | NoLeader | OneLeader "u64_t option"

text \<open>
  One iteration of \<^verbatim>\<open>check_one_leader\<close>: a term with two leaders is an error; otherwise the leader of
  the greatest term (compared as \<^verbatim>\<open>int\<close>) is returned. \<open>None\<close> is \<^verbatim>\<open>front()\<close> of an empty vector.
\<close>

definition check_leaders :: "tester_state list \<Rightarrow> leader_check defined" where
  "check_leaders states =
     (let ts = map ts_term (filter ts_is_leader states)
      in case find (\<lambda>t. length (leaders_by_term states t) > 1) ts of
           Some t \<Rightarrow> Some (TooMany t)
         | None \<Rightarrow>
             if ts = [] then Some NoLeader
             else
               let lst = fold (\<lambda>t acc. if i32 t > acc then i32 t else acc) ts (-1)
               in (case leaders_by_term states (u64 lst) of
                     [] \<Rightarrow> None
                   | i # _ \<Rightarrow> Some (OneLeader i)))"

section \<open>Streams in index order pass the order check\<close>

text \<open>
  \<open>feed_ok\<close>: unless the test has been stopped by a mismatch, the log kept for every server holds
  exactly the indices of the results it has sent.
\<close>

definition feed_ok :: "(u64_t \<times> apply_result) list \<Rightarrow> harness \<Rightarrow> bool" where
  "feed_ok evs h \<longleftrightarrow>
     (\<forall>i e. happly_err h i = Some e \<longrightarrow> (\<exists>j v. e = CommitMismatch j v)) \<and>
     (hstop h \<or> (\<forall>i. dom (log_of_server i h) = {1..int (length (stream_of i evs))} \<and>
        (stream_of i evs \<noteq> [] \<longrightarrow> i \<in> fst ` set (hlogs h))))"

lemma log_of_server_update [simp]:
  "log_of_server j (h\<lparr>hlogs := AList.update i l (hlogs h), hmax_index := x\<rparr>) =
   (if j = i then l else log_of_server j h)"
  by (simp add: log_of_server_def update_conv')

lemma apply_handler_stopped: "hstop h \<Longrightarrow> apply_handler i m h = h"
  by (simp add: apply_handler_def)

lemma stream_of_snoc:
  "stream_of j (evs @ [(i, m)]) = (if j = i then stream_of i evs @ [m] else stream_of j evs)"
  by (simp add: stream_of_def)

lemma check_logs_err: "check_logs i m h = (h1, Some e, preok) \<Longrightarrow> \<exists>j v. e = CommitMismatch j v"
proof -
  have "fold (\<lambda>(j, l) e. case l k of Some v \<Rightarrow> if v \<noteq> d then Some (CommitMismatch j v) else e | None \<Rightarrow> e) ls e0 = Some e
      \<Longrightarrow> (e0 = None \<or> (\<exists>j v. e0 = Some (CommitMismatch j v))) \<Longrightarrow> \<exists>j v. e = CommitMismatch j v"
    for ls :: "(u64_t \<times> (u64_t \<rightharpoonup> string)) list" and k d e0
    by (induction ls arbitrary: e0) (fastforce split: option.splits if_splits prod.splits)+
  then show "check_logs i m h = (h1, Some e, preok) \<Longrightarrow> \<exists>j v. e = CommitMismatch j v"
    by (auto simp: check_logs_def Let_def)
qed

lemma feed_ok_step:
  assumes ok: "feed_ok evs h" and quiet: "hfailed h = hstop h" "\<forall>i. \<not> hstopped h i"
    and m: "ar_valid m" "ar_index m = int (length (stream_of i evs)) + 1" "ar_index m < 2 ^ 64"
  shows "feed_ok (evs @ [(i, m)]) (apply_handler i m h)"
proof (cases "hstop h")
  case True
  with ok show ?thesis by (simp add: apply_handler_stopped feed_ok_def)
next
  case False
  let ?k = "int (length (stream_of i evs))"
  obtain h1 err preok where c: "check_logs i m h = (h1, err, preok)" by (metis prod_cases3)
  have h1: "h1 = h\<lparr>hlogs := AList.update i ((log_of_server i h)(ar_index m \<mapsto> ar_data m)) (hlogs h),
      hmax_index := (if ar_index m > hmax_index h then ar_index m else hmax_index h)\<rparr>"
    using c by (simp add: check_logs_def Let_def)
  have "preok" if "ar_index m > 1"
  proof -
    have u: "u64 (ar_index m - 1) = ?k" using m by (simp add: u64_id)
    have "stream_of i evs \<noteq> []" using that m(2) by auto
    then obtain l where l: "map_of (hlogs h) i = Some l"
      using ok False by (auto simp: feed_ok_def map_of_eq_None_iff split: option.splits) (metis not_Some_eq map_of_eq_None_iff)
    have "dom (log_of_server i h) = {1..?k}" using ok False by (simp add: feed_ok_def)
    moreover have "1 \<le> ?k" using that m(2) by linarith
    ultimately have "?k \<in> dom (log_of_server i h)" by simp
    then show ?thesis using c l u by (auto simp: check_logs_def Let_def log_of_server_def)
  qed
  then have handler: "apply_handler i m h =
      (case err of None \<Rightarrow> h1 | Some e \<Rightarrow> h1\<lparr>happly_err := (happly_err h1)(i \<mapsto> e), hfailed := True, hstop := True\<rparr>)"
    using False quiet m(1) c by (auto simp: apply_handler_def Let_def split: option.split)
  have dom: "dom (log_of_server j h1) = {1..int (length (stream_of j (evs @ [(i, m)])))}" for j
    using ok False m(2) by (auto simp: h1 feed_ok_def stream_of_snoc)
  have keys: "j \<in> fst ` set (hlogs h1)" if "stream_of j (evs @ [(i, m)]) \<noteq> []" for j
    using that ok False by (auto simp: h1 feed_ok_def stream_of_snoc dom_update split: if_splits)
  show ?thesis
    using handler dom keys ok check_logs_err [of i m h h1 _ preok] c
    by (cases err) (auto simp: feed_ok_def h1)
qed

lemma handler_flags:
  "hfailed h = hstop h \<Longrightarrow> hfailed (apply_handler i m h) = hstop (apply_handler i m h)"
  "hstopped (apply_handler i m h) = hstopped h"
  by (auto simp: apply_handler_def check_logs_def Let_def split: prod.splits option.splits)

text \<open>Every server's stream is valid and numbered from 1.\<close>

definition numbered :: "apply_result list \<Rightarrow> bool" where
  "numbered rs \<longleftrightarrow>
     map ar_index rs = [1..int (length rs)] \<and> (\<forall>r \<in> set rs. ar_valid r) \<and> int (length rs) < 2 ^ 63"

lemma numbered_snoc:
  assumes "numbered (rs @ [m])"
  shows "numbered rs" "ar_valid m" "ar_index m = int (length rs) + 1" "ar_index m < 2 ^ 64"
proof -
  have idx: "map ar_index rs @ [ar_index m] = [1..int (length rs)] @ [int (length rs) + 1]"
    using assms upto_rec2 [of 1 "int (length rs) + 1"] by (auto simp: numbered_def add.commute)
  then show i: "ar_index m = int (length rs) + 1" by simp
  have "map ar_index rs = [1..int (length rs)]" using idx by simp
  then show "numbered rs" "ar_valid m" using assms by (simp_all add: numbered_def)
  show "ar_index m < 2 ^ 64" using assms i by (simp add: numbered_def)
qed

lemma feed_numbered:
  assumes "\<And>i. numbered (stream_of i evs)"
  shows "feed_ok evs (feed evs (harness_begin ids)) \<and>
    hfailed (feed evs (harness_begin ids)) = hstop (feed evs (harness_begin ids)) \<and>
    (\<forall>i. \<not> hstopped (feed evs (harness_begin ids)) i)"
  using assms
proof (induction evs rule: rev_induct)
  case Nil
  have "log_of_server i (harness_begin ids) = Map.empty" for i
    by (induction ids) (auto simp: log_of_server_def harness_begin_def)
  then show ?case by (simp add: feed_ok_def feed_def harness_begin_def stream_of_def)
next
  case (snoc ev evs)
  obtain i m where ev: "ev = (i, m)" by fastforce
  let ?h = "feed evs (harness_begin ids)"
  have num: "numbered (stream_of j evs)" for j
    using snoc(2) [of j] numbered_snoc(1) by (auto simp: ev stream_of_snoc split: if_splits)
  have m: "ar_valid m" "ar_index m = int (length (stream_of i evs)) + 1" "ar_index m < 2 ^ 64"
    using snoc(2) [of i] numbered_snoc(2-4) by (auto simp: ev stream_of_snoc)
  have IH: "feed_ok evs ?h" "hfailed ?h = hstop ?h" "\<forall>i. \<not> hstopped ?h i" using snoc(1) num by auto
  have "feed (evs @ [ev]) (harness_begin ids) = apply_handler i m ?h" by (simp add: feed_def ev)
  then show ?case using feed_ok_step [OF IH m] handler_flags(1) [OF IH(2), of i m] IH(3) by (simp add: ev handler_flags(2))
qed

lemma numbered_prefix:
  assumes "applied_in_order s" "int (length rs) < 2 ^ 63" "prefix rs (ready_queue s)"
  shows "numbered rs"
proof -
  obtain qs where qs: "ready_queue s = rs @ qs" using assms(3) by (auto simp: prefix_def)
  have idx: "map ar_index (rs @ qs) = map u64 [1..lastApplied s]"
    using assms(1) qs by (simp add: applied_in_order_def)
  have len: "int (length (rs @ qs)) = lastApplied s"
    using arg_cong [OF idx, of length] assms(1) by (simp add: applied_in_order_def)
  have "map ar_index rs = take (length rs) (map u64 [1..lastApplied s])" unfolding idx [symmetric] by simp
  also have "\<dots> = [1..int (length rs)]"
    using len assms(2) by (intro nth_equalityI) (auto simp: u64_id)
  finally show ?thesis using assms qs by (auto simp: numbered_def applied_in_order_def)
qed

section \<open>The leader check\<close>

text \<open>No term with two leaders is reported when the leaders seen are unique per term.\<close>

lemma check_leaders_unique:
  assumes "distinct states"
    and "\<And>s t. s \<in> set states \<Longrightarrow> t \<in> set states \<Longrightarrow> ts_is_leader s \<Longrightarrow> ts_is_leader t \<Longrightarrow>
      ts_term s = ts_term t \<Longrightarrow> s = t"
  shows "check_leaders states \<noteq> Some (TooMany T)"
proof -
  have "length (filter (\<lambda>s. ts_is_leader s \<and> ts_term s = t) states) \<le> 1" for t
  proof -
    let ?ls = "filter (\<lambda>s. ts_is_leader s \<and> ts_term s = t) states"
    have eq: "x = y" if "x \<in> set ?ls" "y \<in> set ?ls" for x y using assms(2) that by auto
    show ?thesis
    proof (cases ?ls)
      case (Cons x xs)
      have "xs = []"
      proof (cases xs)
        case (Cons y ys)
        have "distinct ?ls" using assms(1) by simp
        then show ?thesis using eq [of x y] \<open>?ls = x # xs\<close> Cons by (metis distinct_length_2_or_more list.set_intros)
      qed
      then show ?thesis unfolding Cons by simp
    qed simp
  qed
  then have "find (\<lambda>t. length (leaders_by_term states t) > 1) ts = None" for ts
    by (auto simp: find_None_iff leaders_by_term_def not_less)
  then show ?thesis by (auto simp: check_leaders_def Let_def split: list.splits)
qed

text \<open>
  Polls of an execution: \<^verbatim>\<open>check_one_leader\<close> asks the nodes one after the other, and \<^verbatim>\<open>get_state\<close> reads the term and
  the role without the mutex, so an answer takes the term from a state \<open>d\<close> and the role from a state \<open>e\<close> the cluster went
  through before it reached \<open>c\<close>, in any order. Only nodes that have been started are asked. A poll is whole when
  the term is the same in both.
\<close>

definition poll_ok :: "config list \<Rightarrow> cluster \<Rightarrow> cluster \<times> cluster \<times> u64_t \<times> wrapper \<Rightarrow> bool" where
  "poll_ok cfgs c = (\<lambda>(d, e, i, w).
     (\<forall>x \<in> {d, e}. reachable cfgs x \<and> (\<exists>evs. execs evs x = Some c) \<and> elections x < 2 ^ 63 \<and>
        i \<in> set (members x) \<and> active (nodes x i)) \<and> wid w = Some i)"

definition poll_whole :: "cluster \<times> cluster \<times> u64_t \<times> wrapper \<Rightarrow> bool" where
  "poll_whole = (\<lambda>(d, e, i, w). currentTerm (nodes d i) = currentTerm (nodes e i))"

definition poll_state :: "cluster \<times> cluster \<times> u64_t \<times> wrapper \<Rightarrow> tester_state" where
  "poll_state = (\<lambda>(d, e, i, w). GetState (nodes d i) (nodes e i) w)"

definition polled :: "cluster \<times> cluster \<times> u64_t \<times> wrapper \<Rightarrow> u64_t" where
  "polled = (\<lambda>(d, e, i, w). i)"

lemma poll_id: "poll_ok cfgs c p \<Longrightarrow> ts_id (poll_state p) = Some (polled p)"
  by (auto simp: poll_ok_def poll_state_def polled_def GetState_def Let_def)

lemma poll_leader:
  assumes "poll_ok cfgs c p" "poll_whole p" "ts_is_leader (poll_state p)"
  shows "(ts_term (poll_state p), polled p) \<in> elected c"
proof -
  obtain d e i w where p: "p = (d, e, i, w)" by (metis prod_cases4)
  have e: "reachable cfgs e" "i \<in> set (members e)" "active (nodes e i)" "elections e < 2 ^ 63"
    "\<exists>evs. execs evs e = Some c" and t: "currentTerm (nodes d i) = currentTerm (nodes e i)"
    using assms(1,2) by (auto simp: poll_ok_def poll_whole_def p)
  have "currentRole (nodes e i) = Leader"
    using assms(3) by (simp add: poll_state_def p GetState_def get_state_def Let_def)
  then have "(currentTerm (nodes e i), i) \<in> elected e"
    using recorded.always [OF e(1)] e(2,3) by (auto simp: leaders_recorded_def)
  then have "(currentTerm (nodes e i), i) \<in> elected c" using e(5) execs_elected by blast
  moreover have "term_ok (elections e) (currentTerm (nodes e i))"
    using terms.always [OF e(1)] e(2) by (simp add: term_inv_def)
  then have "ts_term (poll_state p) = currentTerm (nodes e i)"
    using e(4) by (simp add: poll_state_def p GetState_def get_state_def Let_def t term_ok_def u64_id)
  ultimately show ?thesis by (simp add: polled_def p)
qed

lemma polls_never_two_leaders:
  assumes "reachable cfgs c" "odd (length cfgs)"
    and polls: "\<And>p. p \<in> set polls \<Longrightarrow> poll_ok cfgs c p \<and> poll_whole p" "distinct (map polled polls)"
  shows "check_leaders (map poll_state polls) \<noteq> Some (TooMany T)"
proof (rule check_leaders_unique)
  have ids: "map polled polls = map (the \<circ> ts_id) (map poll_state polls)" using poll_id polls(1) by fastforce
  then show "distinct (map poll_state polls)" using polls(2) by (metis distinct_map)
  fix s t
  assume s: "s \<in> set (map poll_state polls)" "ts_is_leader s"
    and t: "t \<in> set (map poll_state polls)" "ts_is_leader t" and eq: "ts_term s = ts_term t"
  obtain p q where p: "p \<in> set polls" "s = poll_state p" and q: "q \<in> set polls" "t = poll_state q"
    using s(1) t(1) by auto
  have "odd (card (set (members c)))" using reachable_facts(3) [OF assms(1) assms(1)] assms(2) by simp
  then have "polled p = polled q"
    using elected_unique [of c "ts_term s" "polled p" "polled q"] reachable_facts(1) [OF assms(1)] eq
      poll_leader [of cfgs c p] poll_leader [of cfgs c q] polls(1) [OF p(1)] polls(1) [OF q(1)] s(2) t(2) p(2) q(2) by simp
  then have "p = q" using inj_onD [of polled "set polls" p q] polls(2) p(1) q(1) by (simp add: distinct_map)
  then show "s = t" using p(2) q(2) by simp
qed

end
