(* ===== verification/HarnessChecks.thy ===== *)
theory HarnessChecks
  imports Harness FencedSafety TestCtrl
begin

text \<open>
  The other checks and operations of \<^verbatim>\<open>inc/toolings/test_config.hpp\<close>: how many servers have applied an index
  (\<^verbatim>\<open>n_committed\<close>), whether the terms agree, whether there is no leader, taking servers off the network and
  bringing them back with the bookkeeping of who is connected, and picking servers. Then what the harness sees of
  a fenced execution: every check on applied results passes.
\<close>

section \<open>Counting commits\<close>

text \<open>\<open>None\<close>: the check has failed, the test is stopped and an exception thrown.\<close>

fun n_committed_loop :: "u64_t list \<Rightarrow> u64_t \<Rightarrow> u64_t \<times> string \<Rightarrow> harness \<Rightarrow> harness \<times> (u64_t \<times> string) option" where
  "n_committed_loop [] i acc h = (h, Some acc)"
| "n_committed_loop (server # ids) i (num, data) h =
     (if happly_err h server \<noteq> None then (h\<lparr>hstop := True, hfailed := True\<rparr>, None)
      else
        (case log_of_server server h i of
           Some data1 \<Rightarrow>
             if num > 0 \<and> data \<noteq> data1 then (h\<lparr>hstop := True, hfailed := True\<rparr>, None)
             else n_committed_loop ids i (u64 (num + 1), data1) h
         | None \<Rightarrow> n_committed_loop ids i (num, data) h))"

definition n_committed :: "u64_t list \<Rightarrow> u64_t \<Rightarrow> harness \<Rightarrow> harness \<times> (u64_t \<times> string) option" where
  "n_committed raft_ids i h = n_committed_loop raft_ids i (0, []) h"

section \<open>Checking states\<close>

text \<open>\<open>None\<close>: the servers disagree.\<close>

fun check_terms_loop :: "u64_t option \<Rightarrow> tester_state list \<Rightarrow> u64_t option option" where
  "check_terms_loop term [] = Some term"
| "check_terms_loop term (state # states) =
     (if term = None then check_terms_loop (Some (ts_term state)) states
      else if term \<noteq> Some (ts_term state) then None
      else check_terms_loop term states)"

definition check_terms :: "tester_state list \<Rightarrow> u64_t option option" where
  "check_terms states = check_terms_loop None states"

fun check_no_leader :: "tester_state list \<Rightarrow> bool" where
  "check_no_leader [] = True"
| "check_no_leader (state # states) = (if ts_is_leader state then False else check_no_leader states)"

lemma check_terms_loop_iff:
  "check_terms_loop t states = Some r \<longleftrightarrow>
     (\<forall>s \<in> set states. \<forall>x. r = Some x \<longrightarrow> ts_term s = x) \<and> (if t = None \<and> states = [] then r = None else r \<noteq> None) \<and>
     (t \<noteq> None \<longrightarrow> r = t)"
  by (induction t states rule: check_terms_loop.induct) auto

text \<open>\<open>check_terms\<close> passes exactly when all the states asked have one term, and returns it.\<close>

lemma check_terms_iff:
  "check_terms states = Some (Some t) \<longleftrightarrow> states \<noteq> [] \<and> (\<forall>s \<in> set states. ts_term s = t)"
  by (auto simp: check_terms_def check_terms_loop_iff)

lemma check_no_leader_iff: "check_no_leader states \<longleftrightarrow> (\<forall>s \<in> set states. \<not> ts_is_leader s)"
  by (induction states) auto

section \<open>Who is connected\<close>

definition harness_disconnect ::
  "(u64_t \<Rightarrow> rpc_fate) \<Rightarrow> u64_t list \<Rightarrow> u64_t \<Rightarrow> ctrl \<Rightarrow> system \<times> (u64_t \<times> bool) list \<Rightarrow>
   (system \<times> (u64_t \<times> bool) list) ctrl_result" where
  "harness_disconnect fate raft_ids i c = (\<lambda>(s, connected).
     (if i \<in> set raft_ids then
        (case ctrl_disconnect fate [i] c s of
           (s1, Done _) \<Rightarrow> Done (s1, omap_put i False connected)
         | (s1, ExitProcess n) \<Rightarrow> ExitProcess n
         | (s1, OutOfRange) \<Rightarrow> OutOfRange
         | (s1, Terminated) \<Rightarrow> Terminated
         | (s1, NullServer) \<Rightarrow> NullServer)
      else Done (s, connected)))"

definition harness_reconnect ::
  "(u64_t \<Rightarrow> rpc_fate) \<Rightarrow> u64_t list \<Rightarrow> u64_t \<Rightarrow> ctrl \<Rightarrow> system \<times> (u64_t \<times> bool) list \<Rightarrow>
   (system \<times> (u64_t \<times> bool) list) ctrl_result" where
  "harness_reconnect fate raft_ids i c = (\<lambda>(s, connected).
     (if i \<in> set raft_ids then
        (case ctrl_reconnect fate [i] c s of
           (s1, Done _) \<Rightarrow> Done (s1, omap_put i True connected)
         | (s1, ExitProcess n) \<Rightarrow> ExitProcess n
         | (s1, OutOfRange) \<Rightarrow> OutOfRange
         | (s1, Terminated) \<Rightarrow> Terminated
         | (s1, NullServer) \<Rightarrow> NullServer)
      else Done (s, connected)))"

definition harness_disconnect_all ::
  "(u64_t \<Rightarrow> rpc_fate) \<Rightarrow> u64_t list \<Rightarrow> ctrl \<Rightarrow> system \<times> (u64_t \<times> bool) list \<Rightarrow>
   (system \<times> (u64_t \<times> bool) list) ctrl_result" where
  "harness_disconnect_all fate raft_ids c = (\<lambda>(s, connected).
     (case ctrl_disconnect fate raft_ids c s of
        (s1, Done _) \<Rightarrow> Done (s1, fold (\<lambda>i. omap_put i False) raft_ids connected)
      | (s1, ExitProcess n) \<Rightarrow> ExitProcess n
      | (s1, OutOfRange) \<Rightarrow> OutOfRange
      | (s1, Terminated) \<Rightarrow> Terminated
      | (s1, NullServer) \<Rightarrow> NullServer))"

definition harness_reconnect_all ::
  "(u64_t \<Rightarrow> rpc_fate) \<Rightarrow> u64_t list \<Rightarrow> ctrl \<Rightarrow> system \<times> (u64_t \<times> bool) list \<Rightarrow>
   (system \<times> (u64_t \<times> bool) list) ctrl_result" where
  "harness_reconnect_all fate raft_ids c = (\<lambda>(s, connected).
     (case ctrl_reconnect fate raft_ids c s of
        (s1, Done _) \<Rightarrow> Done (s1, fold (\<lambda>i. omap_put i True) raft_ids connected)
      | (s1, ExitProcess n) \<Rightarrow> ExitProcess n
      | (s1, OutOfRange) \<Rightarrow> OutOfRange
      | (s1, Terminated) \<Rightarrow> Terminated
      | (s1, NullServer) \<Rightarrow> NullServer))"

text \<open>A server that has been disconnected is not asked any more; the others are asked as before.\<close>

lemma disconnected_not_asked:
  assumes "distinct (c_nodes c)" "i \<in> set raft_ids" "i \<in> fst ` set connected"
  obtains s1 connected1 where
    "harness_disconnect (\<lambda>_. Served) raft_ids i c (s, connected) = Done (s1, connected1)"
    "participants connected1 is = filter (\<lambda>j. j \<noteq> i) (participants connected is)"
proof -
  have "ctrl_disconnect (\<lambda>_. Served) [i] c s = (fst (ctrl_disconnect (\<lambda>_. Served) [i] c s), Done ())"
    using command_all_nodes(2) [OF assms(1)] by (simp add: ctrl_disconnect_def prod_eq_iff)
  then have run: "harness_disconnect (\<lambda>_. Served) raft_ids i c (s, connected) =
      Done (fst (ctrl_disconnect (\<lambda>_. Served) [i] c s), omap_put i False connected)"
    using assms(2) by (auto simp: harness_disconnect_def split: prod.splits)
  have ne: "connected \<noteq> []" "omap_put i False connected \<noteq> []"
    using assms(3) set_keys_omap_put [of i False connected] by auto
  have "participants (omap_put i False connected) is = filter (\<lambda>j. j \<noteq> i) (participants connected is)"
    by (auto simp: participants_def left_out_def ne map_of_omap_put intro!: filter_cong)
  with run that show thesis by blast
qed

text \<open>\<open>shuffled\<close>: the ids in the order \<^verbatim>\<open>std::shuffle\<close> leaves them in.\<close>

definition pick_n_servers :: "(u64_t list \<Rightarrow> u64_t list) \<Rightarrow> u64_t list \<Rightarrow> u64_t \<Rightarrow> u64_t set \<Rightarrow> u64_t list" where
  "pick_n_servers shuffled raft_ids n exclude = take (nat n) (shuffled (filter (\<lambda>i. i \<notin> exclude) raft_ids))"

lemma pick_n_servers_picks:
  assumes "\<And>xs. mset (shuffled xs) = mset xs" "distinct raft_ids" "0 \<le> n"
  shows "distinct (pick_n_servers shuffled raft_ids n exclude)"
    "set (pick_n_servers shuffled raft_ids n exclude) \<subseteq> set raft_ids - exclude"
    "int (length (pick_n_servers shuffled raft_ids n exclude)) = min n (int (card (set raft_ids - exclude)))"
proof -
  let ?xs = "filter (\<lambda>i. i \<notin> exclude) raft_ids"
  have d: "distinct (shuffled ?xs)" using assms(1) [of ?xs] assms(2) mset_eq_imp_distinct_iff by fastforce
  have s: "set (shuffled ?xs) = set raft_ids - exclude" using mset_eq_setD [OF assms(1) [of ?xs]] by auto
  have "length (shuffled ?xs) = card (set raft_ids - exclude)" using distinct_card [OF d] s by simp
  then show "distinct (pick_n_servers shuffled raft_ids n exclude)"
    "set (pick_n_servers shuffled raft_ids n exclude) \<subseteq> set raft_ids - exclude"
    "int (length (pick_n_servers shuffled raft_ids n exclude)) = min n (int (card (set raft_ids - exclude)))"
    using d s set_take_subset [of "nat n" "shuffled ?xs"] assms(3) by (auto simp: pick_n_servers_def min_def)
qed

section \<open>A harness that follows consistent streams\<close>

text \<open>The log kept for a server whose stream is \<open>rs\<close>.\<close>

definition log_of_stream :: "apply_result list \<Rightarrow> u64_t \<rightharpoonup> string" where
  "log_of_stream rs k = (if 1 \<le> k \<and> k \<le> int (length rs) then Some (ar_data (rs ! nat (k - 1))) else None)"

lemma log_of_stream_snoc:
  "log_of_stream (rs @ [m]) = (log_of_stream rs)(int (length rs) + 1 \<mapsto> ar_data m)"
proof (rule ext)
  fix k
  show "log_of_stream (rs @ [m]) k = ((log_of_stream rs)(int (length rs) + 1 \<mapsto> ar_data m)) k"
  proof (cases "1 \<le> k \<and> k \<le> int (length rs)")
    case True
    then have "nat (k - 1) < length rs" by auto
    with True show ?thesis by (auto simp: log_of_stream_def nth_append)
  qed (auto simp: log_of_stream_def)
qed

definition exact :: "(u64_t \<times> apply_result) list \<Rightarrow> harness \<Rightarrow> bool" where
  "exact evs h \<longleftrightarrow>
     \<not> hstop h \<and> \<not> hfailed h \<and> (\<forall>i. \<not> hstopped h i) \<and> (\<forall>i. happly_err h i = None) \<and>
     distinct (map fst (hlogs h)) \<and> (\<forall>i. log_of_server i h = log_of_stream (stream_of i evs)) \<and>
     (\<forall>i. stream_of i evs \<noteq> [] \<longrightarrow> i \<in> fst ` set (hlogs h))"

lemma check_logs_agree:
  assumes "\<And>j l. (j, l) \<in> set (hlogs h) \<Longrightarrow> l (ar_index m) = None \<or> l (ar_index m) = Some (ar_data m)"
  shows "fst (snd (check_logs i m h)) = None"
proof -
  have "fold (\<lambda>(j, l) e. case l k of Some v \<Rightarrow> if v \<noteq> d then Some (CommitMismatch j v) else e | None \<Rightarrow> e) ls None = None"
    if "\<And>j l. (j, l) \<in> set ls \<Longrightarrow> l k = None \<or> l k = Some d"
    for ls :: "(u64_t \<times> (u64_t \<rightharpoonup> string)) list" and k d
    using that by (induction ls) (fastforce split: option.splits prod.splits)+
  from this [of "hlogs h" "ar_index m" "ar_data m"] assms show ?thesis
    by (simp add: check_logs_def Let_def)
qed

lemma exact_step:
  assumes ex: "exact evs h" and num: "numbered (stream_of i evs @ [m])"
    and agree: "\<And>j. j \<noteq> i \<Longrightarrow> length (stream_of i evs) < length (stream_of j evs) \<Longrightarrow>
      stream_of j evs ! length (stream_of i evs) = m"
  shows "exact (evs @ [(i, m)]) (apply_handler i m h)"
proof -
  let ?rs = "stream_of i evs"
  have m: "ar_valid m" "ar_index m = int (length ?rs) + 1" "ar_index m < 2 ^ 64" using numbered_snoc [OF num] by auto
  have logs: "l = log_of_stream (stream_of j evs)" if "(j, l) \<in> set (hlogs h)" for j l
  proof -
    have "map_of (hlogs h) j = Some l" using that ex by (simp add: exact_def)
    then have "log_of_server j h = l" by (simp add: log_of_server_def)
    with ex show ?thesis by (simp add: exact_def)
  qed
  have idx: "nat (ar_index m - 1) = length ?rs" using m(2) by simp
  have "l (ar_index m) = None \<or> l (ar_index m) = Some (ar_data m)" if "(j, l) \<in> set (hlogs h)" for j l
    unfolding logs [OF that] log_of_stream_def idx using agree [of j] m(2) by (cases "j = i") auto
  then have err: "fst (snd (check_logs i m h)) = None" by (rule check_logs_agree)
  define h1 where "h1 = h\<lparr>hlogs := AList.update i ((log_of_server i h)(ar_index m \<mapsto> ar_data m)) (hlogs h),
      hmax_index := (if ar_index m > hmax_index h then ar_index m else hmax_index h)\<rparr>"
  obtain preok where c: "check_logs i m h = (h1, None, preok)"
    using err by (simp add: check_logs_def h1_def Let_def)
  have "preok" if "ar_index m > 1"
  proof -
    have u: "u64 (ar_index m - 1) = int (length ?rs)" using m(2,3) by (simp add: u64_id)
    have rs: "?rs \<noteq> []" using that m(2) by auto
    then obtain l where l: "map_of (hlogs h) i = Some l"
      using ex by (metis exact_def map_of_eq_None_iff not_Some_eq)
    then have "l = log_of_stream ?rs" using logs map_of_SomeD by fast
    with l u rs c show ?thesis by (auto simp: check_logs_def Let_def log_of_stream_def Suc_le_eq)
  qed
  then have handler: "apply_handler i m h = h1"
    using ex m(1) c by (auto simp: apply_handler_def Let_def exact_def)
  have "log_of_server j h1 = log_of_stream (stream_of j (evs @ [(i, m)]))" for j
    using ex m(2) by (simp add: h1_def exact_def stream_of_snoc log_of_stream_snoc)
  moreover have "distinct (map fst (hlogs h1))" using ex by (simp add: h1_def exact_def distinct_update)
  moreover have "j \<in> fst ` set (hlogs h1)" if "stream_of j (evs @ [(i, m)]) \<noteq> []" for j
    using that ex by (auto simp: h1_def exact_def stream_of_snoc dom_update split: if_splits)
  moreover have "\<not> hstop h1" "\<not> hfailed h1" "\<forall>i. \<not> hstopped h1 i" "\<forall>i. happly_err h1 i = None"
    using ex by (simp_all add: exact_def h1_def)
  ultimately show ?thesis unfolding handler exact_def by blast
qed

lemma prefix_nth: "prefix xs ys \<Longrightarrow> k < length xs \<Longrightarrow> xs ! k = ys ! k"
  by (auto simp: prefix_def nth_append)

lemma feed_exact:
  assumes "distinct ids" "\<And>i. numbered (stream_of i evs)"
    and "\<And>i j. prefix (stream_of i evs) (stream_of j evs) \<or> prefix (stream_of j evs) (stream_of i evs)"
  shows "exact evs (feed evs (harness_begin ids))"
  using assms(2,3)
proof (induction evs rule: rev_induct)
  case Nil
  have "log_of_server i (harness_begin ids) = Map.empty" for i
    by (induction ids) (auto simp: log_of_server_def harness_begin_def)
  moreover have "log_of_stream [] = Map.empty" by (auto simp: log_of_stream_def)
  ultimately show ?case
    using assms(1) by (simp add: exact_def feed_def harness_begin_def stream_of_def comp_def)
next
  case (snoc ev evs)
  obtain i m where ev: "ev = (i, m)" by fastforce
  let ?rs = "stream_of i evs"
  have i: "stream_of i (evs @ [ev]) = ?rs @ [m]" and other: "j \<noteq> i \<Longrightarrow> stream_of j (evs @ [ev]) = stream_of j evs" for j
    by (simp_all add: ev stream_of_snoc)
  have num: "numbered (?rs @ [m])" using snoc.prems(1) [of i] i by simp
  have num': "numbered (stream_of j evs)" for j
    using snoc.prems(1) [of j] numbered_snoc(1) [OF num] other [of j] by (cases "j = i") auto
  have cmp: "prefix (stream_of j evs) (?rs @ [m]) \<or> prefix (?rs @ [m]) (stream_of j evs)" if "j \<noteq> i" for j
    using snoc.prems(2) [of j i] i other [OF that] by simp
  have agree: "stream_of j evs ! length ?rs = m" if "j \<noteq> i" "length ?rs < length (stream_of j evs)" for j
    using cmp [OF that(1)] prefix_nth [of "stream_of j evs" "?rs @ [m]" "length ?rs"]
      prefix_nth [of "?rs @ [m]" "stream_of j evs" "length ?rs"] that(2) by auto
  have cmp': "prefix (stream_of j evs) (stream_of k evs) \<or> prefix (stream_of k evs) (stream_of j evs)" for j k
  proof -
    have one: "prefix (stream_of j evs) ?rs \<or> prefix ?rs (stream_of j evs)" if "j \<noteq> i" for j
      using cmp [OF that] by (metis prefix_order.trans prefix_snoc prefixI)
    show ?thesis
      using one [of j] one [of k] snoc.prems(2) [of j k] other [of j] other [of k] by (cases "j = i"; cases "k = i") auto
  qed
  have "exact evs (feed evs (harness_begin ids))" using snoc.IH num' cmp' by blast
  from exact_step [OF this num agree] show ?case by (simp add: ev feed_def)
qed

text \<open>What \<open>n_committed\<close> returns of consistent streams.\<close>

lemma n_committed_loop_exact:
  assumes "\<forall>i \<in> set ids. happly_err h i = None"
    and "\<forall>i \<in> set ids. log_of_server i h k = None \<or> log_of_server i h k = Some d"
    and "num = 0 \<or> data = d" "0 \<le> num" "num + int (length ids) < 2 ^ 64"
  shows "\<exists>data'. n_committed_loop ids k (num, data) h =
      (h, Some (num + int (length (filter (\<lambda>i. log_of_server i h k \<noteq> None) ids)), data')) \<and>
    (if filter (\<lambda>i. log_of_server i h k \<noteq> None) ids = [] then data' = data else data' = d)"
  using assms
proof (induction ids arbitrary: num data)
  case (Cons i ids)
  show ?case
  proof (cases "log_of_server i h k")
    case None
    with Cons show ?thesis by simp
  next
    case (Some x)
    then have x: "x = d" using Cons.prems(2) by auto
    have u: "u64 (num + 1) = num + 1" using Cons.prems(4,5) by (simp add: u64_id)
    have step: "n_committed_loop (i # ids) k (num, data) h = n_committed_loop ids k (num + 1, d) h"
      using Cons.prems(1,3) Some x u by auto
    obtain data' where "n_committed_loop ids k (num + 1, d) h =
        (h, Some (num + 1 + int (length (filter (\<lambda>i. log_of_server i h k \<noteq> None) ids)), data'))"
      "if filter (\<lambda>i. log_of_server i h k \<noteq> None) ids = [] then data' = d else data' = d"
      using Cons.IH [of "num + 1" d] Cons.prems by auto
    then show ?thesis unfolding step using Some by (auto split: if_splits)
  qed
qed simp

section \<open>The harness and a fenced cluster\<close>

lemma fenced_streams_agree:
  assumes "fenced cfgs c" "\<And>i. prefix (stream_of i evs) (ready_queue (nodes c i))"
    and "\<forall>ev \<in> set evs. fst ev \<in> set (members c)"
  shows "prefix (stream_of i evs) (stream_of j evs) \<or> prefix (stream_of j evs) (stream_of i evs)"
proof (cases "stream_of i evs = [] \<or> stream_of j evs = []")
  case False
  then have "i \<in> set (members c)" "j \<in> set (members c)"
    using assms(3) by (auto simp: stream_of_def filter_empty_conv)
  then show ?thesis
    using fenced_applied_agree [OF assms(1)] assms(2) [of i] assms(2) [of j] by (metis prefix_order.trans prefix_same_cases)
qed auto

text \<open>
  In a fenced execution whose servers stream prefixes of what their nodes have applied, the harness keeps an exact
  copy of every stream and never records an error.
\<close>

lemma harness_follows_fenced:
  assumes fenced: "fenced cfgs c" and ids: "distinct ids" and len: "int (length evs) < 2 ^ 63"
    and streams: "\<And>i. prefix (stream_of i evs) (ready_queue (nodes c i))"
    and members: "\<forall>ev \<in> set evs. fst ev \<in> set (members c)"
  shows "exact evs (feed evs (harness_begin ids))"
proof (rule feed_exact [OF ids])
  have r: "reachable cfgs c" by (rule tame_reachable [OF fenced_tame [OF fenced]])
  show "numbered (stream_of i evs)" for i
  proof (rule numbered_prefix [OF reachable_applied_in_order [OF r] _ streams])
    have "length (stream_of i evs) \<le> length evs" by (simp add: stream_of_def)
    with len show "int (length (stream_of i evs)) < 2 ^ 63" by linarith
  qed
qed (rule fenced_streams_agree [OF fenced streams members])

text \<open>
  In any execution, when every server streams a prefix of what its node has applied, an error the harness records
  is a mismatch of committed values: it never reports an application out of order.
\<close>

lemma order_check_passes:
  assumes "reachable cfgs c"
    and "\<And>i. prefix (stream_of i evs) (ready_queue (nodes c i))" "int (length evs) < 2 ^ 63"
    and "happly_err (feed evs (harness_begin ids)) i = Some e"
  shows "\<exists>j v. e = CommitMismatch j v"
proof -
  have "numbered (stream_of i evs)" for i
  proof (rule numbered_prefix [OF reachable_applied_in_order [OF assms(1)] _ assms(2)])
    have "length (stream_of i evs) \<le> length evs" by (simp add: stream_of_def)
    with assms(3) show "int (length (stream_of i evs)) < 2 ^ 63" by linarith
  qed
  then have "feed_ok evs (feed evs (harness_begin ids))" using feed_numbered by blast
  with assms(4) show ?thesis by (auto simp: feed_ok_def)
qed

text \<open>Counting the commits at an index then finds the servers whose stream is that long, and one value.\<close>

lemma exact_n_committed:
  assumes ex: "exact evs h" and k: "1 \<le> k" and len: "int (length raft_ids) < 2 ^ 64"
    and cmp: "\<And>i j. prefix (stream_of i evs) (stream_of j evs) \<or> prefix (stream_of j evs) (stream_of i evs)"
  shows "\<exists>d. n_committed raft_ids k h =
      (h, Some (int (length (filter (\<lambda>i. k \<le> int (length (stream_of i evs))) raft_ids)), d)) \<and>
    (\<forall>i \<in> set raft_ids. k \<le> int (length (stream_of i evs)) \<longrightarrow> ar_data (stream_of i evs ! nat (k - 1)) = d)"
proof -
  have logs: "log_of_server i h = log_of_stream (stream_of i evs)" for i using ex by (simp add: exact_def)
  have some: "log_of_server i h k \<noteq> None \<longleftrightarrow> k \<le> int (length (stream_of i evs))" for i
    using k by (simp add: logs log_of_stream_def)
  have same: "ar_data (stream_of i evs ! nat (k - 1)) = ar_data (stream_of j evs ! nat (k - 1))"
    if "k \<le> int (length (stream_of i evs))" "k \<le> int (length (stream_of j evs))" for i j
    using cmp [of i j] prefix_nth [of "stream_of i evs" "stream_of j evs" "nat (k - 1)"]
      prefix_nth [of "stream_of j evs" "stream_of i evs" "nat (k - 1)"] that k by auto
  obtain d where d: "\<And>i. k \<le> int (length (stream_of i evs)) \<Longrightarrow> ar_data (stream_of i evs ! nat (k - 1)) = d"
    using same by metis
  have vals: "\<forall>i \<in> set raft_ids. log_of_server i h k = None \<or> log_of_server i h k = Some d"
    using d k by (auto simp: logs log_of_stream_def)
  have errs: "\<forall>i \<in> set raft_ids. happly_err h i = None" using ex by (simp add: exact_def)
  obtain d' where d': "n_committed_loop raft_ids k (0, []) h =
      (h, Some (0 + int (length (filter (\<lambda>i. log_of_server i h k \<noteq> None) raft_ids)), d'))"
    "if filter (\<lambda>i. log_of_server i h k \<noteq> None) raft_ids = [] then d' = [] else d' = d"
    using n_committed_loop_exact [OF errs vals, of 0 "[]"] len by auto
  have "ar_data (stream_of i evs ! nat (k - 1)) = d'" if "i \<in> set raft_ids" "k \<le> int (length (stream_of i evs))" for i
  proof -
    have "i \<in> set (filter (\<lambda>i. log_of_server i h k \<noteq> None) raft_ids)" using that some by simp
    then have "filter (\<lambda>i. log_of_server i h k \<noteq> None) raft_ids \<noteq> []" by (metis empty_iff empty_set)
    with d'(2) d [OF that(2)] show ?thesis by simp
  qed
  with d'(1) show ?thesis unfolding n_committed_def some by auto
qed

end
