(* ===== verification/HarnessLoops.thy ===== *)
theory HarnessLoops
  imports HarnessChecks
begin

text \<open>
  The parts of \<^verbatim>\<open>inc/toolings/test_config.hpp\<close> that start, wait and end: the constructor and \<^verbatim>\<open>begin\<close>, the
  watchdog \<^verbatim>\<open>check_timeout\<close> with \<^verbatim>\<open>cleanup\<close>, and the loops \<^verbatim>\<open>check_one_leader\<close>, \<^verbatim>\<open>wait\<close> and \<^verbatim>\<open>one\<close>, which sleep and
  look again. The clock counts milliseconds. What the other threads, the nodes and the clock do meanwhile happens
  in the sleeps of these loops and while they wait for the answers of the nodes: \<open>sleep d m\<close>, an argument, is the
  moment at which a sleep of \<open>d\<close> that began at \<open>m\<close> is over, and \<open>calling\<close> says the same of calls, which have no
  deadline and may never return. A loop bounded by the clock is a \<open>partial_function\<close>: that it ends is a lemma
  about sleeps that take time.
\<close>

section \<open>Construction and begin\<close>

record test_config =
  tc_ids :: "u64_t list"
  tc_connected :: "(u64_t \<times> bool) list"
  tc_harness :: harness

text \<open>One configuration: the node joins the members, and the next tester port is its own.\<close>

definition harness_member ::
  "config \<Rightarrow> test_config \<times> (u64_t \<rightharpoonup> u64_t) \<times> u64_t \<Rightarrow> test_config \<times> (u64_t \<rightharpoonup> u64_t) \<times> u64_t" where
  "harness_member cfg = (\<lambda>(tc, node_tester_ports, tester_port).
     let i = cfg_id cfg; h = tc_harness tc
     in (tc\<lparr>tc_ids := insort_insert i (tc_ids tc), tc_connected := omap_put i True (tc_connected tc),
            tc_harness := h\<lparr>hlogs := AList.update i Map.empty (hlogs h), happly_err := (happly_err h)(i := None),
              hstopped := (hstopped h)(i := True)\<rparr>\<rparr>,
         node_tester_ports(i \<mapsto> tester_port), u64 (tester_port + 1)))"

text \<open>The members before the loop; \<open>junk\<close> is what \<^verbatim>\<open>max_index\<close>, \<^verbatim>\<open>stop\<close> and \<^verbatim>\<open>failed\<close> hold before they are set.\<close>

definition harness_blank :: "harness \<Rightarrow> test_config" where
  "harness_blank junk =
     \<lparr>tc_ids = [], tc_connected = [],
      tc_harness = junk\<lparr>hlogs := [], hstopped := (\<lambda>_. False), happly_err := Map.empty\<rparr>\<rparr>"

definition MultiprocTestConfig_new ::
  "(string \<Rightarrow> bool) \<Rightarrow> split_fn \<Rightarrow> config list \<Rightarrow> string \<Rightarrow> int \<Rightarrow> int \<Rightarrow> harness \<Rightarrow> spawn_event list \<Rightarrow>
   u64_t list \<Rightarrow> (test_config \<times> ctrl option ctrl_result)" where
  "MultiprocTestConfig_new listens split configs node_path fail_type verbosity junk evs order =
     (case fold harness_member configs (harness_blank junk, Map.empty, 55001) of
        (tc, node_tester_ports, tester_port) \<Rightarrow>
          (tc\<lparr>tc_harness := (tc_harness tc)\<lparr>hstop := False, hfailed := False\<rparr>\<rparr>,
           RaftTestCtrl_new listens split configs node_tester_ports node_path ''0.0.0.0:55000'' fail_type verbosity
             evs order))"

definition MultiprocTestConfig_begin ::
  "(u64_t \<Rightarrow> rpc_fate) \<Rightarrow> (u64_t \<Rightarrow> int) \<Rightarrow> ctrl \<Rightarrow> test_config \<times> system \<Rightarrow> test_config \<times> system \<times> unit ctrl_result" where
  "MultiprocTestConfig_begin fate timers c = (\<lambda>(tc, s).
     let h = (tc_harness tc)\<lparr>hmax_index := 0\<rparr>;
         h1 = fold (\<lambda>i h. h\<lparr>hstopped := (hstopped h)(i := False)\<rparr>) (tc_ids tc) h
     in (tc\<lparr>tc_harness := h1\<rparr>, ctrl_run fate timers [] c s))"

lemma begin_clears:
  "fold (\<lambda>i h. h\<lparr>hstopped := (hstopped h)(i := False)\<rparr>) is h =
     h\<lparr>hstopped := (\<lambda>i. i \<notin> set is \<and> hstopped h i)\<rparr>"
  by (induction "is" arbitrary: h) (auto simp: fun_eq_iff)

text \<open>What the loop of the constructor has built from the first configurations.\<close>

definition members_done :: "harness \<Rightarrow> config list \<Rightarrow> test_config \<times> (u64_t \<rightharpoonup> u64_t) \<times> u64_t \<Rightarrow> bool" where
  "members_done junk cfgs = (\<lambda>(tc, ports, port).
     tc_ids tc = sorted_list_of_set (cfg_id ` set cfgs) \<and>
     map_of (tc_connected tc) = (\<lambda>i. if i \<in> cfg_id ` set cfgs then Some True else None) \<and>
     tc_harness tc = junk\<lparr>hlogs := map (\<lambda>cfg. (cfg_id cfg, Map.empty)) cfgs,
       hstopped := (\<lambda>i. i \<in> cfg_id ` set cfgs), happly_err := Map.empty\<rparr> \<and>
     port = 55001 + int (length cfgs) \<and>
     (\<forall>k < length cfgs. ports (cfg_id (cfgs ! k)) = Some (55001 + int k)))"

lemma update_new: "k \<notin> fst ` set al \<Longrightarrow> AList.update k v al = al @ [(k, v)]"
  by (induction al) auto

lemma members_fold:
  assumes "distinct (map cfg_id cfgs)" "int (length cfgs) < 2 ^ 63"
  shows "members_done junk cfgs (fold harness_member cfgs (harness_blank junk, Map.empty, 55001))"
  using assms
proof (induction cfgs rule: rev_induct)
  case Nil
  then show ?case by (simp add: members_done_def harness_blank_def)
next
  case (snoc cfg cfgs)
  let ?i = "cfg_id cfg"
  obtain tc ports port where r: "fold harness_member cfgs (harness_blank junk, Map.empty, 55001) = (tc, ports, port)"
    by (metis prod_cases3)
  have new: "?i \<notin> cfg_id ` set cfgs" and d: "distinct (map cfg_id cfgs)" using snoc.prems(1) by auto
  have "members_done junk cfgs (tc, ports, port)" using snoc.IH [OF d] snoc.prems(2) r by simp
  then have ids: "tc_ids tc = sorted_list_of_set (cfg_id ` set cfgs)"
    and con: "map_of (tc_connected tc) = (\<lambda>i. if i \<in> cfg_id ` set cfgs then Some True else None)"
    and h: "tc_harness tc = junk\<lparr>hlogs := map (\<lambda>cfg. (cfg_id cfg, Map.empty)) cfgs,
       hstopped := (\<lambda>i. i \<in> cfg_id ` set cfgs), happly_err := Map.empty\<rparr>"
    and port: "port = 55001 + int (length cfgs)"
    and ports: "\<And>k. k < length cfgs \<Longrightarrow> ports (cfg_id (cfgs ! k)) = Some (55001 + int k)"
    by (auto simp: members_done_def)
  have "insort_insert ?i (tc_ids tc) = sorted_list_of_set (insert ?i (cfg_id ` set cfgs))"
    using new by (simp add: ids insort_insert_insort)
  moreover have "AList.update ?i Map.empty (hlogs (tc_harness tc)) = map (\<lambda>cfg. (cfg_id cfg, Map.empty)) (cfgs @ [cfg])"
    using new by (simp add: h update_new image_image)
  moreover have "map_of (omap_put ?i True (tc_connected tc)) =
      (\<lambda>i. if i \<in> cfg_id ` set (cfgs @ [cfg]) then Some True else None)"
    by (auto simp: map_of_omap_put con)
  moreover have "u64 (port + 1) = 55001 + int (length (cfgs @ [cfg]))"
    using snoc.prems(2) by (simp add: port u64_id)
  moreover have "(ports(?i \<mapsto> port)) (cfg_id ((cfgs @ [cfg]) ! k)) = Some (55001 + int k)"
    if "k < length (cfgs @ [cfg])" for k
  proof (cases "k < length cfgs")
    case True
    then have "cfg_id (cfgs ! k) \<noteq> ?i" using new by (metis imageI nth_mem)
    with True ports [OF True] show ?thesis by (simp add: nth_append)
  next
    case False
    with that have "k = length cfgs" by simp
    then show ?thesis by (simp add: port)
  qed
  ultimately have "members_done junk (cfgs @ [cfg]) (harness_member cfg (tc, ports, port))"
    by (simp add: harness_member_def Let_def members_done_def h fun_eq_iff)
  then show ?case by (simp add: r)
qed

text \<open>
  For configurations with different ids: the members are their ids in order, all connected, the tester ports are
  counted up from 55001, and after \<^verbatim>\<open>begin\<close> the harness is \<open>harness_begin\<close>.
\<close>

lemma harness_constructed:
  assumes "distinct (map cfg_id cfgs)" "int (length cfgs) < 2 ^ 63"
    and "MultiprocTestConfig_new listens split cfgs path ft v junk evs order = (tc, started)"
  shows "tc_ids tc = sorted_list_of_set (cfg_id ` set cfgs)"
    "map_of (tc_connected tc) = (\<lambda>i. if i \<in> cfg_id ` set cfgs then Some True else None)"
    "tc_harness (fst (MultiprocTestConfig_begin fate timers c (tc, s))) = harness_begin (map cfg_id cfgs)"
    "\<exists>ports. started = RaftTestCtrl_new listens split cfgs ports path ''0.0.0.0:55000'' ft v evs order \<and>
      (\<forall>k < length cfgs. ports (cfg_id (cfgs ! k)) = Some (55001 + int k))"
proof -
  obtain tc0 ports port where r: "fold harness_member cfgs (harness_blank junk, Map.empty, 55001) = (tc0, ports, port)"
    by (metis prod_cases3)
  have m: "members_done junk cfgs (tc0, ports, port)" using members_fold [OF assms(1,2), of junk] r by simp
  have tc: "tc = tc0\<lparr>tc_harness := (tc_harness tc0)\<lparr>hstop := False, hfailed := False\<rparr>\<rparr>"
    and st: "started = RaftTestCtrl_new listens split cfgs ports path ''0.0.0.0:55000'' ft v evs order"
    using assms(3) by (simp_all add: MultiprocTestConfig_new_def r)
  show "tc_ids tc = sorted_list_of_set (cfg_id ` set cfgs)"
    "map_of (tc_connected tc) = (\<lambda>i. if i \<in> cfg_id ` set cfgs then Some True else None)"
    using m by (simp_all add: tc members_done_def)
  show "tc_harness (fst (MultiprocTestConfig_begin fate timers c (tc, s))) = harness_begin (map cfg_id cfgs)"
    using m by (simp add: MultiprocTestConfig_begin_def begin_clears tc members_done_def harness_begin_def comp_def)
  show "\<exists>ports. started = RaftTestCtrl_new listens split cfgs ports path ''0.0.0.0:55000'' ft v evs order \<and>
      (\<forall>k < length cfgs. ports (cfg_id (cfgs ! k)) = Some (55001 + int k))"
    using m st by (auto simp: members_done_def)
qed

section \<open>Moments and sleeping\<close>

record moment =
  m_now :: int
  m_harness :: harness
  m_system :: system

type_synonym sleeper = "int \<Rightarrow> moment \<Rightarrow> moment"

text \<open>
  Calls to the nodes, without a deadline, and \<^verbatim>\<open>get\<close> on the future of each. \<open>calling m\<close>: the moment at which a wait that
  began at \<open>m\<close> is over, first until the nodes have the requests, then until the last answer is back; \<open>None\<close>: it is
  never over.
\<close>

type_synonym waiter = "moment \<Rightarrow> moment option"

definition during :: "waiter \<Rightarrow> (moment \<Rightarrow> system \<times> 'r ctrl_result) \<Rightarrow> moment \<Rightarrow> (moment \<times> 'r ctrl_result) option" where
  "during calling call m =
     (case calling m of
        None \<Rightarrow> None
      | Some m1 \<Rightarrow> (case call m1 of (s, r) \<Rightarrow> map_option (\<lambda>m2. (m2, r)) (calling (m1\<lparr>m_system := s\<rparr>))))"

definition aborted :: "moment \<Rightarrow> bool" where
  "aborted m \<longleftrightarrow> hstop (m_harness m) \<or> hfailed (m_harness m)"

text \<open>\<^verbatim>\<open>stop\<close> and \<^verbatim>\<open>failed\<close> are set before the exception is thrown.\<close>

definition give_up :: "moment \<Rightarrow> moment" where
  "give_up m = m\<lparr>m_harness := (m_harness m)\<lparr>hstop := True, hfailed := True\<rparr>\<rparr>"

definition count_committed :: "u64_t list \<Rightarrow> u64_t \<Rightarrow> moment \<Rightarrow> moment \<times> (u64_t \<times> string) option" where
  "count_committed raft_ids index m =
     (case n_committed raft_ids index (m_harness m) of (h, r) \<Rightarrow> (m\<lparr>m_harness := h\<rparr>, r))"

text \<open>A sleep takes at least its time; or at most \<open>slack\<close> more than its time.\<close>

definition takes_time :: "sleeper \<Rightarrow> bool" where
  "takes_time sleep \<longleftrightarrow> (\<forall>d m. m_now m + d \<le> m_now (sleep d m))"

definition punctual :: "int \<Rightarrow> sleeper \<Rightarrow> bool" where
  "punctual slack sleep \<longleftrightarrow> (\<forall>d m. m_now (sleep d m) \<le> m_now m + d + slack)"

text \<open>A call does not go back in time; it takes at most \<open>delay\<close> to ask and at most \<open>delay\<close> to answer; it returns.\<close>

definition no_sooner :: "waiter \<Rightarrow> bool" where
  "no_sooner calling \<longleftrightarrow> (\<forall>m m1. calling m = Some m1 \<longrightarrow> m_now m \<le> m_now m1)"

definition takes_at_most :: "int \<Rightarrow> waiter \<Rightarrow> bool" where
  "takes_at_most delay calling \<longleftrightarrow> (\<forall>m m1. calling m = Some m1 \<longrightarrow> m_now m1 \<le> m_now m + delay)"

definition answered :: "waiter \<Rightarrow> bool" where
  "answered calling \<longleftrightarrow> (\<forall>m. calling m \<noteq> None)"

lemma during_time:
  assumes "during calling call m = Some (m1, r)"
  shows "no_sooner calling \<Longrightarrow> m_now m \<le> m_now m1" "takes_at_most delay calling \<Longrightarrow> m_now m1 \<le> m_now m + 2 * delay"
proof -
  obtain m2 s where m2: "calling m = Some m2" "calling (m2\<lparr>m_system := s\<rparr>) = Some m1"
    using assms by (auto simp: during_def split: option.splits prod.splits)
  have now: "m_now (m2\<lparr>m_system := s\<rparr>) = m_now m2" by simp
  show "no_sooner calling \<Longrightarrow> m_now m \<le> m_now m1"
    using m2 now unfolding no_sooner_def by (metis order_trans)
  assume w: "takes_at_most delay calling"
  have "m_now m2 \<le> m_now m + delay" "m_now m1 \<le> m_now m2 + delay"
    using w m2 now unfolding takes_at_most_def by metis+
  then show "m_now m1 \<le> m_now m + 2 * delay" by linarith
qed

lemma during_answered: "answered calling \<Longrightarrow> during calling call m \<noteq> None"
  by (auto simp: during_def answered_def split: option.split prod.split)

lemma n_committed_loop_keeps:
  "n_committed_loop ids i acc h = (h1, r) \<Longrightarrow>
     h1 = (case r of Some _ \<Rightarrow> h | None \<Rightarrow> h\<lparr>hstop := True, hfailed := True\<rparr>)"
  by (induction ids i acc h rule: n_committed_loop.induct) (auto split: if_splits option.splits)

lemma count_committed_keeps:
  "count_committed ids i m = (m1, Some r) \<Longrightarrow> m1 = m"
  "count_committed ids i m = (m1, None) \<Longrightarrow> m1 = give_up m"
  by (auto simp: count_committed_def give_up_def n_committed_def split: prod.splits dest!: n_committed_loop_keeps)

lemma count_committed_now: "count_committed ids i m = (m1, r) \<Longrightarrow> m_now m1 = m_now m"
  by (auto simp: count_committed_def split: prod.splits)

lemma count_committed_eq:
  "count_committed ids i m = (m, r) \<longleftrightarrow> n_committed ids i (m_harness m) = (m_harness m, r)"
  by (cases m) (auto simp: count_committed_def split: prod.splits)

section \<open>Waiting for a commit\<close>

text \<open>
  \<open>Threw\<close>: an exception leaves the operation; \<open>Undefined\<close>: its behaviour is undefined; \<open>Stuck\<close>: it waits for an
  answer that never comes.
\<close>

datatype 'a verdict = Got 'a | Threw | Undefined | Stuck

text \<open>
  The loop of \<^verbatim>\<open>wait\<close> with the iterations left and the time of the next sleep: \<open>Got False\<close> when a later term has
  been seen, \<open>Got True\<close> when the loop is left to look once more.
\<close>

definition later_term :: "u64_t option \<Rightarrow> tester_state list \<Rightarrow> bool" where
  "later_term start_term states =
     (case start_term of None \<Rightarrow> False | Some t \<Rightarrow> list_ex (\<lambda>state. ts_term state > t) states)"

fun wait_loop ::
  "sleeper \<Rightarrow> waiter \<Rightarrow> (moment \<Rightarrow> u64_t \<Rightarrow> rpc_fate) \<Rightarrow> (moment \<Rightarrow> state_reads) \<Rightarrow> ctrl \<Rightarrow> u64_t list \<Rightarrow> u64_t \<Rightarrow>
   u64_t \<Rightarrow> u64_t option \<Rightarrow> nat \<Rightarrow> int \<Rightarrow> moment \<Rightarrow> moment \<times> bool verdict" where
  "wait_loop sleep calling fate reads c raft_ids index n start_term 0 to m = (m, Got True)"
| "wait_loop sleep calling fate reads c raft_ids index n start_term (Suc iters) to m =
     (case count_committed raft_ids index m of
        (m1, None) \<Rightarrow> (m1, Threw)
      | (m1, Some (num, data)) \<Rightarrow>
          if num \<ge> n then (m1, Got True)
          else
            let m2 = sleep to m1
            in if aborted m2 then (m2, Threw)
               else
                 (case (if start_term = None then Some (m2, Done [])
                        else during calling (\<lambda>m3. get_all_states (fate m3) (reads m3) [] c (m_system m3)) m2) of
                    None \<Rightarrow> (m2, Stuck)
                  | Some (m4, Done states) \<Rightarrow>
                      if later_term start_term states then (m4, Got False)
                      else wait_loop sleep calling fate reads c raft_ids index n start_term iters
                             (if to < 1000 then to * 2 else to) m4
                  | Some (m4, _) \<Rightarrow> (m4, Threw)))"

definition wait ::
  "sleeper \<Rightarrow> waiter \<Rightarrow> (moment \<Rightarrow> u64_t \<Rightarrow> rpc_fate) \<Rightarrow> (moment \<Rightarrow> state_reads) \<Rightarrow> ctrl \<Rightarrow> u64_t list \<Rightarrow> u64_t \<Rightarrow>
   u64_t \<Rightarrow> u64_t option \<Rightarrow> moment \<Rightarrow> moment \<times> string option verdict" where
  "wait sleep calling fate reads c raft_ids index n start_term m =
     (case wait_loop sleep calling fate reads c raft_ids index n start_term 30 10 m of
        (m1, Got True) \<Rightarrow>
          (case count_committed raft_ids index m1 of
             (m2, None) \<Rightarrow> (m2, Threw)
           | (m2, Some (num, data)) \<Rightarrow>
               if num < n then (give_up m2, Threw) else (m2, Got (Some data)))
      | (m1, Got False) \<Rightarrow> (m1, Got None)
      | (m1, Threw) \<Rightarrow> (m1, Threw)
      | (m1, Undefined) \<Rightarrow> (m1, Undefined)
      | (m1, Stuck) \<Rightarrow> (m1, Stuck))"

text \<open>A command that \<^verbatim>\<open>wait\<close> returns has been counted at \<open>n\<close> servers or more.\<close>

lemma wait_sound:
  assumes "wait sleep calling fate reads c raft_ids index n start_term m = (m1, Got (Some data))"
  obtains num where "count_committed raft_ids index m1 = (m1, Some (num, data))" "n \<le> num"
proof -
  obtain m2 num where m2: "count_committed raft_ids index m2 = (m1, Some (num, data))" "n \<le> num"
    using assms by (auto simp: wait_def split: prod.splits verdict.splits bool.splits option.splits if_splits)
  with count_committed_keeps(1) [OF m2(1)] that show thesis by simp
qed

text \<open>It does not sleep when enough servers have the entry already.\<close>

lemma wait_at_once:
  assumes "count_committed raft_ids index m = (m, Some (num, data))" "n \<le> num"
  shows "wait sleep calling fate reads c raft_ids index n start_term m = (m, Got (Some data))"
proof -
  have "wait_loop sleep calling fate reads c raft_ids index n start_term (Suc k) 10 m = (m, Got True)" for k
    using assms by simp
  from this [of 29] assms show ?thesis by (simp add: wait_def)
qed

fun wait_delays :: "nat \<Rightarrow> int \<Rightarrow> int list" where
  "wait_delays 0 to = []"
| "wait_delays (Suc iters) to = to # wait_delays iters (if to < 1000 then to * 2 else to)"

lemma wait_loop_time:
  assumes sl: "punctual slack sleep" "0 \<le> slack" and ca: "takes_at_most delay calling" "0 \<le> delay" and "0 \<le> to"
    and "wait_loop sleep calling fate reads c raft_ids index n start_term iters to m = (m1, r)"
  shows "m_now m1 \<le> m_now m + sum_list (wait_delays iters to) + int iters * (slack + 2 * delay)"
  using assms(5,6)
proof (induction iters arbitrary: to m)
  case (Suc iters)
  define to' where "to' = (if to < 1000 then to * 2 else to)"
  have to': "0 \<le> to'" using Suc.prems(1) by (simp add: to'_def)
  define rest where "rest = sum_list (wait_delays iters to') + int iters * (slack + 2 * delay)"
  have nn: "0 \<le> sum_list (wait_delays k t)" if "0 \<le> t" for k t
    using that by (induction k t rule: wait_delays.induct) auto
  have nonneg: "0 \<le> rest" unfolding rest_def using nn [OF to', of iters] sl(2) ca(2) by simp
  obtain m2 q where q: "count_committed raft_ids index m = (m2, q)" by fastforce
  note t2 = count_committed_now [OF q]
  define m3 where "m3 = sleep to m2"
  have t3: "m_now m3 \<le> m_now m + to + slack" using sl(1) t2 unfolding m3_def by (metis punctual_def)
  define asked where "asked = (if start_term = None then Some (m3, Done [])
    else during calling (\<lambda>m3. get_all_states (fate m3) (reads m3) [] c (m_system m3)) m3)"
  have ask: "m_now m4 \<le> m_now m3 + 2 * delay" if "asked = Some (m4, res)" for m4 res
    using that ca during_time(2) [OF _ ca(1)] by (auto simp: asked_def split: if_splits)
  have IH: "m_now m1 \<le> m_now m4 + rest"
    if "wait_loop sleep calling fate reads c raft_ids index n start_term iters to' m4 = (m1, r)" for m4
    using Suc.IH [OF to' that] by (simp add: rest_def)
  have run: "(case q of None \<Rightarrow> (m2, Threw)
      | Some (num, data) \<Rightarrow> if num \<ge> n then (m2, Got True) else if aborted m3 then (m3, Threw)
          else (case asked of None \<Rightarrow> (m3, Stuck)
            | Some (m4, Done states) \<Rightarrow> if later_term start_term states then (m4, Got False)
                else wait_loop sleep calling fate reads c raft_ids index n start_term iters to' m4
            | Some (m4, _) \<Rightarrow> (m4, Threw))) = (m1, r)"
    using Suc.prems(2) unfolding wait_loop.simps q prod.case Let_def asked_def m3_def to'_def .
  have "m_now m1 \<le> m_now m3 + 2 * delay + rest \<or> m_now m1 = m_now m"
  proof (cases "m1 = m2 \<or> m1 = m3")
    case True
    then show ?thesis using t2 nonneg ca(2) by auto
  next
    case False
    then obtain m4 res where "asked = Some (m4, res)"
      using run by (auto split: option.splits prod.splits if_splits)
    moreover from this False run have "m1 = m4 \<or> wait_loop sleep calling fate reads c raft_ids index n start_term iters to' m4 = (m1, r)"
      by (auto split: option.splits prod.splits if_splits ctrl_result.splits)
    ultimately show ?thesis using ask [of m4 res] IH [of m4] nonneg by auto
  qed
  moreover have "m_now m + sum_list (wait_delays (Suc iters) to) + int (Suc iters) * (slack + 2 * delay) =
      m_now m + to + slack + 2 * delay + rest"
    by (simp add: rest_def algebra_simps flip: to'_def)
  ultimately show ?case using t3 nonneg Suc.prems(1) sl(2) ca(2) by linarith
qed simp

text \<open>
  \<^verbatim>\<open>wait\<close> sleeps for at most 30.71 seconds, plus what its 30 sleeps take too long and its questions to the nodes
  take.
\<close>

lemma wait_in_time:
  assumes "punctual slack sleep" "0 \<le> slack" "takes_at_most delay calling" "0 \<le> delay"
    and "wait sleep calling fate reads c raft_ids index n start_term m = (m1, r)"
  shows "m_now m1 \<le> m_now m + 30710 + 30 * (slack + 2 * delay)"
proof -
  obtain m2 v where l: "wait_loop sleep calling fate reads c raft_ids index n start_term 30 10 m = (m2, v)" by fastforce
  have "sum_list (wait_delays 30 10) = 30710" by (simp add: numeral_eq_Suc)
  with wait_loop_time [OF assms(1-4) _ l] have t: "m_now m2 \<le> m_now m + 30710 + 30 * (slack + 2 * delay)" by simp
  have "m_now m1 = m_now m2"
    using assms(5) by (auto simp: wait_def l give_up_def dest: count_committed_now
        split: verdict.splits bool.splits prod.splits option.splits if_splits)
  with t show ?thesis by simp
qed

section \<open>Agreeing on one command\<close>

text \<open>
  The inner loop of \<^verbatim>\<open>one\<close>: \<open>Some True\<close> when enough servers have applied the command at its index,
  \<open>Some False\<close> when five seconds are over, \<open>None\<close> when \<^verbatim>\<open>n_committed\<close> has thrown.
\<close>

partial_function (option) one_poll ::
  "sleeper \<Rightarrow> u64_t list \<Rightarrow> string \<Rightarrow> u64_t \<Rightarrow> u64_t \<Rightarrow> int \<Rightarrow> moment \<Rightarrow> (moment \<times> bool option) option" where
  "one_poll sleep raft_ids data expected_servers index t1 m =
     (if m_now m - t1 < 5000 then
        (case count_committed raft_ids index m of
           (m1, None) \<Rightarrow> Some (m1, None)
         | (m1, Some (num, d)) \<Rightarrow>
             if num > 0 \<and> num \<ge> expected_servers \<and> d = data then Some (m1, Some True)
             else one_poll sleep raft_ids data expected_servers index t1 (sleep 50 m1))
      else Some (m, Some False))"

text \<open>The index of the first node that claims to lead; the index of such a response is set.\<close>

definition claimed_index :: "tester_proposal list \<Rightarrow> u64_t option" where
  "claimed_index rs = (case find tp_is_leader rs of Some r \<Rightarrow> tp_index r | None \<Rightarrow> None)"

text \<open>One round of the outer loop: \<open>Inl\<close> ends \<^verbatim>\<open>one\<close>, \<open>Inr\<close> goes on.\<close>

definition one_round ::
  "sleeper \<Rightarrow> waiter \<Rightarrow> (moment \<Rightarrow> u64_t \<Rightarrow> rpc_fate) \<Rightarrow> ctrl \<Rightarrow> u64_t list \<Rightarrow> (u64_t \<times> bool) list \<Rightarrow>
   string \<Rightarrow> u64_t \<Rightarrow> bool \<Rightarrow> moment \<Rightarrow> ((moment \<times> u64_t option verdict) + moment) option" where
  "one_round sleep calling fate c raft_ids connected data expected_servers retry m =
     (case during calling (\<lambda>m0. propose_to_all (fate m0) data connected c (m_system m0)) m of
        None \<Rightarrow> Some (Inl (m, Stuck))
      | Some (m1, Done rs) \<Rightarrow>
          let go_on = (\<lambda>m2. if aborted m2 then Inl (m2, Threw) else Inr m2)
          in (case claimed_index rs of
                Some index \<Rightarrow>
                  map_option (\<lambda>(m2, agreed). case agreed of
                      None \<Rightarrow> Inl (m2, Threw)
                    | Some True \<Rightarrow> Inl (m2, Got (Some index))
                    | Some False \<Rightarrow> if \<not> retry then Inl (give_up m2, Threw) else go_on m2)
                    (one_poll sleep raft_ids data expected_servers index (m_now m1) m1)
              | None \<Rightarrow> Some (go_on (sleep 100 m1)))
      | Some (m1, _) \<Rightarrow> Some (Inl (m1, Threw)))"

partial_function (option) one_loop ::
  "(moment \<Rightarrow> ((moment \<times> u64_t option verdict) + moment) option) \<Rightarrow> int \<Rightarrow> moment \<Rightarrow>
   (moment \<times> u64_t option verdict) option" where
  "one_loop round t0 m =
     (if m_now m - t0 < 25000 then
        Option.bind (round m) (\<lambda>step. case step of Inl done_ \<Rightarrow> Some done_ | Inr m1 \<Rightarrow> one_loop round t0 m1)
      else Some (give_up m, Threw))"

definition one ::
  "sleeper \<Rightarrow> waiter \<Rightarrow> (moment \<Rightarrow> u64_t \<Rightarrow> rpc_fate) \<Rightarrow> ctrl \<Rightarrow> u64_t list \<Rightarrow> (u64_t \<times> bool) list \<Rightarrow>
   string \<Rightarrow> u64_t \<Rightarrow> bool \<Rightarrow> moment \<Rightarrow> (moment \<times> u64_t option verdict) option" where
  "one sleep calling fate c raft_ids connected data expected_servers retry m =
     one_loop (one_round sleep calling fate c raft_ids connected data expected_servers retry) (m_now m) m"

text \<open>
  The inner loop returns, not earlier than it began and within 5.05 seconds; when it says that the command is
  agreed on, \<^verbatim>\<open>n_committed\<close> counts it at enough servers.
\<close>

lemma one_poll_result:
  assumes "takes_time sleep"
  shows "\<exists>m1 r. one_poll sleep raft_ids data k index t1 m = Some (m1, r) \<and> m_now m \<le> m_now m1 \<and>
    (punctual slack sleep \<and> 0 \<le> slack \<and> m_now m < t1 + 5050 + slack \<longrightarrow> m_now m1 < t1 + 5050 + slack) \<and>
    (r = Some True \<longrightarrow> (\<exists>num. count_committed raft_ids index m1 = (m1, Some (num, data)) \<and> 0 < num \<and> k \<le> num)) \<and>
    (r = Some False \<longrightarrow> t1 + 5000 \<le> m_now m1)"
proof (induction "nat (t1 + 5000 - m_now m)" arbitrary: m rule: less_induct)
  case less
  show ?case
  proof (cases "m_now m - t1 < 5000")
    case True
    obtain m1 q where q: "count_committed raft_ids index m = (m1, q)" by fastforce
    note now = count_committed_now [OF q]
    have late: "m_now m + 50 \<le> m_now (sleep 50 m1)" using assms now by (metis takes_time_def)
    have soon: "punctual slack sleep \<Longrightarrow> m_now (sleep 50 m1) \<le> m_now m + 50 + slack" using now by (metis punctual_def)
    show ?thesis
    proof (cases "\<exists>num d. q = Some (num, d) \<and> \<not> (num > 0 \<and> num \<ge> k \<and> d = data)")
      case go: True
      from True late have "nat (t1 + 5000 - m_now (sleep 50 m1)) < nat (t1 + 5000 - m_now m)" by linarith
      moreover have "one_poll sleep raft_ids data k index t1 m = one_poll sleep raft_ids data k index t1 (sleep 50 m1)"
        using go True by (subst one_poll.simps) (auto simp: q)
      moreover have "punctual slack sleep \<Longrightarrow> m_now (sleep 50 m1) < t1 + 5050 + slack" using soon True by simp
      ultimately show ?thesis using less late by fastforce
    next
      case False
      then have "one_poll sleep raft_ids data k index t1 m =
          Some (m1, if q = None then None else Some True)"
        using True by (subst one_poll.simps) (auto simp: q split: option.split prod.split)
      moreover have "q \<noteq> None \<Longrightarrow> m1 = m" using count_committed_keeps(1) q by (metis option.exhaust)
      ultimately show ?thesis using False now q True by (auto split: if_splits)
    qed
  qed (subst one_poll.simps, simp)
qed

text \<open>
  A round takes some time, unless it ends \<^verbatim>\<open>one\<close>, and at most 5.05 seconds and the time of its calls; it ends \<^verbatim>\<open>one\<close>
  with an index only when the command has been counted there, and it is stuck only when a call is.
\<close>

definition round_result ::
  "u64_t list \<Rightarrow> string \<Rightarrow> u64_t \<Rightarrow> bool \<Rightarrow> (moment \<times> u64_t option verdict) + moment \<Rightarrow> bool" where
  "round_result raft_ids data k prompt step \<longleftrightarrow>
     (\<forall>m1 r. step = Inl (m1, Got r) \<longrightarrow> (\<exists>index num. r = Some index \<and>
        count_committed raft_ids index m1 = (m1, Some (num, data)) \<and> 0 < num \<and> k \<le> num)) \<and>
     (\<forall>m1. step = Inl (m1, Stuck) \<longrightarrow> \<not> prompt)"

definition step_moment :: "(moment \<times> 'v) + moment \<Rightarrow> moment" where
  "step_moment step = (case step of Inl (m1, v) \<Rightarrow> m1 | Inr m1 \<Rightarrow> m1)"

definition in_time :: "int \<Rightarrow> int \<Rightarrow> sleeper \<Rightarrow> waiter \<Rightarrow> bool" where
  "in_time slack delay sleep calling \<longleftrightarrow> punctual slack sleep \<and> 0 \<le> slack \<and> takes_at_most delay calling \<and> 0 \<le> delay"

lemma give_up_now [simp]: "m_now (give_up m) = m_now m"
  by (simp add: give_up_def)

lemma one_round_result:
  assumes time: "takes_time sleep" and calls: "no_sooner calling"
  shows "\<exists>step. one_round sleep calling fate c raft_ids connected data k retry m = Some step \<and>
    round_result raft_ids data k (answered calling) step \<and> (\<forall>m1. step = Inr m1 \<longrightarrow> m_now m < m_now m1) \<and>
    (in_time slack delay sleep calling \<longrightarrow> m_now (step_moment step) < m_now m + 5050 + slack + 2 * delay)"
proof (cases "during calling (\<lambda>m0. propose_to_all (fate m0) data connected c (m_system m0)) m")
  case None
  then have "\<not> answered calling" using during_answered by blast
  with None show ?thesis by (auto simp: one_round_def round_result_def step_moment_def in_time_def)
next
  case (Some asked)
  obtain m1 res where p: "during calling (\<lambda>m0. propose_to_all (fate m0) data connected c (m_system m0)) m = Some (m1, res)"
    using Some by (cases asked) simp
  have now: "m_now m \<le> m_now m1" using during_time(1) [OF p calls] .
  have quick: "in_time slack delay sleep calling \<Longrightarrow> m_now m1 \<le> m_now m + 2 * delay"
    using during_time(2) [OF p] by (simp add: in_time_def)
  show ?thesis
  proof (cases res)
    case (Done rs)
    show ?thesis
    proof (cases "claimed_index rs")
      case None
      define m2 where "m2 = sleep 100 m1"
      have "m_now m1 + 100 \<le> m_now m2" using time unfolding m2_def by (metis takes_time_def)
      moreover have "in_time slack delay sleep calling \<Longrightarrow> m_now m2 \<le> m_now m1 + 100 + slack"
        unfolding m2_def in_time_def by (metis punctual_def)
      moreover have "one_round sleep calling fate c raft_ids connected data k retry m =
          Some (if aborted m2 then Inl (m2, Threw) else Inr m2)"
        by (simp add: one_round_def p Done None Let_def flip: m2_def)
      ultimately show ?thesis using now quick by (fastforce simp: round_result_def step_moment_def)
    next
      case (Some index)
      obtain m2 r where poll: "one_poll sleep raft_ids data k index (m_now m1) m1 = Some (m2, r)"
          "m_now m1 \<le> m_now m2"
          "punctual slack sleep \<and> 0 \<le> slack \<and> m_now m1 < m_now m1 + 5050 + slack \<longrightarrow> m_now m2 < m_now m1 + 5050 + slack"
          "r = Some True \<longrightarrow> (\<exists>num. count_committed raft_ids index m2 = (m2, Some (num, data)) \<and> 0 < num \<and> k \<le> num)"
          "r = Some False \<longrightarrow> m_now m1 + 5000 \<le> m_now m2"
        using one_poll_result [OF time, of raft_ids data k index "m_now m1" m1 slack] by blast
      have soon: "in_time slack delay sleep calling \<Longrightarrow> m_now m2 < m_now m + 5050 + slack + 2 * delay"
        using poll(3) quick by (auto simp: in_time_def)
      have "one_round sleep calling fate c raft_ids connected data k retry m =
          Some (case r of None \<Rightarrow> Inl (m2, Threw) | Some True \<Rightarrow> Inl (m2, Got (Some index))
            | Some False \<Rightarrow> if \<not> retry then Inl (give_up m2, Threw)
                else if aborted m2 then Inl (m2, Threw) else Inr m2)"
        using poll(1) by (simp add: one_round_def p Done Some Let_def)
      then show ?thesis using poll(4,5) now soon
        by (cases r; auto simp: round_result_def step_moment_def split: bool.splits)
    qed
  qed (use quick in \<open>auto simp: one_round_def p round_result_def step_moment_def in_time_def\<close>)
qed

text \<open>The outer loop, for any rounds with these properties.\<close>

lemma one_loop_result:
  assumes good: "\<And>m. \<exists>step. round m = Some step \<and> round_result raft_ids data k prompt step \<and>
      (\<forall>m1. step = Inr m1 \<longrightarrow> m_now m < m_now m1) \<and>
      (soon \<longrightarrow> m_now (step_moment step) < m_now m + longest)"
  shows "\<exists>m1 v. one_loop round t0 m = Some (m1, v) \<and> round_result raft_ids data k prompt (Inl (m1, v)) \<and>
    (soon \<and> m_now m < t0 + 25000 + longest \<longrightarrow> m_now m1 < t0 + 25000 + longest)"
proof (induction "nat (t0 + 25000 - m_now m)" arbitrary: m rule: less_induct)
  case less
  show ?case
  proof (cases "m_now m - t0 < 25000")
    case True
    obtain step where step: "round m = Some step" "round_result raft_ids data k prompt step"
      "\<And>m1. step = Inr m1 \<Longrightarrow> m_now m < m_now m1" "soon \<Longrightarrow> m_now (step_moment step) < m_now m + longest"
      using good [of m] by blast
    show ?thesis
    proof (cases step)
      case (Inl d)
      obtain m1 v where d: "d = (m1, v)" by fastforce
      with Inl True step show ?thesis by (subst one_loop.simps) (auto simp: step_moment_def)
    next
      case (Inr m1)
      have "nat (t0 + 25000 - m_now m1) < nat (t0 + 25000 - m_now m)" using True step(3) [OF Inr] by linarith
      from less [OF this] step(4) True show ?thesis
        by (subst one_loop.simps) (auto simp: step(1) Inr step_moment_def)
    qed
  next
    case False
    then show ?thesis by (subst one_loop.simps) (simp add: round_result_def)
  qed
qed

text \<open>
  \<^verbatim>\<open>one\<close> ends unless a call never returns; when it returns an index, the command has been counted at that index at
  the expected number of servers; and it takes less than 30.05 seconds, plus what one sleep takes too long and one
  round of calls takes.
\<close>

lemma one_result:
  assumes "takes_time sleep" "no_sooner calling"
  obtains m1 v where "one sleep calling fate c raft_ids connected data k retry m = Some (m1, v)"
    "\<And>r. v = Got r \<Longrightarrow> \<exists>index num. r = Some index \<and>
       count_committed raft_ids index m1 = (m1, Some (num, data)) \<and> 0 < num \<and> k \<le> num"
    "answered calling \<Longrightarrow> v \<noteq> Stuck"
    "in_time slack delay sleep calling \<Longrightarrow> m_now m1 < m_now m + 30050 + slack + 2 * delay"
proof -
  let ?round = "one_round sleep calling fate c raft_ids connected data k retry"
  obtain m1 v where r: "one_loop ?round (m_now m) m = Some (m1, v)"
    "round_result raft_ids data k (answered calling) (Inl (m1, v))"
    "in_time slack delay sleep calling \<and> m_now m < m_now m + 25000 + (5050 + slack + 2 * delay) \<longrightarrow>
      m_now m1 < m_now m + 25000 + (5050 + slack + 2 * delay)"
    using one_loop_result [of ?round raft_ids data k "answered calling" "in_time slack delay sleep calling"
        "5050 + slack + 2 * delay" "m_now m" m]
      one_round_result [OF assms, of fate c raft_ids connected data k retry _ slack delay] by (fastforce simp: add.assoc)
  show thesis
  proof (rule that)
    show "one sleep calling fate c raft_ids connected data k retry m = Some (m1, v)" using r(1) by (simp add: one_def)
  qed (use r(2,3) in \<open>auto simp: round_result_def in_time_def\<close>)
qed

text \<open>
  With the harness exact for the streams of the servers, an index that \<^verbatim>\<open>one\<close> returns is one at which the
  expected number of servers have applied the command.
\<close>

lemma count_committed_exact:
  assumes ex: "exact evs (m_harness m)" and "1 \<le> index" "int (length raft_ids) < 2 ^ 64"
    and cmp: "\<And>i j. prefix (stream_of i evs) (stream_of j evs) \<or> prefix (stream_of j evs) (stream_of i evs)"
    and count: "count_committed raft_ids index m = (m, Some (num, data))"
  shows "num = int (length (filter (\<lambda>i. index \<le> int (length (stream_of i evs))) raft_ids))"
    "\<forall>i \<in> set raft_ids. index \<le> int (length (stream_of i evs)) \<longrightarrow> ar_data (stream_of i evs ! nat (index - 1)) = data"
  using exact_n_committed [OF ex assms(2,3) cmp] count by (auto simp: count_committed_def)

section \<open>Waiting for a leader\<close>

text \<open>The delays are the random numbers drawn, one for each iteration.\<close>

fun check_one_leader ::
  "sleeper \<Rightarrow> waiter \<Rightarrow> (moment \<Rightarrow> u64_t \<Rightarrow> rpc_fate) \<Rightarrow> (moment \<Rightarrow> state_reads) \<Rightarrow> ctrl \<Rightarrow> (u64_t \<times> bool) list \<Rightarrow>
   int list \<Rightarrow> moment \<Rightarrow> moment \<times> u64_t option verdict" where
  "check_one_leader sleep calling fate reads c connected [] m = (m, Threw)"
| "check_one_leader sleep calling fate reads c connected (delay # delays) m =
     (if aborted m then (m, Threw)
      else
        let m1 = sleep delay m
        in (case during calling (\<lambda>m2. get_all_states (fate m2) (reads m2) connected c (m_system m2)) m1 of
              None \<Rightarrow> (m1, Stuck)
            | Some (m3, Done states) \<Rightarrow>
                (case check_leaders states of
                   Some (OneLeader i) \<Rightarrow> (m3, Got i)
                 | Some NoLeader \<Rightarrow> check_one_leader sleep calling fate reads c connected delays m3
                 | Some (TooMany t) \<Rightarrow> (m3, Threw)
                 | None \<Rightarrow> (m3, Undefined))
            | Some (m3, _) \<Rightarrow> (m3, Threw)))"

text \<open>The leader returned is one of the states that the last question has brought back.\<close>

lemma check_leaders_found:
  assumes "check_leaders states = Some (OneLeader i)"
  obtains st where "st \<in> set states" "ts_is_leader st" "ts_id st = i"
proof -
  obtain t rest where "leaders_by_term states t = i # rest"
    using assms by (auto simp: check_leaders_def Let_def split: option.splits if_splits list.splits)
  then have "i \<in> set (leaders_by_term states t)" by simp
  then show thesis using that by (auto simp: leaders_by_term_def)
qed

lemma check_one_leader_found:
  assumes "check_one_leader sleep calling fate reads c connected delays m = (m1, Got i)"
  obtains m2 states st where
    "during calling (\<lambda>m3. get_all_states (fate m3) (reads m3) connected c (m_system m3)) m2 = Some (m1, Done states)"
    "st \<in> set states" "ts_is_leader st" "ts_id st = i"
  using assms
proof (induction delays arbitrary: m)
  case (Cons delay delays)
  obtain m2 states where
    q: "during calling (\<lambda>m3. get_all_states (fate m3) (reads m3) connected c (m_system m3)) (sleep delay m) = Some (m2, Done states)"
    using Cons.prems(2) by (auto simp: Let_def split: option.splits prod.splits ctrl_result.splits if_splits)
  show ?case
  proof (cases "check_leaders states")
    case (Some l)
    with Cons q show ?thesis
      by (cases l) (auto simp: Let_def split: if_splits elim: check_leaders_found)
  qed (use Cons.prems(2) q in \<open>auto simp: Let_def split: if_splits\<close>)
qed simp

section \<open>The watchdog and the end\<close>

text \<open>
  An iteration runs undisturbed: what others do meanwhile counts as done in the sleep. \<^verbatim>\<open>FAIL()\<close> returns from the
  function, so the statement that throws after it is not reached.
\<close>

partial_function (option) check_timeout :: "sleeper \<Rightarrow> int \<Rightarrow> moment \<Rightarrow> moment option" where
  "check_timeout sleep start_time m =
     (if hfailed (m_harness m) then Some (m\<lparr>m_harness := (m_harness m)\<lparr>hstop := True\<rparr>\<rparr>)
      else if m_now m - start_time > 300 * 1000 then Some (give_up m)
      else if hstop (m_harness m) then Some m
      else check_timeout sleep start_time (sleep 1000 m))"

text \<open>It ends with the test stopped, within 301 seconds and what one sleep takes too long.\<close>

lemma check_timeout_result:
  assumes "takes_time sleep"
  shows "\<exists>m1. check_timeout sleep start m = Some m1 \<and> hstop (m_harness m1) \<and> m_now m \<le> m_now m1 \<and>
    (punctual slack sleep \<and> 0 \<le> slack \<and> m_now m \<le> start + 301000 + slack \<longrightarrow> m_now m1 \<le> start + 301000 + slack)"
proof (induction "nat (start + 300001 - m_now m)" arbitrary: m rule: less_induct)
  case less
  show ?case
  proof (cases "hfailed (m_harness m) \<or> m_now m - start > 300000 \<or> hstop (m_harness m)")
    case True
    then show ?thesis by (subst check_timeout.simps) (auto simp: give_up_def)
  next
    case False
    have late: "m_now m + 1000 \<le> m_now (sleep 1000 m)" using assms by (metis takes_time_def)
    have soon: "punctual slack sleep \<Longrightarrow> m_now (sleep 1000 m) \<le> m_now m + 1000 + slack" by (metis punctual_def)
    have "nat (start + 300001 - m_now (sleep 1000 m)) < nat (start + 300001 - m_now m)" using False late by linarith
    from less [OF this] False late soon show ?thesis by (subst check_timeout.simps) fastforce
  qed
qed

text \<open>
  The destructor; \<open>calling\<close> includes the second that \<^verbatim>\<open>kill\<close> leaves the nodes to end on their own. Without \<^verbatim>\<open>begin\<close> there is no thread to join and the exception of \<^verbatim>\<open>join\<close> leaves a destructor:
  \<open>Threw\<close>.
\<close>

definition cleanup ::
  "sleeper \<Rightarrow> waiter \<Rightarrow> (moment \<Rightarrow> u64_t \<Rightarrow> rpc_fate) \<Rightarrow> ctrl \<Rightarrow> bool \<Rightarrow> int \<Rightarrow> moment \<Rightarrow> (moment \<times> unit verdict) option" where
  "cleanup sleep calling fate c begun start_time m =
     (let m1 = sleep 2000 (m\<lparr>m_harness := (m_harness m)\<lparr>hstop := True\<rparr>\<rparr>)
      in (case during calling (\<lambda>m2. ctrl_kill (fate m2) [] c (m_system m2)) m1 of
            None \<Rightarrow> Some (m1, Stuck)
          | Some (m3, Done _) \<Rightarrow>
              if begun then map_option (\<lambda>m4. (m4, Got ())) (check_timeout sleep start_time m3) else Some (m3, Threw)
          | Some (m3, _) \<Rightarrow> Some (m3, Threw)))"

lemma cleanup_ends:
  assumes "takes_time sleep" "distinct (c_nodes c)" "answered calling"
  obtains m1 v where "cleanup sleep calling fate c begun start m = Some (m1, v)"
    "v = (if begun then Got () else Threw)" "begun \<Longrightarrow> hstop (m_harness m1)"
proof -
  define m0 where "m0 = sleep 2000 (m\<lparr>m_harness := (m_harness m)\<lparr>hstop := True\<rparr>\<rparr>)"
  have "snd (ctrl_kill (fate m2) [] c (m_system m2)) = Done ()" for m2 using ctrl_kill_effect(1) [OF assms(2)] .
  then obtain m3 where k: "during calling (\<lambda>m2. ctrl_kill (fate m2) [] c (m_system m2)) m0 = Some (m3, Done ())"
    using during_answered [OF assms(3), of "\<lambda>m2. ctrl_kill (fate m2) [] c (m_system m2)" m0]
    by (auto simp: during_def split: option.splits prod.splits) (metis snd_conv)
  obtain m4 where "check_timeout sleep start m3 = Some m4" "hstop (m_harness m4)"
    using check_timeout_result [OF assms(1)] by blast
  with k have "cleanup sleep calling fate c begun start m =
      Some (if begun then m4 else m3, if begun then Got () else Threw)" "hstop (m_harness m4)"
    by (simp_all add: cleanup_def flip: m0_def)
  then show thesis using that [of "if begun then m4 else m3" "if begun then Got () else Threw"] by simp
qed

section \<open>Single operations\<close>

text \<open>\<open>Threw\<close>: the server is not a member, or \<^verbatim>\<open>value()\<close> of an empty result.\<close>

definition harness_propose ::
  "(u64_t \<Rightarrow> rpc_fate) \<Rightarrow> u64_t list \<Rightarrow> u64_t \<Rightarrow> string \<Rightarrow> ctrl \<Rightarrow> system \<Rightarrow> system \<times> tester_proposal verdict" where
  "harness_propose fate raft_ids i data c s =
     (if i \<in> set raft_ids then
        (case propose_to_one fate i data c s of
           (s1, Some r) \<Rightarrow> (s1, Got r)
         | (s1, None) \<Rightarrow> (s1, Threw))
      else (s, Threw))"

definition get_rpc_total_count :: "(u64_t \<Rightarrow> rpc_fate) \<Rightarrow> ctrl \<Rightarrow> system \<Rightarrow> 64 word option" where
  "get_rpc_total_count fate c s = map_option rs_count (get_total_rpc_stats fate c s)"

definition get_rpc_total_bytes :: "(u64_t \<Rightarrow> rpc_fate) \<Rightarrow> ctrl \<Rightarrow> system \<Rightarrow> 64 word option" where
  "get_rpc_total_bytes fate c s = map_option rs_bytes (get_total_rpc_stats fate c s)"

text \<open>When every node answers, these are the sums of what the nodes have sent.\<close>

lemma rpc_totals:
  assumes "distinct (c_nodes c)"
  shows "get_rpc_total_count (\<lambda>_. Served) c s =
      Some (\<Sum>i \<leftarrow> c_nodes c. total_rpc_count (p_bytes (np_process (sys_proc s i))))"
    "get_rpc_total_bytes (\<lambda>_. Served) c s =
      Some (\<Sum>i \<leftarrow> c_nodes c. total_bytes_sent (p_bytes (np_process (sys_proc s i))))"
  using total_rpc_stats [OF assms] by (simp_all add: get_rpc_total_count_def get_rpc_total_bytes_def)

text \<open>\<^verbatim>\<open>propose\<close> gives the answer of the server, or throws.\<close>

lemma harness_propose_got:
  "snd (harness_propose fate raft_ids i data c s) = Got r \<longleftrightarrow>
     i \<in> set raft_ids \<and> i \<in> set (c_nodes c) \<and> fate i = Served \<and> r = snd (serve_propose data (sys_proc s i))"
  by (auto simp: harness_propose_def propose_to_one_def async_call_def split: rpc_fate.splits prod.splits)

section \<open>A harness with one leading node\<close>

text \<open>Nothing but the clock moves in the sleeps; the node leads and its first result has been streamed.\<close>

definition tick :: sleeper where
  "tick d m = m\<lparr>m_now := m_now m + d\<rparr>"

lemma tick_time: "takes_time tick" "punctual 0 tick"
  by (simp_all add: takes_time_def punctual_def tick_def)

definition leading_node :: node_proc where
  "leading_node =
     (let cfg = \<lparr>cfg_id = 0, cfg_addr = ''localhost:50050'', cfg_peer_addrs = []\<rparr>; w = RaftWrapper_ctrl cfg Leader (MessageQueue 0)
      in \<lparr>np_wrapper = w\<lparr>wnode := (wnode w)\<lparr>currentTerm := 1, active := True\<rparr>\<rparr>, np_process = process_initial,
          np_member = True, np_logger = None\<rparr>)"

definition leading_moment :: moment where
  "leading_moment =
     \<lparr>m_now = 0, m_harness = feed [(0, \<lparr>ar_valid = True, ar_data = ''x'', ar_index = 1\<rparr>)] (harness_begin [0]),
      m_system = \<lparr>sys_proc = (\<lambda>_. leading_node), sys_live = {}\<rparr>\<rparr>"

definition leading_ctrl :: ctrl where
  "leading_ctrl = ctrl_initial\<lparr>c_nodes := [0]\<rparr>"

lemma leading_claims:
  "\<exists>s rs. propose_to_all (\<lambda>_. Served) ''x'' [(0, True)] leading_ctrl (m_system leading_moment) = (s, Done rs) \<and>
     claimed_index rs = Some 1"
  by (simp add: propose_to_all_def gather_def leading_ctrl_def left_out_def async_call_def leading_moment_def
      serve_propose_def Propose_def leading_node_def propose_def push_proposal_def log_size_def tester_result_def
      claimed_index_def RaftWrapper_ctrl_def wrapper_serving_def RaftWrapper_plain_def Raft_new_def Let_def i64_id)

lemma leading_counts: "count_committed [0] 1 (leading_moment\<lparr>m_system := s\<rparr>) = (leading_moment\<lparr>m_system := s\<rparr>, Some (1, ''x''))"
  by (simp add: count_committed_def n_committed_def leading_moment_def feed_def harness_begin_def apply_handler_def
      check_logs_def log_of_server_def Let_def u64_id)

lemma leading_agrees:
  "\<exists>m1. one tick Some (\<lambda>_ _. Served) leading_ctrl [0] [(0, True)] ''x'' 1 False leading_moment = Some (m1, Got (Some 1))"
proof -
  obtain s rs where p: "propose_to_all (\<lambda>_. Served) ''x'' [(0, True)] leading_ctrl (m_system leading_moment) = (s, Done rs)"
    "claimed_index rs = Some 1"
    using leading_claims by blast
  have "one_poll tick [0] ''x'' 1 1 (m_now leading_moment) (leading_moment\<lparr>m_system := s\<rparr>) =
      Some (leading_moment\<lparr>m_system := s\<rparr>, Some True)"
    by (subst one_poll.simps) (simp add: leading_counts)
  then show ?thesis
    unfolding one_def by (subst one_loop.simps) (simp add: one_round_def during_def p)
qed

lemma prompt_calls: "no_sooner Some" "takes_at_most 0 Some" "answered Some"
  by (simp_all add: no_sooner_def takes_at_most_def answered_def)

end
