(* ===== verification/RandGen.thy ===== *)
theory RandGen
  imports Prelude
begin

text \<open>
  The random helper of \<^verbatim>\<open>inc/common/utils/rand_gen.hpp\<close>, which \<^verbatim>\<open>raft.cpp\<close> includes. The engine of the standard
  library is an argument: \<open>draw a b\<close> is the number a \<^verbatim>\<open>uniform_int_distribution<int>(a, b)\<close> draws.
\<close>

text \<open>Conversion to a 32-bit \<^verbatim>\<open>int\<close>.\<close>

definition i32 :: "int \<Rightarrow> int" where
  "i32 x = (x + 2 ^ 31) mod 2 ^ 32 - 2 ^ 31"

lemma i32_id: "- (2 ^ 31) \<le> x \<Longrightarrow> x < 2 ^ 31 \<Longrightarrow> i32 x = x"
  by (simp add: i32_def)

text \<open>The distribution is defined only when its bounds are in order.\<close>

definition intn :: "(int \<Rightarrow> int \<Rightarrow> int) \<Rightarrow> u64_t \<Rightarrow> u64_t defined" where
  "intn draw n =
     (let b = i32 (u64 (n - 1))
      in if 0 \<le> b then Some (u64 (draw 0 b)) else None)"

definition draws_in_range :: "(int \<Rightarrow> int \<Rightarrow> int) \<Rightarrow> bool" where
  "draws_in_range draw \<longleftrightarrow> (\<forall>a b. a \<le> b \<longrightarrow> a \<le> draw a b \<and> draw a b \<le> b)"

text \<open>For bounds that fit into an \<^verbatim>\<open>int\<close> the result is below the bound.\<close>

lemma intn_below:
  assumes "draws_in_range draw" "1 \<le> n" "n \<le> 2 ^ 31"
  obtains r where "intn draw n = Some r" "0 \<le> r" "r < n"
proof -
  have b: "i32 (u64 (n - 1)) = n - 1" using assms(2,3) by (simp add: u64_id i32_id)
  have r: "0 \<le> draw 0 (n - 1)" "draw 0 (n - 1) \<le> n - 1" using assms(1,2) unfolding draws_in_range_def by (metis diff_ge_0_iff_ge)+
  then have "draw 0 (n - 1) < n" by linarith
  from r have "u64 (draw 0 (n - 1)) = draw 0 (n - 1)" using assms(3) by (intro u64_id) auto
  with that r b assms(2) \<open>draw 0 (n - 1) < n\<close> show thesis by (simp add: intn_def)
qed

text \<open>
  For 0 the bound wraps around to the largest \<^verbatim>\<open>uint64_t\<close>, which is -1 as an \<^verbatim>\<open>int\<close>: undefined. So is every bound
  whose predecessor has its 32nd bit set; a larger bound loses its upper half.
\<close>

lemma intn_zero: "intn draw 0 = None"
  by (simp add: intn_def u64_def i32_def)

lemma intn_defined_iff:
  assumes "0 \<le> n" "n < 2 ^ 64"
  shows "intn draw n \<noteq> None \<longleftrightarrow> (n - 1) mod 2 ^ 32 < 2 ^ 31"
proof -
  have "u64 (n - 1) mod 2 ^ 32 = (n - 1) mod 2 ^ 32"
    unfolding u64_def by (rule mod_mod_cancel) simp
  moreover have "0 \<le> i32 x \<longleftrightarrow> x mod 2 ^ 32 < 2 ^ 31" for x
  proof -
    have "i32 x = (x mod 2 ^ 32 + 2 ^ 31) mod 2 ^ 32 - 2 ^ 31" by (simp add: i32_def mod_simps)
    moreover have "0 \<le> x mod 2 ^ 32" "x mod 2 ^ 32 < 2 ^ 32" by simp_all
    ultimately show ?thesis
      using mod_pos_pos_trivial [of "x mod 2 ^ 32 + 2 ^ 31" "2 ^ 32"]
        mod_pos_pos_trivial [of "x mod 2 ^ 32 - 2 ^ 31" "2 ^ 32"] mod_add_self2 [of "x mod 2 ^ 32 - 2 ^ 31" "2 ^ 32 :: int"]
      by (cases "x mod 2 ^ 32 < 2 ^ 31") (simp_all add: add.commute)
  qed
  ultimately show ?thesis by (simp add: intn_def Let_def)
qed

lemma intn_truncates:
  assumes "draws_in_range draw"
  obtains r where "intn draw (2 ^ 32 + 1) = Some r" "r = 0"
proof -
  have "i32 (u64 (2 ^ 32 + 1 - 1)) = 0" by (simp add: u64_def i32_def)
  moreover have "draw 0 0 = 0" using assms unfolding draws_in_range_def by (metis order_antisym order_refl)
  ultimately show thesis using that by (simp add: intn_def u64_def)
qed

end
