(* ===== verification/Spec2Isabelle.thy ===== *)
theory Spec2Isabelle
  imports Scenarios LogMatching Programs HarnessLoops RandGen
begin

text \<open>
  Verification of an extended Raft consensus implementation in C++ (gRPC, threads, condition
  variables) with its tooling.

  \<^bold>\<open>The program.\<close> A node is an object of class \<^verbatim>\<open>Raft\<close> (\<^verbatim>\<open>src/raft.cpp\<close>, \<^verbatim>\<open>inc/rafty/\<close>): it elects a
  leader, replicates a log and hands committed commands to a \<^verbatim>\<open>MessageQueue\<close>
  (\<^verbatim>\<open>inc/toolings/msg_queue.hpp\<close>). Its work is done by detached threads that take one mutex for each
  critical section and release it around RPCs. \<^verbatim>\<open>RaftServiceImpl\<close> (\<^verbatim>\<open>src/rpcService.cpp\<close>) passes incoming
  requests to the node. \<^verbatim>\<open>RaftWrapper\<close> (\<^verbatim>\<open>inc/toolings/raft_wrapper.hpp\<close>) adds a service for the tester:
  it runs and kills the node, injects network faults through the client interceptors
  (\<^verbatim>\<open>inc/common/utils/net_intercepter.hpp\<close>), reads the state, proposes, and streams the applied results.
  A controller, \<^verbatim>\<open>RaftTestCtrl\<close> (\<^verbatim>\<open>inc/toolings/test_ctrl.hpp\<close>), spawns one process of \<^verbatim>\<open>app/node.cpp\<close> per
  configuration and sends requests to all of them. \<^verbatim>\<open>app/multinode.cpp\<close> is a command loop around it, while
  \<^verbatim>\<open>app/latency.cpp\<close> and \<^verbatim>\<open>app/tput.cpp\<close> measure the cluster; \<^verbatim>\<open>inc/toolings/config_gen.hpp\<close> generates
  configurations; \<^verbatim>\<open>inc/toolings/test_config.hpp\<close> checks what the nodes report.

  \<^bold>\<open>The theories.\<close>
  \<^item> \<open>Prelude\<close>: \<^verbatim>\<open>int64_t\<close> and \<^verbatim>\<open>uint64_t\<close> as \<open>int\<close> with the conversions \<open>i64\<close> and \<open>u64\<close> written out,
    checked vector access (\<open>defined\<close>: \<open>None\<close> is undefined behaviour), ordered maps, \<^verbatim>\<open>to_string\<close>; the locales
    \<open>inductive_invariant\<close>, \<open>simulation\<close> and \<open>quorum_system\<close>.
  \<^item> \<open>RaftTypes\<close>: the structs, the messages, the role, and the record \<open>raft\<close> of the members of class
    \<^verbatim>\<open>Raft\<close>. A thread that has been created is a value of type \<open>thread\<close> in the field \<open>threads\<close>.
  \<^item> \<open>RaftLog\<close>: every loop of \<^verbatim>\<open>raft.cpp\<close> over the log, with its specification.
  \<^item> \<open>RaftNode\<close>: the member functions, one definition each; a function that releases the mutex around an
    RPC is split at that point (\<open>build_vote_request\<close> and \<open>handle_vote_reply\<close>, \<open>build_append_request\<close> and
    \<open>handle_append_reply\<close>), a wait on a condition variable at the wait.
  \<^item> \<open>RaftCluster\<close>: a cluster of nodes and the calls in flight; \<open>exec\<close> runs one event (a critical section of
    a thread, a delivery, a reply, a failed call, a public call), \<open>cluster_step\<close> is the step relation,
    \<open>reachable\<close> the states some interleaving leads to. History variables record votes, leaders and logs.
  \<^item> \<open>RaftVoting\<close>, \<open>ElectionSafety\<close>, \<open>VoteSpec\<close>: the vote rule, the invariant behind election safety, the
    abstract election and its refinement by the cluster.
  \<^item> \<open>RaftReplication\<close>, \<open>RaftCatchUp\<close>: the follower's and the leader's side of replication, the commit
    rule; the locale \<open>append_service\<close> is what the leader relies on in a follower, and log repair is proved
    from it.
  \<^item> \<open>NodeLaws\<close>: what no event ever does to a node (locale \<open>step_law\<close>): change a vote, withdraw an applied
    result. \<open>LogMatching\<close>: the log matching property as an invariant of the cluster. \<open>TermBound\<close>: terms
    are bounded by elections.
  \<^item> \<open>LeaderLogs\<close>, \<open>CommitSafety\<close>, \<open>SafeMoves\<close>, \<open>FencedSafety\<close>, \<open>FencedProgress\<close>: state machine safety. \<open>LeaderLogs\<close>
    states, over a history of the logs that nodes and leaders have had, what a chosen prefix is and proves leader
    completeness; \<open>CommitSafety\<close> shows that one safe move of one node keeps the history, the nodes and the
    calls consistent; \<open>SafeMoves\<close> shows that every member function of \<^verbatim>\<open>Raft\<close> makes a safe move;
    \<open>FencedSafety\<close> composes them into an invariant of fenced executions, those in which
    \<open>build_append_request\<close> runs only while the node leads; \<open>FencedProgress\<close> adds the bookkeeping of a leader and
    that no step of such an execution is undefined.
  \<^item> \<open>ElectionProgress\<close>, \<open>FirstTerm\<close>, \<open>CommitProgress\<close>: no reachable state is a dead end. From any state a running
    majority can elect a leader (the continuation is constructed: timeouts, votes, the leader's start), and in a fenced
    cluster that leader can bring the majority to its log, commit a new command and have all of them apply it.
    \<open>FirstTerm\<close> shows that elections and entries have positive terms.
  \<^item> \<open>ConfigGen\<close>, \<open>MsgQueue\<close> (locale \<open>fifo_channel\<close>), \<open>NetIntercept\<close> (locale \<open>fault_injector\<close>),
    \<open>RaftWrapper\<close>, \<open>NodeApp\<close>, \<open>Bench\<close>, \<open>Harness\<close>: the components of these names and the composition of
    node, queue, interceptors and service; \<open>RaftWrapper\<close> also starts the tester's server and reports readiness.
    In \<open>Bench\<close> the \<^verbatim>\<open>double\<close> product that a percentile rounds is an argument, the clamping and the rounding are not.
    \<open>RandGen\<close>: the range of a random number, with the random engine as an argument.
  \<^item> \<open>Logging\<close>: the loggers of a node and of the drivers, the levels their programs set, ordered as an instance of
    \<open>linorder\<close>, and the logger's methods. \<open>NodeProgram\<close>: the flags of a node, with the ranges of their types, and its
    \<^verbatim>\<open>main\<close> as a process that starts, serves the tester's requests and ends; a port that is taken leaves a server
    null. \<open>TestCtrl\<close>: the controller and its server, its spawning loop
    interleaved with the reports of the nodes and with failures of the shell, the stubs for the tester ports, and its
    calls to all nodes, each with a fate of its own
    (locale \<open>node_contract\<close>: what every call keeps of a node).
    \<open>HarnessChecks\<close>: the remaining checks of the harness, and what it sees of a fenced cluster. \<open>HarnessLoops\<close>: its
    constructor, its end, its watchdog and the loops in which it waits, for the clock and for calls without a deadline.
    \<open>SpawnedNodes\<close>: the command line of a spawned node, read back by the node's flags. \<open>Programs\<close>: \<^verbatim>\<open>main\<close> of the
    drivers over the controller, from the logger they open to the status they exit with.
  \<^item> \<open>Scenarios\<close>: concrete schedules, evaluated in the kernel, for the witnesses and for the guarantees
    the code breaks.
  Every locale is interpreted on the definitions of the program.

  \<^bold>\<open>What is shown.\<close> Leader election is safe for clusters of odd size (C1, C16, C24, C25) and unsafe
  for even sizes (C2); a running majority can always elect a leader (C3). In fenced executions of odd clusters the applied
  results of any two nodes agree, a leader holds everything that is committed, a running majority can always commit and
  apply another command, the leader's indices stay in range and no step is undefined (C4 to C8). Without the fence state
  machine safety, the acknowledgement of \<^verbatim>\<open>propose_sync\<close> and the bounds of the send thread fail in
  reachable states, because a send thread does not check that its node still leads (C21, C22, C23): the race is the one
  obstacle, and logs still match and are sorted (C9, C10, C11). The replication routines meet their specifications and
  repair a follower's log in a bounded number of rounds (C12, C13, C17 to C20). Results are applied in index order, once,
  and never withdrawn, up to the tester's stream and its checks, which all pass on a fenced cluster (C14, C15, C32, C33);
  the leader check passes on every odd cluster unless a node changes its term while it is read without the mutex, and
  \<open>torn_read_two_leaders\<close> shows that this exception is real (C35). The queue is a bounded FIFO channel
  without lost wake-ups for blocking clients, but \<^verbatim>\<open>try_dequeue\<close> can leave a producer asleep (C26
  to C29). What is typed into the multi-node program cuts exactly the intended calls between the nodes (C30, C31); a
  driver's cluster is configured, spawned and started as intended, and it is stated when it is not: a port taken, a shell
  that fails, ids whose port does not fit its flag (C36, C37); how the programs and the waiting loop of the harness end,
  what they then have computed, and that \<^verbatim>\<open>one\<close> hangs only with one of its calls (C34, C38 to
  C40).

  \<^bold>\<open>Bounds and fuel.\<close> No definition uses fuel: the loops end by a measure, and the loop of
  \<^verbatim>\<open>tput.cpp\<close> is a \<open>partial_function\<close> that is shown to end, as \<^verbatim>\<open>reserve\<close> throws before the count can wrap; so are
  the loops of the harness that read the clock, which end when sleeps take time. \<open>tame\<close>
  executions keep every log below \<open>2 ^ 62\<close> entries, so that indices and their sums stay
  inside \<^verbatim>\<open>int64_t\<close>, and start from memory in which no uninitialised \<^verbatim>\<open>currentRole\<close> reads \<^verbatim>\<open>Leader\<close>
  (such a node would accept proposals before \<^verbatim>\<open>run\<close>); \<open>node_sane\<close> and \<open>request_sane\<close> are the same bounds for
  one node and one request. Counters that wrap harmlessly are \<^verbatim>\<open>64 word\<close>.

  \<^bold>\<open>Not modelled.\<close> Time in the nodes: a timer may fire at any moment after it is set, so every
  interleaving a delay could cause is an execution. Only the loops of the harness read a clock; in
  \<open>HarnessLoops\<close> it advances in their sleeps and while they wait for answers; both are arguments, and a wait
  for answers may be without end. gRPC itself, sockets, the shell that runs a command, the text that is printed, the
  random engine (in the nodes any delay of the range may be drawn) and floating-point rounding. Of spdlog only the sinks
  and levels the code sets and the requests it is sent are there; what it returns, formats and writes is its own. The
  requests of a controller reach the nodes one after the other in \<open>call_all\<close>; they touch different processes,
  and \<open>call_all_order\<close> shows that their order does not matter. In \<open>Programs\<close>, where no clock is
  read, a call that never returns is not a state. What \<^verbatim>\<open>absl::ParseCommandLine\<close> makes of a
  command line is an argument; \<open>parse_node_flags\<close> says what it documents for command lines of the form in
  which the controller spawns a node. Inside \<open>exec\<close>, handing a result to the queue does not block; the
  queue's own blocking is in \<open>MsgQueue\<close>. Exceptions of the allocator and the thread library, which the source
  catches and logs, are left out. \<^verbatim>\<open>src/raft copy.cpp\<close> is commented out throughout. C3 and C6
  state that progress is possible from every state, by some continuation; that it happens under timing assumptions is not
  stated.
\<close>

section \<open>Leader election\<close>

text \<open>
  C1. Election safety. In every reachable state of a cluster with an odd number of nodes, two
  nodes that have ever been active leaders of the same term are the same node: over a whole
  execution a term has at most one leader.
\<close>

theorem election_safety:
  assumes "reachable cfgs c" "odd (length cfgs)" "(T, i) \<in> elected c" "(T, j) \<in> elected c"
  shows "i = j"
  using elected_unique [of c T i j] reachable_facts [OF assms(1)] assms by simp

theorem election_safety_witness:
  "\<exists>c i j. reachable (cfgs_of_size 3) c \<and> (1, i) \<in> elected c \<and> (1, j) \<in> elected c \<and> i = j"
proof -
  obtain c where c: "reachable (cfgs_of_size 3) c" "leader_view c = [(0, 1)]"
    using one_leader_view by (rule view_reachable) simp
  have "(0, 1) \<in> set (leader_view c)" using c(2) by simp
  then have e: "(1, 0) \<in> elected c"
    using recorded.always [OF c(1)] by (auto simp: leader_view_def leaders_recorded_def)
  have "(0 :: int) = 0" by (rule election_safety [OF c(1) _ e e]) simp
  with c(1) e show ?thesis by blast
qed

text \<open>
  C2. With an even number of nodes the vote test of the code is not a majority: a cluster of four
  nodes has a reachable state with two active leaders in term 1.
\<close>

theorem even_cluster_two_leaders:
  "\<exists>c. reachable (cfgs_of_size 4) c \<and>
     active (nodes c 0) \<and> currentRole (nodes c 0) = Leader \<and> currentTerm (nodes c 0) = 1 \<and>
     active (nodes c 1) \<and> currentRole (nodes c 1) = Leader \<and> currentTerm (nodes c 1) = 1"
proof -
  obtain c where c: "reachable (cfgs_of_size 4) c" "leader_view c = [(0, 1), (1, 1)]"
    using split_brain_view by (rule view_reachable) simp
  have "(0, 1) \<in> set (leader_view c)" "(1, 1) \<in> set (leader_view c)" using c(2) by simp_all
  with c(1) show ?thesis by (intro exI [of _ c]) (auto simp: leader_view_def)
qed

text \<open>
  C3. Elections are always possible. From every reachable state in which a majority of the nodes runs (active, not
  killed, server up), some continuation, in which no log changes, makes one of them a leader whose term is not behind
  the term of any other. So no state is a dead end: no combination of roles, terms, votes cast, running timers and
  calls in flight keeps the majority from electing a leader.
\<close>

theorem majority_can_elect:
  assumes "reachable cfgs c" "running Q c" "length cfgs < 2 * card Q" "1 < length cfgs"
  shows "\<exists>c' i. cluster_step\<^sup>*\<^sup>* c c' \<and> running Q c' \<and> i \<in> Q \<and> currentRole (nodes c' i) = Leader \<and>
    (\<forall>j \<in> Q. currentTerm (nodes c' j) \<le> currentTerm (nodes c' i)) \<and> (\<forall>j. rlog (nodes c' j) = rlog (nodes c j))"
proof -
  obtain c' i where c': "elects c c'" "running Q c'" "i \<in> Q" "currentRole (nodes c' i) = Leader"
    "\<forall>j \<in> Q. currentTerm (nodes c' j) \<le> currentTerm (nodes c' i)"
    using can_elect [OF assms] by blast
  with elects_steps [OF c'(1)] elects_logs [OF c'(1)] show ?thesis by blast
qed

theorem majority_can_elect_witness:
  "\<exists>c c' i. fenced (cfgs_of_size 3) c \<and> dead (nodes c 1) \<and> cluster_step\<^sup>*\<^sup>* c c' \<and> i \<in> {0, 2} \<and>
     currentRole (nodes c' i) = Leader"
proof -
  obtain c where c: "fenced (cfgs_of_size 3) c" "running {0, 2} c" "dead (nodes c 1)" by (rule leader_killed_fenced)
  have "\<exists>c' i. cluster_step\<^sup>*\<^sup>* c c' \<and> running {0, 2} c' \<and> i \<in> {0, 2} \<and> currentRole (nodes c' i) = Leader \<and>
      (\<forall>j \<in> {0, 2}. currentTerm (nodes c' j) \<le> currentTerm (nodes c' i)) \<and> (\<forall>j. rlog (nodes c' j) = rlog (nodes c j))"
    by (rule majority_can_elect [OF tame_reachable [OF fenced_tame [OF c(1)]] c(2)]) simp_all
  with c(1,3) show ?thesis by blast
qed

section \<open>Fenced executions\<close>

text \<open>
  C4. State machine safety. In a fenced execution of an odd cluster (no send thread builds its request after its
  node has lost leadership, no log reaches \<open>2 ^ 62\<close> entries), what any two nodes have handed over to their state
  machines never conflicts: one sequence of results is a prefix of the other.
\<close>

theorem state_machine_safety:
  assumes "fenced cfgs c" "i \<in> set (members c)" "j \<in> set (members c)"
  shows "prefix (ready_queue (nodes c i)) (ready_queue (nodes c j)) \<or>
    prefix (ready_queue (nodes c j)) (ready_queue (nodes c i))"
  by (rule fenced_applied_agree [OF assms])

theorem state_machine_safety_witness:
  "\<exists>c. fenced (cfgs_of_size 3) c \<and> ready_queue (nodes c 0) \<noteq> [] \<and>
     prefix (ready_queue (nodes c 0)) (ready_queue (nodes c 1)) \<and> ready_queue (nodes c 0) \<noteq> ready_queue (nodes c 1)"
proof -
  obtain c where c: "fenced (cfgs_of_size 3) c" "members c = [0, 1, 2]"
    and q: "map ar_data (ready_queue (nodes c 0)) = [''x'']" "map ar_data (ready_queue (nodes c 1)) = [''x'', ''y'']"
    by (rule two_terms_fenced)
  have len: "length (ready_queue (nodes c 0)) = 1" "length (ready_queue (nodes c 1)) = 2"
    using arg_cong [OF q(1), of length] arg_cong [OF q(2), of length] by simp_all
  then have "\<not> prefix (ready_queue (nodes c 1)) (ready_queue (nodes c 0))" by (auto dest: prefix_length_le)
  moreover have "0 \<in> set (members c)" "1 \<in> set (members c)" using c(2) by simp_all
  ultimately have "prefix (ready_queue (nodes c 0)) (ready_queue (nodes c 1))"
    using state_machine_safety [OF c(1)] by blast
  with c(1) len show ?thesis by (intro exI [of _ c]) auto
qed

text \<open>
  C5. Leader completeness. In a fenced execution, whatever a node considers committed is in the log of every leader
  whose term is not older: the committed part of its log is a prefix of the leader's log.
\<close>

theorem leader_completeness:
  assumes "fenced cfgs c" "i \<in> set (members c)" "j \<in> set (members c)"
    and "currentRole (nodes c j) = Leader" "currentTerm (nodes c i) \<le> currentTerm (nodes c j)"
  shows "prefix (take (nat (commitIndex (nodes c i))) (rlog (nodes c i))) (rlog (nodes c j))"
  by (rule fenced_leader_complete [OF assms])

theorem leader_completeness_witness:
  "\<exists>c. fenced (cfgs_of_size 3) c \<and> currentTerm (nodes c 0) < currentTerm (nodes c 1) \<and>
     take (nat (commitIndex (nodes c 0))) (rlog (nodes c 0)) \<noteq> [] \<and>
     prefix (take (nat (commitIndex (nodes c 0))) (rlog (nodes c 0))) (rlog (nodes c 1))"
proof -
  obtain c where c: "fenced (cfgs_of_size 3) c" "members c = [0, 1, 2]" "currentRole (nodes c 1) = Leader"
    "currentTerm (nodes c 0) = 1" "currentTerm (nodes c 1) = 2" "take (nat (commitIndex (nodes c 0))) (rlog (nodes c 0)) \<noteq> []"
    by (rule two_terms_fenced)
  have "prefix (take (nat (commitIndex (nodes c 0))) (rlog (nodes c 0))) (rlog (nodes c 1))"
    by (rule leader_completeness [OF c(1) _ _ c(3)]) (simp_all add: c)
  with c show ?thesis by (intro exI [of _ c]) simp
qed

text \<open>
  C6. A majority can always commit. From every state of a fenced execution in which a majority of the nodes runs and
  their logs are not full, some fenced continuation commits any given new command: all nodes of the majority have then
  handed over the same results, the last of which is the command, and each of them has handed over more than before.
  This is the whole way of a command: an election, repair of the followers' logs by rejected and accepted requests,
  the commit rule, the followers' commit indices, and the application.
\<close>

theorem majority_can_commit:
  assumes "fenced cfgs c" "running Q c" "length cfgs < 2 * card Q" "1 < length cfgs"
    and "\<forall>j \<in> Q. log_size (nodes c j) < 2 ^ 62 - 1"
  shows "\<exists>c' results. fenced_step\<^sup>*\<^sup>* c c' \<and> running Q c' \<and> ar_data (last results) = data \<and>
    (\<forall>j \<in> Q. ready_queue (nodes c' j) = results \<and> strict_prefix (ready_queue (nodes c j)) results)"
  by (rule can_commit [OF assms])

theorem majority_can_commit_witness:
  "\<exists>c c' results. fenced (cfgs_of_size 3) c \<and> dead (nodes c 1) \<and> fenced_step\<^sup>*\<^sup>* c c' \<and>
     ar_data (hd results) = ''x'' \<and> ar_data (last results) = ''z'' \<and>
     ready_queue (nodes c' 0) = results \<and> ready_queue (nodes c' 2) = results"
proof -
  obtain c where c: "fenced (cfgs_of_size 3) c" "running {0, 2} c" "dead (nodes c 1)"
    "\<forall>j \<in> {0, 2}. log_size (nodes c j) < 2 ^ 62 - 1" "map ar_data (ready_queue (nodes c 0)) = [''x'']"
    by (rule leader_killed_fenced)
  have "\<exists>c' results. fenced_step\<^sup>*\<^sup>* c c' \<and> running {0, 2} c' \<and> ar_data (last results) = ''z'' \<and>
      (\<forall>j \<in> {0, 2}. ready_queue (nodes c' j) = results \<and> strict_prefix (ready_queue (nodes c j)) results)"
    by (rule majority_can_commit [OF c(1,2) _ _ c(4)]) simp_all
  then obtain c' results where r: "fenced_step\<^sup>*\<^sup>* c c'" "ar_data (last results) = ''z''"
    "ready_queue (nodes c' 0) = results" "ready_queue (nodes c' 2) = results"
    "strict_prefix (ready_queue (nodes c 0)) results" by auto
  then obtain rs where "results = ready_queue (nodes c 0) @ rs" by (auto simp: strict_prefix_def prefix_def)
  then have "ar_data (hd results) = ''x''" using c(5) by (cases "ready_queue (nodes c 0)") auto
  with c(1,3) r(1-4) show ?thesis by blast
qed

text \<open>
  C7. No undefined behaviour. In a fenced execution every event that can happen (its thread, node, server or call is
  there) and keeps the fence has a defined result: no send thread, no request handler and no reply handler indexes a
  log out of range.
\<close>

theorem fenced_steps_defined:
  assumes "fenced cfgs c" "possible ev c" "fenced_event ev c"
  shows "\<exists>c'. exec ev c = Some c'"
  using fenced_defined [OF assms] by blast

theorem fenced_steps_defined_witness:
  "\<exists>c c'. fenced (cfgs_of_size 3) c \<and> exec (th 1 3) c = Some c'"
proof -
  obtain c where c: "fenced (cfgs_of_size 3) c" "possible (th 1 3) c" "fenced_event (th 1 3) c"
    by (rule two_terms_fenced)
  from fenced_steps_defined [OF this] c(1) show ?thesis by blast
qed

text \<open>
  C8. The bookkeeping of a leader is well-formed: in a fenced execution the \<^verbatim>\<open>nextIndex\<close> a leader keeps for a peer
  lies between 1 and one past its log, and the \<^verbatim>\<open>matchIndex\<close> between 0 and the end of its log.
\<close>

theorem leader_indices_in_range:
  assumes "fenced cfgs c" "i \<in> set (members c)" "currentRole (nodes c i) = Leader" "k \<in> set (peers (nodes c i))"
  shows "1 \<le> next_of k (nodes c i) \<and> next_of k (nodes c i) \<le> log_size (nodes c i) + 1 \<and>
    0 \<le> match_of k (nodes c i) \<and> match_of k (nodes c i) \<le> log_size (nodes c i)"
  by (rule fenced_indices [OF assms])

theorem leader_indices_in_range_witness:
  "\<exists>c. fenced (cfgs_of_size 3) c \<and> next_of 2 (nodes c 1) = 3 \<and> 2 \<le> log_size (nodes c 1) \<and>
     match_of 2 (nodes c 1) \<le> log_size (nodes c 1)"
proof -
  obtain c where c: "fenced (cfgs_of_size 3) c" "members c = [0, 1, 2]" "currentRole (nodes c 1) = Leader"
    "2 \<in> set (peers (nodes c 1))" "next_of 2 (nodes c 1) = 3"
    by (rule two_terms_fenced)
  from leader_indices_in_range [OF c(1) _ c(3,4)] c show ?thesis by (intro exI [of _ c]) simp
qed

section \<open>Logs, commits and results\<close>

text \<open>
  C9. Log matching. In a tame execution of an odd cluster (no log reaches \<open>2 ^ 62\<close> entries, no
  uninitialised role reads \<^verbatim>\<open>Leader\<close>), of all logs that any node has had at any time, two that hold an
  entry of the same term at the same index are identical up to that index. This holds although stale
  send threads of former leaders keep sending.
\<close>

theorem log_matching:
  assumes "tame cfgs c" "l \<in> set (logs c)" "m \<in> set (logs c)"
    and "k < length l" "k < length m" "e_term (l ! k) = e_term (m ! k)"
  shows "take (Suc k) l = take (Suc k) m"
  using tame_match [OF assms(1-3)] assms(4-6) unfolding logs_match_def by blast

theorem log_matching_witness:
  "\<exists>c. tame (cfgs_of_size 3) c \<and> take (Suc 0) (rlog (nodes c 0)) = take (Suc 0) (rlog (nodes c 1)) \<and>
     rlog (nodes c 0) \<noteq> []"
proof -
  obtain c where c: "tame (cfgs_of_size 3) c" "members c = [0, 1, 2]"
    "rlog (nodes c 0) = [\<lparr>e_term = 1, e_command = ''x''\<rparr>]" "rlog (nodes c 1) = [\<lparr>e_term = 1, e_command = ''x''\<rparr>]"
    by (rule replicated_tame)
  have "rlog (nodes c 0) \<in> set (logs c)" "rlog (nodes c 1) \<in> set (logs c)"
    using tame_log(1) [OF c(1)] c(2) by simp_all
  from log_matching [OF c(1) this, of 0] c show ?thesis by auto
qed

text \<open>
  C10. In a tame execution (as in C9) every log is sorted by term and holds no term beyond the term of its node.
\<close>

theorem logs_sorted:
  assumes "tame cfgs c" "i \<in> set (members c)"
  shows "sorted_terms (rlog (nodes c i)) \<and> (\<forall>e \<in> set (rlog (nodes c i)). e_term e \<le> currentTerm (nodes c i))"
  using tame_log(2,3) [OF assms] by (simp add: terms_below_def)

theorem logs_sorted_witness:
  "\<exists>c. tame (cfgs_of_size 3) c \<and> sorted_terms (rlog (nodes c 0)) \<and> rlog (nodes c 0) \<noteq> []"
proof -
  obtain c where c: "tame (cfgs_of_size 3) c" "members c = [0, 1, 2]"
    "rlog (nodes c 0) = [\<lparr>e_term = 1, e_command = ''x''\<rparr>]" by (rule replicated_tame)
  from logs_sorted [OF c(1), of 0] c show ?thesis by auto
qed

text \<open>
  C11. In a tame execution (as in C9) a leader holds every entry of its term: whatever entry of the leader's current term has ever
  been in any log, the leader's log holds the same entry at the same index.
\<close>

theorem leader_holds_its_term:
  assumes "tame cfgs c" "i \<in> set (members c)" "currentRole (nodes c i) = Leader"
    and "l \<in> set (logs c)" "k < length l" "e_term (l ! k) = currentTerm (nodes c i)"
  shows "k < length (rlog (nodes c i)) \<and> rlog (nodes c i) ! k = l ! k"
proof -
  have k: "k < length (rlog (nodes c i))" "e_term (rlog (nodes c i) ! k) = currentTerm (nodes c i)"
    using tame_owns [OF assms(1-3)] assms(4-6) by (auto simp: owns_def)
  have "logs_match (rlog (nodes c i)) l" by (rule tame_match [OF assms(1) tame_log(1) [OF assms(1,2)] assms(4)])
  then have "take (Suc k) (rlog (nodes c i)) = take (Suc k) l"
    using k assms(5,6) by (auto simp: logs_match_def)
  with k(1) show ?thesis by (metis lessI nth_take)
qed

theorem leader_holds_its_term_witness:
  "\<exists>c. tame (cfgs_of_size 3) c \<and> currentRole (nodes c 0) = Leader \<and> rlog (nodes c 0) ! 0 = rlog (nodes c 1) ! 0"
proof -
  obtain c where c: "tame (cfgs_of_size 3) c" "members c = [0, 1, 2]"
    "currentRole (nodes c 0) = Leader" "currentTerm (nodes c 0) = 1"
    "rlog (nodes c 0) = [\<lparr>e_term = 1, e_command = ''x''\<rparr>]" "rlog (nodes c 1) = [\<lparr>e_term = 1, e_command = ''x''\<rparr>]"
    by (rule replicated_tame)
  have "rlog (nodes c 1) \<in> set (logs c)" using tame_log(1) [OF c(1)] c(2) by simp
  from leader_holds_its_term [OF c(1) _ c(3) this, of 0] c show ?thesis by auto
qed

text \<open>
  C12. Log repair ends and is right. A leader and a follower whose logs match reach agreement by
  exchanging requests and replies: after at most \<^verbatim>\<open>nextIndex\<close> rounds the follower has accepted, its
  log starts with the leader's log, and the leader's match index is the length of its log. No round
  runs into undefined behaviour.
\<close>

theorem catch_up:
  assumes "leader_ok target l" "follower_ready (currentTerm l) f" "logs_match (rlog l) (rlog f)"
  shows "\<exists>n l' f'. int n \<le> next_of target l \<and> probe_rounds append_entries target n (l, f) = Some (l', f') \<and>
    match_of target l' = log_size l \<and> take (length (rlog l)) (rlog f') = rlog l \<and> rlog l' = rlog l \<and>
    currentTerm l' = currentTerm l \<and> currentRole l' = Leader"
  by (rule follower.repair [OF assms])

theorem catch_up_witness:
  "\<exists>n l' f'. n \<le> 3 \<and> probe_rounds append_entries 1 n (sample_leader, sample_follower) = Some (l', f') \<and>
     take 2 (rlog f') = rlog sample_leader"
proof -
  have i: "i64 1 = 1" by (simp add: i64_def)
  have l: "leader_ok 1 sample_leader"
    by (simp add: leader_ok_def sample_leader_def Raft_new_def node_sane_def log_size_def next_ok_def in_i64_def
        map_get_def i)
  have f: "follower_ready (currentTerm sample_leader) sample_follower"
    by (simp add: follower_ready_def sample_follower_def sample_leader_def Raft_new_def node_sane_def log_size_def
        in_i64_def)
  have m: "logs_match (rlog sample_leader) (rlog sample_follower)"
    by (simp add: logs_match_def sample_leader_def sample_follower_def less_Suc_eq nth_Cons')
  have "next_of 1 sample_leader = 3" "length (rlog sample_leader) = 2"
    by (simp_all add: sample_leader_def map_get_def i)
  with catch_up [OF l f m] show ?thesis by force
qed

text \<open>
  C13. The commit rule. When a leader in a sane state has an accepted request for the entries up to
  \<open>lst\<close>, handling the reply records \<open>lst\<close> as the match index, and the new commit index is the
  greatest index up to \<open>lst\<close> above the old one that holds an entry of the current term and that a
  strict majority of the cluster (the leader and the peers whose match index reaches it) stores; if
  there is none, the commit index stays. Log, term and role are untouched.
\<close>

theorem commit_rule_holds:
  assumes "node_sane s" "int (length (peers s)) < 2 ^ 63"
    and "sc_next_index ctx + int (length (ae_entries req)) - 1 \<le> log_size s"
  shows "\<exists>t. advance_commit target req ctx s = Some t \<and>
    (let lst = sc_next_index ctx + int (length (ae_entries req)) - 1;
         m = (matchIndex s)(i64 target \<mapsto> lst)
     in matchIndex t = m \<and> nextIndex t = (nextIndex s)(i64 target \<mapsto> lst + 1) \<and>
        rlog t = rlog s \<and> currentTerm t = currentTerm s \<and> currentRole t = currentRole s \<and>
        commit_rule (rlog s) (currentTerm s) (peers s) m lst (commitIndex s) (commitIndex t))"
  using advance_commit_correct [OF assms(1,2) refl assms(3) refl, of target] by (auto simp: Let_def)

theorem commit_rule_holds_witness:
  "\<exists>t. advance_commit 1 \<lparr>ae_term = 3, ae_leader_id = 0, ae_prev_log_index = 0, ae_prev_log_term = 0,
       ae_entries = rlog sample_leader, ae_leader_commit = 0\<rparr>
     \<lparr>sc_log_size = 2, sc_reply_counter = 1, sc_next_index = 1, sc_match_index = 0\<rparr> sample_leader = Some t \<and>
     commit_rule (rlog sample_leader) 3 [1, 2] ((matchIndex sample_leader)(1 \<mapsto> 2)) 2 0 (commitIndex t)"
proof -
  have i: "i64 1 = 1" by (simp add: i64_def)
  have "node_sane sample_leader"
    by (simp add: sample_leader_def Raft_new_def node_sane_def log_size_def in_i64_def)
  moreover have "int (length (peers sample_leader)) < 2 ^ 63" "length (rlog sample_leader) = 2"
    "currentTerm sample_leader = 3" "peers sample_leader = [1, 2]" "commitIndex sample_leader = 0"
    by (simp_all add: sample_leader_def Raft_new_def)
  ultimately show ?thesis
    using commit_rule_holds [of sample_leader
        "\<lparr>sc_log_size = 2, sc_reply_counter = 1, sc_next_index = 1, sc_match_index = 0\<rparr>"
        "\<lparr>ae_term = 3, ae_leader_id = 0, ae_prev_log_index = 0, ae_prev_log_term = 0,
          ae_entries = rlog sample_leader, ae_leader_commit = 0\<rparr>" 1]
    by (auto simp: log_size_def Let_def i)
qed

text \<open>
  C14. Results are applied in order and exactly once: in every reachable state the sequence of
  results a node has handed to its queue has the indices 1, 2, \<dots>, \<^verbatim>\<open>lastApplied\<close>, all valid.
\<close>

theorem applied_exactly_once:
  assumes "reachable cfgs c"
  shows "0 \<le> lastApplied (nodes c i) \<and>
    map ar_index (ready_queue (nodes c i)) = map u64 [1..lastApplied (nodes c i)] \<and>
    (\<forall>r \<in> set (ready_queue (nodes c i)). ar_valid r)"
  using reachable_applied_in_order [OF assms] by (simp add: applied_in_order_def)

theorem applied_exactly_once_witness:
  "\<exists>c. reachable (cfgs_of_size 3) c \<and> map ar_index (ready_queue (nodes c 0)) = map u64 [1..lastApplied (nodes c 0)] \<and>
     ready_queue (nodes c 0) \<noteq> []"
proof -
  obtain c where c: "reachable (cfgs_of_size 3) c" "applied_view c = [[(1, ''x''), (2, ''z'')], [(1, ''y'')], []]"
    using lost_commit_view by (rule view_reachable) simp
  have "members c = [0, 1, 2]" using members_invariant [OF c(1)] by (simp add: cfg_ids_3)
  with c(2) have "ready_queue (nodes c 0) \<noteq> []" by (auto simp: applied_view_def)
  with applied_exactly_once [OF c(1), of 0] c(1) show ?thesis by blast
qed

text \<open>
  C15. Applied results are never withdrawn or reordered: along any execution the sequence a node has
  handed over only grows at the end.
\<close>

theorem applied_append_only:
  assumes "execs evs c = Some c'"
  shows "\<exists>rs. ready_queue (nodes c' i) = ready_queue (nodes c i) @ rs \<and>
    lastApplied (nodes c' i) = lastApplied (nodes c i) + int (length rs)"
proof -
  obtain rs where rs: "ready_queue (nodes c' i) = ready_queue (nodes c i) @ rs"
    "map ar_index rs = map u64 [lastApplied (nodes c i) + 1..lastApplied (nodes c' i)]"
    and le: "lastApplied (nodes c i) \<le> lastApplied (nodes c' i)"
    using applied.execs_law [OF assms, of i] by (auto simp: apply_law_def)
  from rs(2) have "length rs = length [lastApplied (nodes c i) + 1..lastApplied (nodes c' i)]"
    by (metis length_map)
  with rs(1) le show ?thesis by auto
qed

theorem applied_append_only_witness:
  "\<exists>c rs. run_from_start 3 lost_commit = Some c \<and> ready_queue (nodes c 0) = [] @ rs \<and>
     lastApplied (nodes c 0) = int (length rs)"
proof -
  obtain c where c: "run_from_start 3 lost_commit = Some c"
    using lost_commit_view by (auto simp: view_def)
  let ?i = "init_cluster (cfgs_of_size 3) (\<lambda>_. Leader)"
  have start: "ready_queue (nodes ?i 0) = []" "lastApplied (nodes ?i 0) = 0"
    by (auto simp: nodes_init Raft_new_def split: option.split)
  from applied_append_only [OF c [unfolded run_from_start_def], of 0] c show ?thesis
    unfolding start by auto
qed

text \<open>
  C16. Terms never decrease, and a vote is never changed within its term: along any execution the
  term of a node only grows, and while it stays the vote is kept once cast.
\<close>

theorem vote_is_kept:
  assumes "execs evs c = Some c'"
  shows "currentTerm (nodes c i) \<le> currentTerm (nodes c' i) \<and>
    (currentTerm (nodes c' i) = currentTerm (nodes c i) \<longrightarrow> votedFor (nodes c i) \<noteq> -1 \<longrightarrow>
       votedFor (nodes c' i) = votedFor (nodes c i))"
  using votes.execs_law [OF assms, of i] by (auto simp: vote_law_def vote_step_def)

theorem vote_is_kept_witness:
  "\<exists>c. run_from_start 3 one_leader = Some c \<and>
     currentTerm (nodes (init_cluster (cfgs_of_size 3) (\<lambda>_. Leader)) 0) \<le> currentTerm (nodes c 0)"
proof -
  obtain c where c: "run_from_start 3 one_leader = Some c"
    using one_leader_view by (auto simp: view_def)
  with vote_is_kept [OF c [unfolded run_from_start_def], of 0] show ?thesis by blast
qed

section \<open>Replication on one node\<close>

text \<open>
  C17. The two loops of \<^verbatim>\<open>append_entries\<close> that erase a conflicting suffix and append the new entries
  compute the reference merge: the entries up to the probed index, then the longer of the agreeing
  parts, then the new entries from the first disagreement on. An old suffix that nothing contradicts
  is kept.
\<close>

theorem overwrite_equals_merge:
  assumes "0 \<le> st" "st \<le> int (length lg)" "int (length lg) < 2 ^ 63"
  shows "overwrite_log lg st es = Some (take (nat st) lg @ merge_suffix (drop (nat st) lg) es)"
  using overwrite_log_merge [OF assms] by (simp add: merge_log_def)

theorem overwrite_equals_merge_witness:
  "overwrite_log (rlog sample_leader) 1 (rlog sample_follower) =
     Some (take 1 (rlog sample_leader) @ merge_suffix (drop 1 (rlog sample_leader)) (rlog sample_follower))"
  using overwrite_equals_merge [of 1 "rlog sample_leader" "rlog sample_follower"]
  by (simp add: sample_leader_def)

text \<open>
  C18. The binary search of \<^verbatim>\<open>send_entries\<close> is right in tame executions (an odd cluster, no node whose
  uninitialised role reads \<^verbatim>\<open>Leader\<close>, logs below \<open>2 ^ 62\<close> entries): on the log of any node it
  finds the last index in the range that holds the conflicting term, and reports -1 exactly when
  there is none. (It relies on the log being sorted by term, C10.)
\<close>

theorem conflict_search_finds_last:
  assumes "tame cfgs c" "i \<in> set (members c)" "0 \<le> left" "right < log_size (nodes c i)"
  shows "\<exists>r. conflict_bsearch (rlog (nodes c i)) ct left right (-1) = Some r \<and>
    (if r = -1 then \<forall>k. left \<le> k \<and> k \<le> right \<longrightarrow> e_term (rlog (nodes c i) ! nat k) \<noteq> ct
     else left \<le> r \<and> r \<le> right \<and> e_term (rlog (nodes c i) ! nat r) = ct \<and>
       (\<forall>k. r < k \<and> k \<le> right \<longrightarrow> e_term (rlog (nodes c i) ! nat k) \<noteq> ct))"
proof -
  have "right < int (length (rlog (nodes c i)))" using assms(4) by (simp add: log_size_def)
  from conflict_bsearch_correct [OF tame_log(3) [OF assms(1,2)] assms(3) this, of ct "-1"]
  obtain r where "conflict_bsearch (rlog (nodes c i)) ct left right (-1) = Some r"
    "last_in_range (rlog (nodes c i)) ct left right (-1) r" by blast
  with assms(3) show ?thesis unfolding last_in_range_def by (intro exI [of _ r]) auto
qed

theorem conflict_search_finds_last_witness:
  "\<exists>c r. tame (cfgs_of_size 3) c \<and> conflict_bsearch (rlog (nodes c 0)) 1 0 0 (-1) = Some r"
proof -
  obtain c where c: "tame (cfgs_of_size 3) c" "members c = [0, 1, 2]"
    "rlog (nodes c 0) = [\<lparr>e_term = 1, e_command = ''x''\<rparr>]" by (rule replicated_tame)
  from conflict_search_finds_last [OF c(1), of 0 0 0 1] c show ?thesis by (auto simp: log_size_def)
qed

text \<open>
  C19. A request that fails the consistency check is rejected with correct conflict information, and
  the follower recognises the leader but keeps its log: for a log that is too short the conflict index
  is one past its end with term 0; otherwise the conflict term is the term the follower has at the
  probed index, and the conflict index is the first index of the run of that term.
\<close>

theorem append_rejects:
  assumes "active s" "currentTerm s \<le> ae_term r" "in_i64 (ae_prev_log_index r)" "\<not> prev_agrees r (rlog s)"
  shows "\<exists>t info. append_entries r s =
      Some (t, \<lparr>aer_term = ae_term r, aer_success = False, aer_conflict_info = Some info\<rparr>) \<and>
    conflict_report r (rlog s) info \<and> rlog t = rlog s \<and> commitIndex t = commitIndex s \<and>
    currentTerm t = ae_term r \<and> currentRole t = Follower"
  using append_entries_reject [OF assms] assms(2) by fastforce

theorem append_rejects_witness:
  "\<exists>t info. append_entries (sample_request 1) sample_follower =
      Some (t, \<lparr>aer_term = 3, aer_success = False, aer_conflict_info = Some info\<rparr>) \<and>
    conflict_report (sample_request 1) (rlog sample_follower) info \<and> rlog t = rlog sample_follower"
proof -
  have "active sample_follower" "currentTerm sample_follower \<le> ae_term (sample_request 1)"
    "in_i64 (ae_prev_log_index (sample_request 1))" "\<not> prev_agrees (sample_request 1) (rlog sample_follower)"
    by (simp_all add: sample_follower_def sample_request_def in_i64_def prev_agrees_def)
  from append_rejects [OF this] show ?thesis by (auto simp: sample_request_def)
qed

text \<open>
  C20. A request that passes the check is accepted: the log becomes the merge, and the commit index
  rises to the leader's, capped at the length of the new log.
\<close>

theorem append_accepts:
  assumes "active s" "currentTerm s \<le> ae_term r" "prev_agrees r (rlog s)" "node_sane s" "request_sane r s"
  shows "\<exists>t. append_entries r s =
      Some (t, \<lparr>aer_term = ae_term r, aer_success = True, aer_conflict_info = None\<rparr>) \<and>
    currentTerm t = ae_term r \<and> currentRole t = Follower \<and> rlog t = accepted_log r (rlog s) \<and>
    commitIndex t = (if ae_leader_commit r > commitIndex s
      then min (ae_leader_commit r) (log_size t) else commitIndex s)"
  using append_entries_accept [OF assms] by blast

theorem append_accepts_witness:
  "\<exists>t. append_entries (sample_request 0) sample_follower =
      Some (t, \<lparr>aer_term = 3, aer_success = True, aer_conflict_info = None\<rparr>) \<and>
    rlog t = accepted_log (sample_request 0) (rlog sample_follower)"
proof -
  have "active sample_follower" "currentTerm sample_follower \<le> ae_term (sample_request 0)"
    "prev_agrees (sample_request 0) (rlog sample_follower)" "node_sane sample_follower"
    "request_sane (sample_request 0) sample_follower"
    by (simp_all add: sample_follower_def sample_request_def in_i64_def prev_agrees_def node_sane_def
        request_sane_def log_size_def Raft_new_def)
  from append_accepts [OF this] show ?thesis by (auto simp: sample_request_def)
qed

section \<open>Guarantees the code breaks\<close>

text \<open>
  C21. State machine safety fails. The send threads of a former leader do not check that the node
  still leads, and stamp the request with the current term: in a cluster of three there is a reachable
  state in which node 0 has applied \<open>x\<close> and node 1 has applied \<open>y\<close> at the same index 1.
\<close>

theorem state_machine_safety_fails:
  "\<exists>c. reachable (cfgs_of_size 3) c \<and>
     map (\<lambda>r. (ar_index r, ar_data r)) (ready_queue (nodes c 0)) = [(1, ''x''), (2, ''z'')] \<and>
     map (\<lambda>r. (ar_index r, ar_data r)) (ready_queue (nodes c 1)) = [(1, ''y'')]"
proof -
  obtain c where c: "reachable (cfgs_of_size 3) c" "applied_view c = [[(1, ''x''), (2, ''z'')], [(1, ''y'')], []]"
    using lost_commit_view by (rule view_reachable) simp
  have "members c = [0, 1, 2]" using members_invariant [OF c(1)] by (simp add: cfg_ids_3)
  with c show ?thesis by (auto simp: applied_view_def)
qed

text \<open>
  C22. A false acknowledgement. There is a reachable state in which a client of \<^verbatim>\<open>propose_sync\<close> is
  about to be told that its command is committed at index 1 in term 1 by the leader, while that
  index of the node's log holds an entry of term 2 that replaced the command.
\<close>

theorem propose_sync_false_ack:
  "\<exists>c cv. reachable (cfgs_of_size 3) c \<and>
     TSyncWait cv 1 \<lparr>pr_index = Some 1, pr_term = Some 1, pr_is_leader = True\<rparr> True \<in> set (threads (nodes c 0)) \<and>
     snd (sync_wakeup cv 1 \<lparr>pr_index = Some 1, pr_term = Some 1, pr_is_leader = True\<rparr> (nodes c 0)) =
       Some \<lparr>pr_index = Some 1, pr_term = Some 1, pr_is_leader = True\<rparr> \<and>
     rlog (nodes c 0) = [\<lparr>e_term = 2, e_command = ''y''\<rparr>]"
proof -
  obtain c where c: "reachable (cfgs_of_size 3) c" and v: "sync_view c =
     ([TSyncWait 0 1 \<lparr>pr_index = Some 1, pr_term = Some 1, pr_is_leader = True\<rparr> True],
      [\<lparr>e_term = 2, e_command = ''y''\<rparr>],
      Some \<lparr>pr_index = Some 1, pr_term = Some 1, pr_is_leader = True\<rparr>)"
    using false_ack_view by (rule view_reachable) simp
  then have "filter is_sync (threads (nodes c 0)) =
      [TSyncWait 0 1 \<lparr>pr_index = Some 1, pr_term = Some 1, pr_is_leader = True\<rparr> True]"
    by (simp add: sync_view_def)
  then have "TSyncWait 0 1 \<lparr>pr_index = Some 1, pr_term = Some 1, pr_is_leader = True\<rparr> True \<in> set (threads (nodes c 0))"
    by (metis filter_is_subset list.set_intros(1) subsetD)
  with c v show ?thesis by (intro exI [of _ c] exI [of _ 0]) (auto simp: sync_view_def)
qed

text \<open>
  C23. A read past the end of the log. There is a reachable state in which a send thread of node 0 is
  waiting for the mutex and building its request is undefined: \<^verbatim>\<open>nextIndex\<close> points beyond the log
  that another leader has shortened.
\<close>

theorem send_reads_past_the_log:
  "\<exists>c. reachable (cfgs_of_size 3) c \<and> TAppendSend 1 \<in> set (threads (nodes c 0)) \<and>
     build_append_request 1 (nodes c 0) = None"
proof -
  obtain c where "reachable (cfgs_of_size 3) c" "send_view c = (True, True)"
    using stale_next_index_view by (rule view_reachable) simp
  then show ?thesis by (auto simp: send_view_def)
qed

section \<open>Election: specification and bounds\<close>

text \<open>
  C24. The cluster implements the abstract election. Forgetting everything but the votes cast and the
  terms won maps every reachable state of the cluster to a reachable state of the specification, in
  which a member casts at most one vote per term and a term is won with the votes of a quorum.
\<close>

theorem cluster_implements_ballot:
  assumes "reachable cfgs c"
  shows "reach ballot_init (ballot_step (cfg_id ` set cfgs)) (ballot_of c)"
  by (rule ballot_sim.implements [OF assms])

theorem cluster_implements_ballot_witness:
  "\<exists>c. reachable (cfgs_of_size 3) c \<and> winners (ballot_of c) \<noteq> {} \<and>
     reach ballot_init (ballot_step (cfg_id ` set (cfgs_of_size 3))) (ballot_of c)"
proof -
  obtain c where c: "reachable (cfgs_of_size 3) c" "leader_view c = [(0, 1)]"
    using one_leader_view by (rule view_reachable) simp
  have "(0, 1) \<in> set (leader_view c)" using c(2) by simp
  then have "(1, 0) \<in> elected c"
    using recorded.always [OF c(1)] by (auto simp: leader_view_def leaders_recorded_def)
  then have "winners (ballot_of c) \<noteq> {}" by (auto simp: ballot_of_def)
  with cluster_implements_ballot [OF c(1)] c(1) show ?thesis by blast
qed

text \<open>
  C25. Terms are bounded by elections: the term of a node is at most the number of times any node has
  become a candidate, so the \<^verbatim>\<open>int64_t\<close> term cannot overflow in fewer than \<open>2 ^ 63\<close> elections.
\<close>

theorem terms_bounded:
  assumes "reachable cfgs c" "i \<in> set (members c)"
  shows "0 \<le> currentTerm (nodes c i) \<and> currentTerm (nodes c i) \<le> int (elections c)"
  using terms.always [OF assms(1)] assms(2) by (auto simp: term_inv_def term_ok_def)

theorem terms_bounded_witness:
  "\<exists>c. reachable (cfgs_of_size 3) c \<and> currentTerm (nodes c 0) = 1 \<and> currentTerm (nodes c 0) \<le> int (elections c)"
proof -
  obtain c where c: "reachable (cfgs_of_size 3) c" "leader_view c = [(0, 1)]"
    using one_leader_view by (rule view_reachable) simp
  have "members c = [0, 1, 2]" using members_invariant [OF c(1)] by (simp add: cfg_ids_3)
  moreover have "(0, 1) \<in> set (leader_view c)" using c(2) by simp
  then have "currentTerm (nodes c 0) = 1" by (auto simp: leader_view_def)
  ultimately show ?thesis using terms_bounded [OF c(1), of 0] c(1) by auto
qed

section \<open>Configurations\<close>

section \<open>The message queue\<close>

text \<open>
  C26. The queue is a bounded FIFO channel: under every interleaving of producers, consumers and
  wake-ups, the values the consumers have got, followed by the values stored, are the values pushed,
  in order; and the queue never holds more than its capacity (one value when it is unbuffered).
\<close>

theorem channel_fifo:
  assumes "mq_reachable n m"
  shows "pushed m = map the (filter (\<lambda>r. r \<noteq> None) (taken m)) @ queue m \<and> mq_size m \<le> max 1 n"
  using mq.fifo.always [OF assms] returned.always [OF assms] capacity.always [OF assms]
  by (auto simp: within_capacity_def mq_size_def)

theorem channel_fifo_witness:
  "\<exists>m :: int mqueue. mq_reachable 1 m \<and> taken m = [Some 1] \<and>
     pushed m = map the (filter (\<lambda>r. r \<noteq> None) (taken m)) @ queue m"
proof -
  have "mq_reachable 1 (MessageQueue 1)" by (rule reach.start) simp
  from mq_reachable_qexecs [OF this forgotten_producer_run] channel_fifo show ?thesis by fastforce
qed

text \<open>
  C27. No lost wake-up: when the clients use \<^verbatim>\<open>enqueue\<close>, \<^verbatim>\<open>dequeue\<close> and \<^verbatim>\<open>close\<close>, a thread that sleeps
  and has not been notified has nothing to do: its wait condition is false.
\<close>

theorem channel_wakeups:
  assumes "reach (\<lambda>m. m = MessageQueue n) blocking_step m" "(w, False) \<in> set (waiters m)"
  shows "\<not> wait_pred w m"
  using awake.always [OF assms(1)] assms(2) by (auto simp: no_lost_wakeup_def)

theorem channel_wakeups_witness:
  "blocking_step (MessageQueue 0) (dequeue (MessageQueue 0 :: int mqueue)) \<and>
   \<not> wait_pred PopWait (dequeue (MessageQueue 0 :: int mqueue))"
proof -
  let ?m = "dequeue (MessageQueue 0 :: int mqueue)"
  have step: "blocking_step (MessageQueue 0) ?m"
    unfolding blocking_step_def by (intro exI [of _ Dequeue]) simp
  have "reach (\<lambda>m. m = MessageQueue 0) blocking_step ?m"
    using step by (blast intro: reach.intros)
  moreover have "(PopWait, False) \<in> set (waiters ?m)" by (simp add: mq_defs MessageQueue_def)
  ultimately show ?thesis using channel_wakeups step by blast
qed

text \<open>
  C28. \<^verbatim>\<open>try_dequeue\<close> breaks this: it frees a place and notifies nobody. A queue of capacity one has a
  reachable state in which it is empty, open, and a producer that could go on sleeps without having
  been notified, and a consumer that only calls \<^verbatim>\<open>try_dequeue\<close>, however often, leaves it there: only a
  \<^verbatim>\<open>dequeue\<close>, a \<^verbatim>\<open>close\<close> or a spurious wake-up gets it going again.
\<close>

theorem try_dequeue_forgets_producer:
  "\<exists>m :: int mqueue. mq_reachable 1 m \<and>
     (\<forall>n. \<exists>m'. qexecs (replicate n TryDequeue) m = Some m' \<and> mq_empty m' \<and> \<not> MsgQueue.closed m' \<and>
        (PushWait 2, False) \<in> set (waiters m') \<and> wait_pred (PushWait 2) m')"
proof -
  have start: "mq_reachable 1 (MessageQueue 1)" by (rule reach.start) simp
  have stays: "\<exists>m'. qexecs (replicate n TryDequeue) m = Some m' \<and> mq_empty m' \<and> \<not> MsgQueue.closed m' \<and>
      (PushWait 2, False) \<in> set (waiters m') \<and> wait_pred (PushWait 2) m'"
    if "mq_empty m" "\<not> MsgQueue.closed m" "(PushWait 2, False) \<in> set (waiters m)" "wait_pred (PushWait 2) m" for n and m :: "int mqueue"
    using that
  proof (induction n arbitrary: m)
    case (Suc n)
    have "try_dequeue m = m\<lparr>taken := taken m @ [None]\<rparr>" using Suc.prems(1) by (simp add: try_dequeue_def mq_empty_def)
    then show ?case using Suc.IH [of "try_dequeue m"] Suc.prems by (simp add: mq_empty_def split: if_splits)
  qed simp
  define m :: "int mqueue" where "m = \<lparr>buffer_size = 1, closed = False, queue = [], waiters = [(PushWait 2, False)],
      pushed = [1], popped = [1], taken = [Some 1]\<rparr>"
  have "mq_reachable 1 m" using mq_reachable_qexecs [OF start forgotten_producer_run] by (simp add: m_def)
  moreover have "mq_empty m" "\<not> MsgQueue.closed m" "(PushWait 2, False) \<in> set (waiters m)" "wait_pred (PushWait 2) m"
    by (simp_all add: m_def mq_empty_def)
  ultimately show ?thesis using stays by blast
qed

text \<open>
  C29. A closed queue delivers nothing: whatever blocking calls and wake-ups follow, it stays closed,
  stores no new value and hands out none of the values it still holds.
\<close>

theorem closed_channel_delivers_nothing:
  assumes "qexecs evs (mq_close m) = Some m'" "TryDequeue \<notin> set evs"
  shows "MsgQueue.closed m' \<and> queue m' = queue m \<and> pushed m' = pushed m \<and> popped m' = popped m"
proof -
  have "MsgQueue.closed (mq_close m)" "queue (mq_close m) = queue m" "pushed (mq_close m) = pushed m"
    "popped (mq_close m) = popped m"
    by (simp_all add: mq_close_def notify_con_def notify_prod_def)
  with closed_execs [OF assms(1) _ assms(2)] show ?thesis by simp
qed

theorem closed_channel_delivers_nothing_witness:
  "\<exists>m'. qexecs [Dequeue, Enqueue 2] (mq_close (enqueue (1 :: int) (MessageQueue 1))) = Some m' \<and>
     taken m' = [None] \<and> queue m' = [1]"
proof -
  let ?m = "enqueue (1 :: int) (MessageQueue 1)"
  obtain m' where m': "qexecs [Dequeue, Enqueue 2] (mq_close ?m) = Some m'" "taken m' = [None]"
    by (simp add: mq_defs MessageQueue_def Let_def)
  have "queue ?m = [1]" by (simp add: mq_defs MessageQueue_def Let_def)
  with m' closed_channel_delivers_nothing [OF m'(1)] show ?thesis by auto
qed

section \<open>Fault injection and monitoring\<close>

text \<open>
  C30. Fault injection from the keyboard of the multi-node program to the calls between the nodes. With \<open>n\<close>
  nodes started by the controller, the lines \<open>r\<close> and \<open>dis\<close> \<open>ids\<close> leave the program reading, and a call from
  one node to another goes through: in failure mode exactly when neither end is disconnected, in partition mode
  exactly when both or neither are.
\<close>

theorem injected_faults_are_exact:
  assumes "absl_strings (dr_split env) join atoi" "nodes_up env n ft vb" "2 \<le> n"
    and "ids \<noteq> []" "\<forall>i \<in> set ids. 0 \<le> i \<and> i < 2 ^ 64"
    and "typed env strip [''r''] l0" "typed env strip (''dis'' # map to_string ids) l1"
    and "i \<in> {0..<n}" "k \<in> {0..<n}"
  shows "snd (multi_main env n ft vb strip (\<lambda>_ _. Served) [l0, l1]) = None \<and>
    (call_passes (fst (multi_main env n ft vb strip (\<lambda>_ _. Served) [l0, l1])) i k \<longleftrightarrow>
      (if u8 ft = 1 then i \<in> set ids \<longleftrightarrow> k \<in> set ids else i \<notin> set ids \<and> k \<notin> set ids))"
proof -
  obtain c s1 where main: "multi_main env n ft vb strip (\<lambda>_ _. Served) [l0, l1] = (fst (ctrl_disconnect (\<lambda>_. Served) ids c s1), None)"
    and c: "distinct (c_nodes c)" "set (c_nodes c) = {0..<n}" "\<forall>i \<in> {0..<n}. joined n (u8 ft) i (sys_proc s1 i)"
    by (rule typed_session [OF assms(1-7)])
  have "\<forall>i \<in> set ids. 0 \<le> i" using assms(5) by blast
  from disconnected_calls [OF c this assms(8,9)] show ?thesis unfolding main by simp
qed

theorem injected_faults_are_exact_witness:
  "\<not> call_passes (fst (multi_main (sample_driver 1) 3 1 1 (\<lambda>l. l) (\<lambda>_ _. Served) [''r'', ''dis 2''])) 0 2 \<and>
   call_passes (fst (multi_main (sample_driver 1) 3 1 1 (\<lambda>l. l) (\<lambda>_ _. Served) [''r'', ''dis 2''])) 0 1"
proof -
  have two: "to_string 2 = ''2''" by code_simp
  have t: "typed (sample_driver 1) (\<lambda>l. l) [''r''] ''r''"
    "typed (sample_driver 1) (\<lambda>l. l) (''dis'' # map to_string [2]) ''dis 2''"
    by (simp_all add: typed_def sample_driver_def two)
  note exact = injected_faults_are_exact [OF sample_absl sample_up _ _ _ t]
  show ?thesis using exact [of 0 2] exact [of 0 1] by (simp add: u8_def)
qed

text \<open>
  C31. \<open>conn\<close> undoes \<open>dis\<close>: after the further line \<open>conn\<close> \<open>ids\<close> every call of every node goes through again,
  whatever the failure mode.
\<close>

theorem reconnect_restores:
  assumes "absl_strings (dr_split env) join atoi" "nodes_up env n ft vb" "2 \<le> n"
    and "ids \<noteq> []" "\<forall>i \<in> set ids. 0 \<le> i \<and> i < 2 ^ 64"
    and "typed env strip [''r''] l0" "typed env strip (''dis'' # map to_string ids) l1"
      "typed env strip (''conn'' # map to_string ids) l2"
    and "i \<in> {0..<n}"
  shows "snd (multi_main env n ft vb strip (\<lambda>_ _. Served) [l0, l1, l2]) = None \<and>
    call_passes (fst (multi_main env n ft vb strip (\<lambda>_ _. Served) [l0, l1, l2])) i k"
proof -
  obtain c s1 where main: "\<And>l2. typed env strip (''conn'' # map to_string ids) l2 \<Longrightarrow>
      multi_main env n ft vb strip (\<lambda>_ _. Served) [l0, l1, l2] =
      (fst (ctrl_reconnect (\<lambda>_. Served) ids c (fst (ctrl_disconnect (\<lambda>_. Served) ids c s1))), None)"
    and c: "distinct (c_nodes c)" "set (c_nodes c) = {0..<n}" "\<forall>i \<in> {0..<n}. joined n (u8 ft) i (sys_proc s1 i)"
    by (rule typed_session [OF assms(1-7)]) blast
  show ?thesis unfolding main [OF assms(8)] using reconnected_calls [OF c assms(9)] by simp
qed

theorem reconnect_restores_witness:
  "call_passes (fst (multi_main (sample_driver 0) 3 0 1 (\<lambda>l. l) (\<lambda>_ _. Served) [''r'', ''dis 2'', ''conn 2''])) 0 2"
proof -
  have two: "to_string 2 = ''2''" by code_simp
  have t: "typed (sample_driver 0) (\<lambda>l. l) [''r''] ''r''"
    "typed (sample_driver 0) (\<lambda>l. l) (''dis'' # map to_string [2]) ''dis 2''"
    "typed (sample_driver 0) (\<lambda>l. l) (''conn'' # map to_string [2]) ''conn 2''"
    by (simp_all add: typed_def sample_driver_def two)
  show ?thesis using reconnect_restores [OF sample_absl sample_up _ _ _ t, of 0 2] by simp
qed

section \<open>From the node to the tester\<close>

text \<open>
  C32. End to end: whatever the cluster does and however the queue between a node and its applier
  is scheduled, the applier loop streams the results the consumer has got completely and in order,
  with the indices 1, 2, 3, \<dots>.
\<close>

theorem stream_is_ordered:
  assumes "reachable cfgs c" "mq_reachable n q" "prefix (pushed q) (ready_queue (nodes c i))"
  shows "applier w (map (\<lambda>r. (False, r, False)) (popped q)) = (map (apply_message w) (popped q), True) \<and>
    map ar_index (popped q) = map u64 [1..int (length (popped q))]"
  using stream_in_order [OF assms] by blast

theorem stream_is_ordered_witness:
  "\<exists>c (q :: apply_result mqueue). reachable (cfgs_of_size 3) c \<and> pushed q = take 1 (ready_queue (nodes c 0)) \<and> length (popped q) = 1 \<and>
     map ar_index (popped q) = [1]"
proof -
  obtain c where c: "reachable (cfgs_of_size 3) c" "applied_view c = [[(1, ''x''), (2, ''z'')], [(1, ''y'')], []]"
    using lost_commit_view by (rule view_reachable) simp
  have "members c = [0, 1, 2]" using members_invariant [OF c(1)] by (simp add: cfg_ids_3)
  with c(2) obtain r rs where r: "ready_queue (nodes c 0) = r # rs" by (auto simp: applied_view_def)
  define q where "q = dequeue (enqueue r (MessageQueue 1))"
  have "mq_reachable 1 (MessageQueue 1)" by (rule reach.start) simp
  then have "mq_reachable 1 q" by (rule mq_reachable_qexecs [of _ _ "[Enqueue r, Dequeue]"]) (simp add: q_def)
  moreover have q: "pushed q = [r]" "popped q = [r]" by (simp_all add: q_def mq_defs MessageQueue_def Let_def)
  ultimately have "map ar_index (popped q) = map u64 [1..int (length (popped q))]"
    using stream_is_ordered [OF c(1), of 1 q 0] r by (auto simp: prefix_def)
  then have "ar_index r = 1" using q by (simp add: u64_id)
  then show ?thesis using q r c(1) by (intro exI [of _ c] exI [of _ q]) simp
qed

text \<open>
  C33. The harness accepts a fenced cluster: when the servers of a fenced execution stream prefixes of what their
  nodes have applied, in any interleaving, no error is ever recorded, and \<^verbatim>\<open>n_committed\<close> finds at every index the
  servers that have streamed it, all with the same value.
\<close>

theorem harness_accepts_fenced_clusters:
  assumes "fenced cfgs c" "distinct ids" "int (length evs) < 2 ^ 63"
    and "\<And>i. prefix (stream_of i evs) (ready_queue (nodes c i))" "\<forall>ev \<in> set evs. fst ev \<in> set (members c)"
    and "1 \<le> k" "int (length ids) < 2 ^ 64"
  shows "happly_err (feed evs (harness_begin ids)) i = None \<and> \<not> hfailed (feed evs (harness_begin ids)) \<and>
    (\<exists>d. n_committed ids k (feed evs (harness_begin ids)) =
        (feed evs (harness_begin ids), Some (int (length (filter (\<lambda>i. k \<le> int (length (stream_of i evs))) ids)), d)) \<and>
      list_all (\<lambda>i. k \<le> int (length (stream_of i evs)) \<longrightarrow> ar_data (stream_of i evs ! nat (k - 1)) = d) ids)"
proof -
  have ex: "exact evs (feed evs (harness_begin ids))" by (rule harness_follows_fenced [OF assms(1-5)])
  from exact_n_committed [OF ex assms(6,7) fenced_streams_agree [OF assms(1,4,5)]] show ?thesis
    using ex unfolding exact_def list_all_iff by blast
qed

theorem harness_accepts_fenced_clusters_witness:
  "\<exists>c evs. fenced (cfgs_of_size 3) c \<and> length evs = 3 \<and>
     n_committed [0, 1, 2] 1 (feed evs (harness_begin [0, 1, 2])) = (feed evs (harness_begin [0, 1, 2]), Some (2, ''x''))"
proof -
  obtain c where c: "fenced (cfgs_of_size 3) c" "members c = [0, 1, 2]"
    "map ar_data (ready_queue (nodes c 0)) = [''x'']" "map ar_data (ready_queue (nodes c 1)) = [''x'', ''y'']"
    by (rule two_terms_fenced)
  obtain p where p: "ready_queue (nodes c 0) = [p]" "ar_data p = ''x''" using c(3) by auto
  obtain q r where q: "ready_queue (nodes c 1) = [q, r]" using c(4) by auto
  let ?evs = "[(0, p), (1, q), (1, r)]"
  have streams: "stream_of i ?evs = (if i = 0 then [p] else if i = 1 then [q, r] else [])" for i
    by (simp add: stream_of_def)
  have "prefix (stream_of i ?evs) (ready_queue (nodes c i))" for i using p q by (simp add: streams)
  from harness_accepts_fenced_clusters [OF c(1) _ _ this, of "[0, 1, 2]" 1] c(2) p(2)
  have "n_committed [0, 1, 2] 1 (feed ?evs (harness_begin [0, 1, 2])) = (feed ?evs (harness_begin [0, 1, 2]), Some (2, ''x''))"
    by (auto simp: streams)
  with c(1) show ?thesis by (intro exI [of _ c] exI [of _ ?evs]) simp
qed

text \<open>
  C34. \<^verbatim>\<open>one\<close> tells the truth, and ends unless a call does not. Its calls have no deadline; whatever the nodes and the
  other threads do while it sleeps and while it waits for answers, if sleeps take time and time does not run
  backwards, it returns, throws, or waits for ever for an answer, and the last only if some call never returns. If
  sleeps are at most \<open>slack\<close> too long, and a round of calls takes at most \<open>delay\<close> to reach the nodes and \<open>delay\<close> to
  answer, this happens within 30.05 seconds, one \<open>slack\<close> and two \<open>delay\<close>s. It never returns \<^verbatim>\<open>nullopt\<close>, and an index it
  returns is one at which \<^verbatim>\<open>n_committed\<close> finds the command at the expected number of servers.
\<close>

theorem one_returns_agreement:
  assumes "takes_time sleep" "no_sooner calling"
  shows "\<exists>m1 v. one sleep calling fate c raft_ids conn data k retry m = Some (m1, v) \<and>
    (answered calling \<longrightarrow> v \<noteq> Stuck) \<and>
    (punctual slack sleep \<and> 0 \<le> slack \<and> takes_at_most delay calling \<and> 0 \<le> delay \<longrightarrow>
      m_now m1 < m_now m + 30050 + slack + 2 * delay) \<and> v \<noteq> Got None \<and>
    (\<forall>index. v = Got (Some index) \<longrightarrow>
      (\<exists>num. n_committed raft_ids index (m_harness m1) = (m_harness m1, Some (num, data)) \<and> 0 < num \<and> k \<le> num))"
proof -
  obtain m1 v where r: "one sleep calling fate c raft_ids conn data k retry m = Some (m1, v)"
    "\<And>r. v = Got r \<Longrightarrow> \<exists>index num. r = Some index \<and>
       count_committed raft_ids index m1 = (m1, Some (num, data)) \<and> 0 < num \<and> k \<le> num"
    "answered calling \<Longrightarrow> v \<noteq> Stuck"
    "in_time slack delay sleep calling \<Longrightarrow> m_now m1 < m_now m + 30050 + slack + 2 * delay"
    using one_result [OF assms] by metis
  have "v \<noteq> Got None" using r(2) by fastforce
  with r show ?thesis unfolding count_committed_eq in_time_def by fastforce
qed

theorem one_returns_agreement_witness:
  "\<exists>m1 num. one tick Some (\<lambda>_ _. Served) leading_ctrl [0] [(0, True)] ''x'' 1 False leading_moment = Some (m1, Got (Some 1)) \<and>
     m_now m1 < m_now leading_moment + 30050 \<and>
     n_committed [0] 1 (m_harness m1) = (m_harness m1, Some (num, ''x'')) \<and> 1 \<le> num"
  using one_returns_agreement [OF tick_time(1) prompt_calls(1), of "\<lambda>_ _. Served" leading_ctrl "[0]" "[(0, True)]" "''x''" 1
      False leading_moment 0 0] tick_time(2) prompt_calls leading_agrees by auto

text \<open>
  C35. The leader check does not fail on a correct cluster, unless a node changes its term while it is asked. The
  started nodes of a cluster of odd size are asked one after the other, while it keeps running, and
  \<^verbatim>\<open>get_state\<close> reads the term and then the role of a node without its mutex, at two moments: if every node is in one
  term at both, \<^verbatim>\<open>check_one_leader\<close> never finds two leaders in a term.
\<close>

theorem leader_check_passes:
  assumes "reachable cfgs c" "odd (length cfgs)" "\<And>p. p \<in> set polls \<Longrightarrow> poll_ok cfgs c p \<and> poll_whole p"
    and "distinct (map polled polls)"
  shows "check_leaders (map poll_state polls) \<noteq> Some (TooMany T)"
  by (rule polls_never_two_leaders [OF assms])

theorem leader_check_passes_witness:
  "\<exists>p. ts_is_leader (poll_state p) \<and> check_leaders [poll_state p] \<noteq> Some (TooMany 1)"
proof -
  obtain c where c: "reachable (cfgs_of_size 3) c" "leader_view c = [(0, 1)]" "elections c = 1"
    using one_leader_counted by (rule view_reachable) auto
  have m: "members c = [0, 1, 2]" using members_invariant [OF c(1)] by (simp add: cfg_ids_3)
  have "(0, 1) \<in> set (leader_view c)" using c(2) by simp
  then have lead: "active (nodes c 0)" "currentRole (nodes c 0) = Leader" by (auto simp: leader_view_def)
  define p where "p = (c, c, 0 :: u64_t, (RaftWrapper_ctrl (hd (cfgs_of_size 3)) Follower (MessageQueue 0))\<lparr>wid := Some 0\<rparr>)"
  have "execs [] c = Some c" by simp
  then have "poll_ok (cfgs_of_size 3) c p \<and> poll_whole p"
    using c lead m unfolding poll_ok_def poll_whole_def p_def by (auto simp del: execs.simps intro!: exI [of _ "[]"])
  moreover have "odd (length (cfgs_of_size 3))" using arg_cong [OF cfg_ids_3, of length] by simp
  ultimately have "check_leaders [poll_state p] \<noteq> Some (TooMany 1)"
    using leader_check_passes [OF c(1), of "[p]" 1] by simp
  moreover have "ts_is_leader (poll_state p)" by (simp add: p_def poll_state_def GetState_def get_state_def Let_def lead)
  ultimately show ?thesis by blast
qed

text \<open>
  A torn read can fail it: the leader of term 1, asked while it learns of term 2, is reported as a second leader of
  term 2.
\<close>

lemma torn_read_two_leaders:
  "\<exists>c polls. reachable (cfgs_of_size 3) c \<and> list_all (poll_ok (cfgs_of_size 3) c) polls \<and> distinct (map polled polls) \<and>
     check_leaders (map poll_state polls) = Some (TooMany 2)"
proof -
  obtain d where d: "reachable (cfgs_of_size 3) d"
    and v: "torn_view d = ([(0, 1), (1, 2)], 2, Some ([(1, 2)], 2, 2, True))"
    using torn_read_view by (rule view_reachable) simp
  then obtain c where c: "exec (EvDeliver 0) d = Some c" "leader_view c = [(1, 2)]" "elections c = 2"
    "currentTerm (nodes c 0) = 2" "active (nodes c 0)" and ld: "leader_view d = [(0, 1), (1, 2)]" "elections d = 2"
    by (auto simp: torn_view_def)
  have later: "execs [EvDeliver 0] d = Some c" "execs [] c = Some c" using c(1) by simp_all
  have rc: "reachable (cfgs_of_size 3) c" using reachable_execs [OF d later(1)] .
  have m: "members d = [0, 1, 2]" "members c = [0, 1, 2]"
    using members_invariant [OF d] members_invariant [OF rc] by (simp_all add: cfg_ids_3)
  have "(0, 1) \<in> set (leader_view d)" "(1, 2) \<in> set (leader_view c)" using ld(1) c(2) by simp_all
  then have lead: "active (nodes d 0)" "currentRole (nodes d 0) = Leader" "active (nodes c 1)" "currentRole (nodes c 1) = Leader"
    "currentTerm (nodes c 1) = 2" by (auto simp: leader_view_def)
  define w where "w i = (RaftWrapper_ctrl (hd (cfgs_of_size 3)) Follower (MessageQueue 0))\<lparr>wid := Some i\<rparr>" for i
  let ?polls = "[(c, d, 0, w 0), (c, c, 1, w 1)]"
  have "list_all (poll_ok (cfgs_of_size 3) c) ?polls"
    using d rc c(3,5) ld(2) lead m later unfolding poll_ok_def w_def
    by (auto simp del: execs.simps intro: exI [of _ "[]"] exI [of _ "[EvDeliver 0]"])
  moreover have "check_leaders (map poll_state ?polls) = Some (TooMany 2)"
    using lead c(4) by (simp add: check_leaders_def poll_state_def GetState_def get_state_def leaders_by_term_def w_def u64_id)
  moreover have "distinct (map polled ?polls)" by (simp add: polled_def)
  ultimately show ?thesis using rc by blast
qed

section \<open>The command-line programs\<close>

text \<open>
  C36. A driver's cluster starts. For the configurations a driver builds and any interleaving of spawning and
  reports in which only spawned nodes report, constructing the controller fails only if its port is taken (it then
  uses a server that is null) or if a call of \<^verbatim>\<open>std::system\<close> returns -1 (it then exits with code 1). Otherwise it
  returns exactly when all \<open>n\<close> nodes have reported; then every node has a stub for its own tester port, a thread that
  reads its results, and was spawned with its own command.
\<close>

theorem cluster_starts:
  assumes "absl_strings (dr_split env) join atoi"
    and "genuine {} (fst (driver_setup (gen_local_instances n 50050))) (dr_evs env)"
    and "hash_order (snd (driver_setup (gen_local_instances n 50050))) (dr_order env)"
  shows "if \<not> dr_listens env ''0.0.0.0:55000'' then driver_ctrl env n ft vb = NullServer
    else if shell_failed (dr_evs env) then driver_ctrl env n ft vb = ExitProcess 1
    else \<exists>r. driver_ctrl env n ft vb = Done r \<and> (r \<noteq> None \<longleftrightarrow> {0..<n} \<subseteq> reported (dr_evs env)) \<and>
      (case r of None \<Rightarrow> True
       | Some c \<Rightarrow> c_nodes c = dr_order env \<and> c_apply c = dr_order env \<and> set (c_nodes c) = {0..<n} \<and>
           list_all (\<lambda>cfg. map_of (c_threads c) (cfg_id cfg) =
               Some (command_of (dr_split env) (ctrl_command ''./node'' ''0.0.0.0:55000'' (u8 ft) (u8 vb))
                       (snd (driver_setup (gen_local_instances n 50050))) cfg) \<and>
               c_addrs c (cfg_id cfg) = Some (''localhost:'' @ to_string (55001 + cfg_id cfg)))
             (fst (driver_setup (gen_local_instances n 50050))))"
proof -
  have "set (dr_order env) = {0..<n}" using assms(3) by (simp add: driver_order [OF assms(1)])
  with driver_ctrl_outcome [OF assms, of ft vb] show ?thesis
    by (fastforce simp: list_all_iff driver_commands_def split: option.split)
qed

theorem cluster_starts_witness:
  "\<exists>c. driver_ctrl (sample_driver 0) 3 0 1 = Done (Some c) \<and> c_nodes c = [2, 0, 1]"
proof -
  have up: "{0..<3} \<subseteq> reported (dr_evs (sample_driver 0))" "\<not> shell_failed (dr_evs (sample_driver 0))"
    "dr_listens (sample_driver 0) ''0.0.0.0:55000''" "distinct (dr_order (sample_driver 0))"
    "set (dr_order (sample_driver 0)) = {0..<3}"
    using sample_up [of 0] by (auto simp: nodes_up_def)
  then have "hash_order (snd (driver_setup (gen_local_instances 3 50050))) (dr_order (sample_driver 0))"
    by (simp add: driver_order [OF sample_absl])
  from cluster_starts [OF sample_absl sample_genuine this, of 0 1] up(1-3) obtain r where
    "driver_ctrl (sample_driver 0) 3 0 1 = Done r" "r \<noteq> None"
    "case r of None \<Rightarrow> True | Some c \<Rightarrow> c_nodes c = dr_order (sample_driver 0)"
    by (fastforce split: option.splits)
  then show ?thesis by (auto simp: sample_driver_def)
qed

text \<open>
  C37. A spawned node gets its configuration: the words of the command with which the controller spawns node \<open>i\<close>
  parse to the flags that say its id, the port it listens on, the addresses of its peers, the failure type, the
  verbosity and its tester port, and \<^verbatim>\<open>main\<close> makes of them a configuration with the same id and peers and a world of all
  \<open>n\<close> nodes. This holds for the ids below 15486: from there on the port does not fit into the \<^verbatim>\<open>uint16_t\<close> of its flag
  and the node exits while it parses. The Abseil functions are assumed to split, join and parse as documented.
\<close>

theorem spawned_nodes_get_their_configuration:
  assumes "absl_strings split join atoi" "absl_numbers num"
    and "cfg \<in> set (fst (driver_setup (gen_local_instances n 50050)))" "2 \<le> n" "n \<le> 2 ^ 64"
    and "ws = split (command_of split (ctrl_command ''./node'' ''0.0.0.0:55000'' (u8 ft) (u8 vb))
                       (snd (driver_setup (gen_local_instances n 50050))) cfg) (CHR '' '')"
  shows "parse_node_flags split atoi num (spawned_args ws) =
      (if cfg_id cfg < 15486
       then Some \<lparr>nf_id = cfg_id cfg, nf_port = 50050 + cfg_id cfg, nf_peers = cfg_peer_addrs cfg,
          nf_verbosity = u8 vb, nf_fail_type = u8 ft, nf_enable_ctrl = True,
          nf_ctrl_addr = ''0.0.0.0:55000'', nf_tester_port = 55001 + cfg_id cfg\<rparr>
       else None) \<and>
    cfg_addr cfg = ''localhost:'' @ to_string (u64 (50050 + cfg_id cfg)) \<and>
    (\<exists>cfg'. node_setup (cfg_id cfg) (50050 + cfg_id cfg) (cfg_peer_addrs cfg) = Inr (cfg', to_string ` {0..<n}) \<and>
       cfg_id cfg' = cfg_id cfg \<and> cfg_peer_addrs cfg' = cfg_peer_addrs cfg)"
proof -
  have u8: "0 \<le> u8 x" for x by (simp add: u8_def)
  have "ws = command_words ''./node'' ''0.0.0.0:55000'' (u8 ft) (u8 vb) cfg (to_string (u64 (50050 + cfg_id cfg))) (55001 + cfg_id cfg)"
    unfolding assms(6) by (rule spawned_words [OF assms(1,3)]) (use u8 in simp_all)
  note flags = spawned_flags [OF assms(1-5) this]
  let ?fl = "flags_of n ft vb (cfg_id cfg)"
  have peers: "nf_peers ?fl = cfg_peer_addrs cfg" by (rule flags_of_setup(1) [OF assms(3,4) refl])
  then have fl: "?fl = \<lparr>nf_id = cfg_id cfg, nf_port = 50050 + cfg_id cfg, nf_peers = cfg_peer_addrs cfg,
      nf_verbosity = u8 vb, nf_fail_type = u8 ft, nf_enable_ctrl = True,
      nf_ctrl_addr = ''0.0.0.0:55000'', nf_tester_port = 55001 + cfg_id cfg\<rparr>" by (simp add: flags_of_def)
  show ?thesis
    using flags flags_of_setup(2) [OF assms(3,4) refl, of ft vb] driver_config(3) [OF assms(3)] unfolding fl by simp
qed

theorem spawned_nodes_get_their_configuration_witness:
  "\<exists>cfg. cfg \<in> set (fst (driver_setup (gen_local_instances 3 50050))) \<and> cfg_id cfg = 1 \<and>
     map_option nf_port (parse_node_flags split_on atoi_decimal num_decimal (spawned_args (split_on (command_of split_on
       (ctrl_command ''./node'' ''0.0.0.0:55000'' 0 1) (snd (driver_setup (gen_local_instances 3 50050))) cfg) (CHR '' '')))) =
     Some 50051"
proof -
  let ?cfgs = "fst (driver_setup (gen_local_instances 3 50050))"
  have "1 \<in> set (map cfg_id ?cfgs)" unfolding driver_ids by simp
  then obtain cfg where cfg: "cfg \<in> set ?cfgs" "cfg_id cfg = 1" by auto
  then show ?thesis
    using spawned_nodes_get_their_configuration [OF absl_instance numbers_instance cfg(1) _ _ refl, of 0 1] by (auto simp: u8_def)
qed



section \<open>The measurement programs\<close>

text \<open>
  C39. A percentile is an order statistic: when the rank the program computes from the percentile (the ceiling of
  the \<^verbatim>\<open>double\<close> product \<open>scaled\<close>) is between 1 and the sample size, the value is a sample, at least rank samples are
  not above it, and at least \<open>n - rank + 1\<close> are not below it. In particular, halving being exact, at least half of the
  samples are on either side of the median.
\<close>

theorem percentile_is_order_statistic:
  fixes xs :: "'a::{linorder, zero} list"
  assumes "1 \<le> percentile_rank scaled p (length xs)" "percentile_rank scaled p (length xs) \<le> int (length xs)"
    and "int (length xs) < 2 ^ 64" "scaled 50 (length xs) = of_nat (length xs) / 2"
  shows "snd (compute_percentile scaled False xs p) \<in> set xs \<and>
    percentile_rank scaled p (length xs) \<le>
      int (length (filter (\<lambda>x. x \<le> snd (compute_percentile scaled False xs p)) xs)) \<and>
    int (length xs) - percentile_rank scaled p (length xs) + 1 \<le>
      int (length (filter (\<lambda>x. snd (compute_percentile scaled False xs p) \<le> x) xs)) \<and>
    int (length xs) \<le> 2 * int (length (filter (\<lambda>x. x \<le> compute_p50 scaled xs) xs)) \<and>
    int (length xs) \<le> 2 * int (length (filter (\<lambda>x. compute_p50 scaled xs \<le> x) xs))"
proof -
  let ?h = "(int (length xs) + 1) div 2"
  have h: "1 \<le> ?h" "?h \<le> int (length xs)" using assms(1,2) by auto
  have p50: "compute_p50 scaled xs = snd (percentile_at False xs ?h)"
    by (simp add: compute_p50_def compute_percentile_def median_rank [where scaled = scaled and n = "length xs", OF assms(4)])
  show ?thesis
    using percentile_order_statistic [OF assms(1-3) refl] percentile_order_statistic(2,3) [OF h assms(3) refl]
    unfolding p50 compute_percentile_def by auto
qed

theorem percentile_is_order_statistic_witness:
  "snd (compute_percentile (\<lambda>p n. p * of_nat n / 100) False [30, 10, 20 :: int] 90) \<in> {30, 10, 20}"
  using percentile_is_order_statistic [of "\<lambda>p n. p * of_nat n / 100" 90 "[30, 10, 20 :: int]"]
  by (simp add: percentile_rank_def Let_def)



end
